(* ===== verification/RSF_Prelude.thy ===== *)
theory RSF_Prelude
  imports Main "HOL-Library.Word"
begin

text \<open>
  Shared vocabulary of the development: the fixed-width integer types of
  \<^verbatim>\<open>include/types.hpp\<close>, the faults that stop a C++ routine, checked access to
  \<^verbatim>\<open>std::vector\<close>, C strings inside character arrays, and the little-endian memory
  representation of integers together with \<^verbatim>\<open>htonl\<close> and \<^verbatim>\<open>htons\<close>.
  The host is little-endian (x86); a \<open>uint32_t\<close> in memory is the list of its four
  bytes, least significant first.
\<close>

unbundle bit_operations_syntax

section \<open>Machine types\<close>

type_synonym byte = "8 word"
type_synonym uint8 = "8 word"
type_synonym uint16 = "16 word"
type_synonym uint32 = "32 word"
type_synonym int32 = "32 word" \<comment> \<open>read with \<open>sint\<close>\<close>

lemma uint8_le: "unat (x :: uint8) \<le> 255"
  using unsigned_less [of x, where ?'a = nat] by simp

text \<open>A message frame of the transport is a sequence of bytes.\<close>

type_synonym frame = "byte list"

section \<open>Faults\<close>

text \<open>
  How a routine can fail to return: it calls \<^verbatim>\<open>exit(EXIT_FAILURE)\<close>, it runs into
  behaviour the C++ standard leaves undefined (an access outside a vector or a message,
  a read of an indeterminate value, signed overflow), a socket call throws
  \<^verbatim>\<open>zmq::error_t\<close> that nobody catches, or a loop never ends.
\<close>

datatype fault = Exit_Failure | Undefined_Behaviour | Zmq_Error | Diverges

type_synonym 'a res = "fault + 'a"

definition rbind :: "'a res \<Rightarrow> ('a \<Rightarrow> 'b res) \<Rightarrow> 'b res" where
  "rbind m f = (case m of Inl e \<Rightarrow> Inl e | Inr x \<Rightarrow> f x)"

definition of_option :: "fault \<Rightarrow> 'a option \<Rightarrow> 'a res" where
  "of_option e m = (case m of None \<Rightarrow> Inl e | Some x \<Rightarrow> Inr x)"

definition vec_get :: "'a list \<Rightarrow> nat \<Rightarrow> 'a res" where
  "vec_get xs i = (if i < length xs then Inr (xs ! i) else Inl Undefined_Behaviour)"

definition vec_set :: "'a list \<Rightarrow> nat \<Rightarrow> 'a \<Rightarrow> 'a list res" where
  "vec_set xs i x = (if i < length xs then Inr (xs[i := x]) else Inl Undefined_Behaviour)"

named_theorems res_simps \<open>evaluation of fallible routines\<close>
named_theorems inv_intros \<open>preservation of the component invariants\<close>

lemma rbind_simps [simp, res_simps]:
  "rbind (Inl e) f = Inl e"
  "rbind (Inr x) f = f x"
  by (simp_all add: rbind_def)

lemma rbind_Inr_iff [res_simps]: "rbind m f = Inr y \<longleftrightarrow> (\<exists>x. m = Inr x \<and> f x = Inr y)"
  by (cases m) simp_all

lemma rbind_Inl_iff: "rbind m f = Inl e \<longleftrightarrow> m = Inl e \<or> (\<exists>x. m = Inr x \<and> f x = Inl e)"
  by (cases m) simp_all

lemma rbind_assoc: "rbind (rbind m f) g = rbind m (\<lambda>x. rbind (f x) g)"
  by (cases m) simp_all

lemma of_option_simps [simp, res_simps]:
  "of_option e None = Inl e"
  "of_option e (Some x) = Inr x"
  by (simp_all add: of_option_def)

lemma of_option_Inr_iff [res_simps]: "of_option e m = Inr x \<longleftrightarrow> m = Some x"
  by (cases m) simp_all

lemma vec_get_Inr_iff [res_simps]: "vec_get xs i = Inr x \<longleftrightarrow> i < length xs \<and> x = xs ! i"
  by (auto simp: vec_get_def)

lemma vec_get_less [simp]: "i < length xs \<Longrightarrow> vec_get xs i = Inr (xs ! i)"
  by (simp add: vec_get_def)

lemma vec_get_ge: "length xs \<le> i \<Longrightarrow> vec_get xs i = Inl Undefined_Behaviour"
  by (simp add: vec_get_def)

lemma vec_set_Inr_iff [res_simps]: "vec_set xs i x = Inr ys \<longleftrightarrow> i < length xs \<and> ys = xs[i := x]"
  by (auto simp: vec_set_def)

lemma vec_set_less [simp]: "i < length xs \<Longrightarrow> vec_set xs i x = Inr (xs[i := x])"
  by (simp add: vec_set_def)

lemma take_Suc_update: "j < length xs \<Longrightarrow> take (Suc j) (xs[j := x]) = take j xs @ [x]"
  by (simp add: take_Suc_conv_app_nth)

section \<open>Integers in memory\<close>

fun le_bytes :: "nat \<Rightarrow> 'a::len word \<Rightarrow> byte list" where
  "le_bytes 0 w = []"
| "le_bytes (Suc n) w = ucast w # le_bytes n (drop_bit 8 w)"

fun le_word :: "byte list \<Rightarrow> 'a::len word" where
  "le_word [] = 0"
| "le_word (b # bs) = ucast b OR push_bit 8 (le_word bs)"

lemma length_le_bytes [simp]: "length (le_bytes n w) = n"
  by (induction n arbitrary: w) auto

lemma le_word_le_bytes: "le_word (le_bytes n w) = take_bit (8 * n) w"
proof (induction n arbitrary: w)
  case (Suc n)
  show ?case
    by (rule bit_word_eqI) (auto simp: Suc bit_simps)
qed simp

lemma bit_le_word:
  "bit (le_word bs :: 'a::len word) n \<longleftrightarrow>
     n < LENGTH('a) \<and> n < 8 * length bs \<and> bit (bs ! (n div 8)) (n mod 8)"
proof (induction bs arbitrary: n)
  case (Cons b bs)
  show ?case
  proof (cases "n < 8")
    case True
    then show ?thesis by (auto simp: Cons.IH bit_simps)
  next
    case False
    then have "n div 8 = Suc ((n - 8) div 8)" "n mod 8 = (n - 8) mod 8"
      by (simp_all add: le_div_geq le_mod_geq not_less)
    with False show ?thesis by (auto simp: Cons.IH bit_simps dest: bit_imp_le_length)
  qed
qed simp

lemma nth_le_bytes: "i < n \<Longrightarrow> le_bytes n w ! i = ucast (drop_bit (8 * i) w)"
proof (induction n arbitrary: i w)
  case (Suc n)
  then show ?case by (cases i) (simp_all add: drop_bit_drop_bit add.commute)
qed simp

lemma le_bytes_le_word:
  assumes "8 * length bs \<le> LENGTH('a)"
  shows "le_bytes (length bs) (le_word bs :: 'a::len word) = bs"
proof (rule nth_equalityI)
  fix i assume "i < length (le_bytes (length bs) (le_word bs :: 'a word))"
  then have i: "i < length bs" by simp
  show "le_bytes (length bs) (le_word bs :: 'a word) ! i = bs ! i"
  proof (rule bit_word_eqI)
    fix n assume n: "n < LENGTH(8)"
    then have "(8 * i + n) div 8 = i" "(8 * i + n) mod 8 = n" by simp_all
    with i n assms show "bit (le_bytes (length bs) (le_word bs :: 'a word) ! i) n = bit (bs ! i) n"
      by (auto simp: nth_le_bytes bit_le_word bit_simps)
  qed
qed simp

lemma le_word_le_bytes_id [simp]:
  "le_word (le_bytes 4 w) = (w :: 32 word)"
  "le_word (le_bytes 2 h) = (h :: 16 word)"
  "le_word (le_bytes 3 t) = (t :: 24 word)"
  by (simp_all add: le_word_le_bytes take_bit_word_eq_self)

lemma le_bytes_le_word_id:
  "length bs = 4 \<Longrightarrow> le_bytes 4 (le_word bs :: 32 word) = bs"
  "length bs = 2 \<Longrightarrow> le_bytes 2 (le_word bs :: 16 word) = bs"
  using le_bytes_le_word [of bs, where 'a = 32] le_bytes_le_word [of bs, where 'a = 16]
  by simp_all

text \<open>
  \<open>load n off bs\<close> is the read of an \<open>n\<close>-byte integer through a pointer to offset
  \<open>off\<close> of a buffer; a read past the end of the buffer is undefined.
\<close>

definition load :: "nat \<Rightarrow> nat \<Rightarrow> byte list \<Rightarrow> 'a::len word res" where
  "load n off bs =
     (if off + n \<le> length bs then Inr (le_word (take n (drop off bs))) else Inl Undefined_Behaviour)"

definition load_bytes :: "nat \<Rightarrow> nat \<Rightarrow> byte list \<Rightarrow> byte list res" where
  "load_bytes n off bs =
     (if off + n \<le> length bs then Inr (take n (drop off bs)) else Inl Undefined_Behaviour)"

lemma load_Inr_iff [res_simps]:
  "load n off bs = Inr w \<longleftrightarrow> off + n \<le> length bs \<and> w = le_word (take n (drop off bs))"
  by (auto simp: load_def)

section \<open>Network byte order\<close>

definition htonl :: "uint32 \<Rightarrow> uint32" where
  "htonl w = le_word (rev (le_bytes 4 w))"

definition ntohl :: "uint32 \<Rightarrow> uint32" where
  "ntohl w = le_word (rev (le_bytes 4 w))"

definition htons :: "uint16 \<Rightarrow> uint16" where
  "htons w = le_word (rev (le_bytes 2 w))"

definition ntohs :: "uint16 \<Rightarrow> uint16" where
  "ntohs w = le_word (rev (le_bytes 2 w))"

text \<open>
  What every user of a byte-order conversion relies on: the two directions undo each
  other, so comparing converted values is comparing the values.
\<close>

locale byte_order =
  fixes hton :: "'a \<Rightarrow> 'a" and ntoh :: "'a \<Rightarrow> 'a"
  assumes ntoh_hton: "ntoh (hton x) = x"
    and hton_ntoh: "hton (ntoh x) = x"
begin

lemma hton_eq_iff: "hton x = hton y \<longleftrightarrow> x = y"
  by (metis ntoh_hton)

lemma ntoh_eq_iff: "ntoh x = ntoh y \<longleftrightarrow> x = y"
  by (metis hton_ntoh)

lemma ntoh_eq_swap: "ntoh x = y \<longleftrightarrow> x = hton y"
  by (metis hton_ntoh ntoh_hton)

lemmas wire_simps = ntoh_hton hton_ntoh hton_eq_iff ntoh_eq_iff

end

lemma rev_le_bytes_word:
  "le_bytes 4 (le_word (rev (le_bytes 4 w)) :: uint32) = rev (le_bytes 4 w)"
  "le_bytes 2 (le_word (rev (le_bytes 2 h)) :: uint16) = rev (le_bytes 2 h)"
  by (simp_all add: le_bytes_le_word_id)

interpretation long: byte_order htonl ntohl
  by unfold_locales (simp_all add: htonl_def ntohl_def rev_le_bytes_word)

interpretation short: byte_order htons ntohs
  by unfold_locales (simp_all add: htons_def ntohs_def rev_le_bytes_word)

declare long.wire_simps [simp] short.wire_simps [simp]

lemma le_bytes_htonl: "le_bytes 4 (htonl w) = rev (le_bytes 4 w)"
  by (simp add: htonl_def rev_le_bytes_word)

section \<open>C strings\<close>

text \<open>
  \<^verbatim>\<open>std::string(p)\<close> on a character array reads up to the first NUL; without a NUL in
  the array the read runs past its end.
\<close>

fun cstring :: "byte list \<Rightarrow> string res" where
  "cstring [] = Inl Undefined_Behaviour"
| "cstring (b # bs) = (if b = 0 then Inr [] else rbind (cstring bs) (\<lambda>s. Inr (char_of (unat b) # s)))"

definition c_str :: "string \<Rightarrow> byte list" where
  "c_str s = map (\<lambda>c. of_nat (of_char c)) s @ [0]"

lemma of_char_bound: "of_char c < (256 :: nat)"
  by (metis nat_of_char_less_256)

lemma unat_char_byte [simp]: "unat (of_nat (of_char c) :: byte) = of_char c"
  using of_char_bound [of c] by (simp add: unat_of_nat)

lemma char_byte_eq_0_iff: "(of_nat (of_char c) :: byte) = 0 \<longleftrightarrow> of_char c = (0 :: nat)"
  by (metis unat_char_byte unat_eq_zero)

lemma cstring_c_str:
  "\<forall>c\<in>set s. of_char c \<noteq> (0 :: nat) \<Longrightarrow> cstring (c_str s @ rest) = Inr s"
  by (induction s) (simp_all add: c_str_def char_byte_eq_0_iff)

section \<open>Step systems\<close>

text \<open>
  The processes of the framework are loops around a step. An invariant that every step keeps
  holds in every state the loop reaches.
\<close>

locale step_system =
  fixes step :: "'s \<Rightarrow> 's \<Rightarrow> bool" and inv :: "'s \<Rightarrow> bool"
  assumes step_inv: "step s t \<Longrightarrow> inv s \<Longrightarrow> inv t"
begin

lemma steps_inv: "step\<^sup>*\<^sup>* s t \<Longrightarrow> inv s \<Longrightarrow> inv t"
  by (induction rule: rtranclp_induct) (auto intro: step_inv)

lemma steps_last:
  assumes "step\<^sup>*\<^sup>* s t" "step t u" "inv s"
  shows "inv t \<and> inv u"
  using assms by (meson steps_inv step_inv)

end

end
