(* ===== verification/RSF_Service.thy ===== *)
theory RSF_Service
  imports RSF_Prelude
begin

text \<open>
  The services a server can offer (\<^verbatim>\<open>include/service.hpp\<close>,
  \<^verbatim>\<open>src/server/service.cpp\<close>). \<open>service_type_t\<close> is an enumeration in the source, but the
  code stores byte-swapped and received values in it, so a variable of that type holds any
  32-bit value; \<open>service_kind\<close> names the four enumerators and \<open>service_code\<close> their values.
\<close>

section \<open>Definitions\<close>

datatype service_kind = INCREMENT | DECREMENT | MULTIPLY2 | SUM_SERVICE

type_synonym service_type_t = uint32

primrec service_code :: "service_kind \<Rightarrow> service_type_t" where
  "service_code INCREMENT = 0"
| "service_code DECREMENT = 1"
| "service_code MULTIPLY2 = 2"
| "service_code SUM_SERVICE = 3"

definition service_kind_of :: "service_type_t \<Rightarrow> service_kind option" where
  "service_kind_of s =
     (if s = 0 then Some INCREMENT else if s = 1 then Some DECREMENT
      else if s = 2 then Some MULTIPLY2 else if s = 3 then Some SUM_SERVICE else None)"

text \<open>Signed arithmetic on \<open>int32_t\<close>: a result outside the range is undefined.\<close>

definition checked_int32 :: "int \<Rightarrow> int32 res" where
  "checked_int32 i =
     (if - (2 ^ 31) \<le> i \<and> i < 2 ^ 31 then Inr (word_of_int i) else Inl Undefined_Behaviour)"

definition increment :: "int32 \<Rightarrow> int32 res" where
  "increment x = checked_int32 (sint x + 1)"

definition decrement :: "int32 \<Rightarrow> int32 res" where
  "decrement x = checked_int32 (sint x - 1)"

definition multiply2 :: "int32 \<Rightarrow> int32 res" where
  "multiply2 x = checked_int32 (sint x * 2)"

definition sum_body :: "int32 \<Rightarrow> int32 \<Rightarrow> int32 res" where
  "sum_body x y = checked_int32 (sint x + sint y)"

type_synonym service_body = "int32 \<Rightarrow> int32 res"

text \<open>
  The \<open>SUM_SERVICE\<close> branch leaves the pointer unassigned, and the assertion after the switch reads it.
\<close>

definition get_service_body :: "service_type_t \<Rightarrow> service_body res" where
  "get_service_body service =
     (case service_kind_of service of
        Some INCREMENT \<Rightarrow> Inr increment
      | Some DECREMENT \<Rightarrow> Inr decrement
      | Some MULTIPLY2 \<Rightarrow> Inr multiply2
      | Some SUM_SERVICE \<Rightarrow> Inl Undefined_Behaviour
      | None \<Rightarrow> Inl Exit_Failure)"

section \<open>Specification\<close>

text \<open>What each service promises on mathematical integers, and which services exist.\<close>

primrec service_spec :: "service_kind \<Rightarrow> (int \<Rightarrow> int) option" where
  "service_spec INCREMENT = Some (\<lambda>x. x + 1)"
| "service_spec DECREMENT = Some (\<lambda>x. x - 1)"
| "service_spec MULTIPLY2 = Some (\<lambda>x. x * 2)"
| "service_spec SUM_SERVICE = None"

lemma service_kind_of_code [simp]: "service_kind_of (service_code k) = Some k"
  by (cases k) (simp_all add: service_kind_of_def)

lemma service_kind_of_Some_iff: "service_kind_of s = Some k \<longleftrightarrow> s = service_code k"
  by (cases k) (auto simp: service_kind_of_def)

lemma service_code_eq_iff [simp]: "service_code k = service_code l \<longleftrightarrow> k = l"
  by (metis service_kind_of_code option.inject)

lemma checked_int32_Inr_iff [res_simps]: "checked_int32 i = Inr y \<longleftrightarrow> sint y = i"
proof
  assume "checked_int32 i = Inr y"
  then have "- (2 ^ 31) \<le> i" "i < 2 ^ 31" "y = word_of_int i"
    by (auto simp: checked_int32_def split: if_splits)
  then show "sint y = i" by (simp add: sint_sbintrunc' signed_take_bit_int_eq_self)
next
  assume "sint y = i"
  moreover have "- (2 ^ 31) \<le> sint y" "sint y < 2 ^ 31"
    using sint_ge [of y] sint_lt [of y] by simp_all
  ultimately show "checked_int32 i = Inr y" by (auto simp: checked_int32_def)
qed

lemma checked_int32_cases: "checked_int32 i = Inl Undefined_Behaviour \<or> (\<exists>y. checked_int32 i = Inr y)"
  by (simp add: checked_int32_def)

lemma get_service_body_spec:
  "service_spec k = Some g \<Longrightarrow>
   \<exists>body. get_service_body (service_code k) = Inr body \<and> (\<forall>x. body x = checked_int32 (g (sint x)))"
  by (cases k) (auto simp: get_service_body_def service_kind_of_def increment_def decrement_def multiply2_def)

section \<open>Properties\<close>

text \<open>
  A server that is started for a supported service runs the function the service promises:
  the body \<open>get_service_body\<close> selects returns \<open>y\<close> on \<open>x\<close> exactly when \<open>y\<close>, read as a
  signed integer, is the mathematical result on \<open>x\<close>, and its only other outcome is signed
  overflow.
\<close>

theorem service_body_computes_spec:
  assumes "service_spec k = Some g"
  shows "\<exists>body. get_service_body (service_code k) = Inr body \<and>
     (\<forall>x y. body x = Inr y \<longleftrightarrow> sint y = g (sint x)) \<and>
     (\<forall>x. (\<nexists>y :: int32. sint y = g (sint x)) \<longrightarrow> body x = Inl Undefined_Behaviour)"
proof -
  from get_service_body_spec [OF assms] obtain body
    where body: "get_service_body (service_code k) = Inr body" "\<And>x. body x = checked_int32 (g (sint x))"
    by blast
  then show ?thesis using checked_int32_cases by (fastforce simp: checked_int32_Inr_iff)
qed

theorem service_body_computes_spec_witness:
  "\<exists>body. get_service_body (service_code INCREMENT) = Inr body \<and> body 2 = Inr 3"
proof -
  have "service_spec INCREMENT = Some (\<lambda>x. x + 1)" by simp
  from service_body_computes_spec [OF this] obtain body
    where b: "get_service_body (service_code INCREMENT) = Inr body" "\<forall>x y. body x = Inr y \<longleftrightarrow> sint y = sint x + 1"
    by blast
  from b(2) have "body 2 = Inr 3 \<longleftrightarrow> sint (3 :: int32) = sint (2 :: int32) + 1" by blast
  with b(1) show ?thesis by simp
qed

text \<open>
  The only services that give a server a body are the first three: a code outside the
  enumeration ends the process, and \<open>SUM_SERVICE\<close>, whose assignment is commented out, reads an
  uninitialised function pointer.
\<close>

theorem get_service_body_total:
  "((\<exists>body. get_service_body s = Inr body) \<longleftrightarrow> s = 0 \<or> s = 1 \<or> s = 2) \<and>
   (get_service_body s = Inl Undefined_Behaviour \<longleftrightarrow> s = service_code SUM_SERVICE) \<and>
   (get_service_body s = Inl Exit_Failure \<longleftrightarrow> s \<notin> range service_code)"
proof -
  have "s \<in> range service_code \<longleftrightarrow> (\<exists>k. service_kind_of s = Some k)"
    by (auto simp: service_kind_of_Some_iff)
  then show ?thesis
    by (auto simp: get_service_body_def service_kind_of_def split: if_splits)
qed

end
