(* ===== verification/RSF_Comm.thy ===== *)
theory RSF_Comm
  imports RSF_Service
begin

text \<open>
  \<^verbatim>\<open>include/communication.hpp\<close>: the constants of the protocol, the structures that travel
  in message frames with their memory layout, and the textual encoding of parameters
  (\<open>serialize\<close>, \<open>deserialize\<close>); from \<^verbatim>\<open>src/utilities/util.cpp\<close> the helpers \<open>add_socket\<close>
  and \<open>send_multi_msg\<close>. Structures are sent as their object representation, so padding
  bytes are fields of the model, and a cast \<^verbatim>\<open>*static_cast<T*>(msg.data())\<close> of a frame
  that is shorter than the structure is undefined.
\<close>

section \<open>Constants\<close>

abbreviation (input) ENVELOPE :: nat where "ENVELOPE \<equiv> 3"
abbreviation (input) PARAM_SIZE :: nat where "PARAM_SIZE \<equiv> 100"
abbreviation (input) MAX_LENGTH_SIGNATURE :: nat where "MAX_LENGTH_SIGNATURE \<equiv> 32"
abbreviation (input) MAX_LENGTH_STRING_PORT :: nat where "MAX_LENGTH_STRING_PORT \<equiv> 6"
abbreviation (input) HEARTBEAT_INTERVAL :: int where "HEARTBEAT_INTERVAL \<equiv> 2000"
abbreviation (input) HC_HEARTBEAT_INTERVAL :: int where "HC_HEARTBEAT_INTERVAL \<equiv> 5000"
abbreviation (input) REQUEST_TIMEOUT :: int where "REQUEST_TIMEOUT \<equiv> 5000"
abbreviation (input) WCDPING :: int where "WCDPING \<equiv> 500"
abbreviation (input) LIVENESS :: int where "LIVENESS \<equiv> 3"
abbreviation (input) MAX_NMR :: nat where "MAX_NMR \<equiv> 5"
abbreviation (input) DEALER_START_PORT :: uint16 where "DEALER_START_PORT \<equiv> 6000"
abbreviation (input) SERVER_PONG_PORT :: nat where "SERVER_PONG_PORT \<equiv> 7000"
abbreviation (input) BROKER_PONG_PORT :: uint16 where "BROKER_PONG_PORT \<equiv> 8000"

datatype service_status_t = SERVICE_AVAILABLE | SERVICE_NOT_AVAILABLE | SERVICE_NOT_RELIABLE

primrec status_code :: "service_status_t \<Rightarrow> uint32" where
  "status_code SERVICE_AVAILABLE = 0"
| "status_code SERVICE_NOT_AVAILABLE = 1"
| "status_code SERVICE_NOT_RELIABLE = 2"

lemma status_code_eq_iff [simp]: "status_code a = status_code b \<longleftrightarrow> a = b"
  by (cases a; cases b) simp_all

section \<open>Structures on the wire\<close>

record request_module =
  rq_service :: uint32
  rq_parameters :: "byte list"

record response_module =
  rs_status :: uint32
  rs_result :: int32

record service_module =
  sm_heartbeat :: bool
  sm_pad :: "24 word"
  sm_seq_id :: uint32
  sm_parameters :: "byte list"

record server_reply_t =
  sr_heartbeat :: bool
  sr_duplicated :: bool
  sr_pad :: "16 word"
  sr_result :: int32
  sr_service :: uint32
  sr_id :: uint8
  sr_pad_end :: "24 word"

record registration_module =
  rg_signature :: "byte list"
  rg_service :: uint32

definition bool_byte :: "bool \<Rightarrow> byte" where
  "bool_byte b = (if b then 1 else 0)"

definition enc_request :: "request_module \<Rightarrow> byte list" where
  "enc_request r = le_bytes 4 (rq_service r) @ rq_parameters r"

definition dec_request :: "byte list \<Rightarrow> request_module res" where
  "dec_request bs =
     (if length bs < 4 + PARAM_SIZE then Inl Undefined_Behaviour
      else Inr \<lparr>rq_service = le_word (take 4 bs), rq_parameters = take PARAM_SIZE (drop 4 bs)\<rparr>)"

definition enc_response :: "response_module \<Rightarrow> byte list" where
  "enc_response r = le_bytes 4 (rs_status r) @ le_bytes 4 (rs_result r)"

definition dec_response :: "byte list \<Rightarrow> response_module res" where
  "dec_response bs =
     (if length bs < 8 then Inl Undefined_Behaviour
      else Inr \<lparr>rs_status = le_word (take 4 bs), rs_result = le_word (take 4 (drop 4 bs))\<rparr>)"

definition enc_service :: "service_module \<Rightarrow> byte list" where
  "enc_service s =
     [bool_byte (sm_heartbeat s)] @ le_bytes 3 (sm_pad s) @ le_bytes 4 (sm_seq_id s) @ sm_parameters s"

definition dec_service :: "byte list \<Rightarrow> service_module res" where
  "dec_service bs =
     (if length bs < 8 + PARAM_SIZE then Inl Undefined_Behaviour
      else Inr \<lparr>sm_heartbeat = (bs ! 0 \<noteq> 0), sm_pad = le_word (take 3 (drop 1 bs)),
                sm_seq_id = le_word (take 4 (drop 4 bs)),
                sm_parameters = take PARAM_SIZE (drop 8 bs)\<rparr>)"

definition enc_reply :: "server_reply_t \<Rightarrow> byte list" where
  "enc_reply r =
     [bool_byte (sr_heartbeat r), bool_byte (sr_duplicated r)] @ le_bytes 2 (sr_pad r) @
     le_bytes 4 (sr_result r) @ le_bytes 4 (sr_service r) @ [sr_id r] @ le_bytes 3 (sr_pad_end r)"

definition dec_reply :: "byte list \<Rightarrow> server_reply_t res" where
  "dec_reply bs =
     (if length bs < 16 then Inl Undefined_Behaviour
      else Inr \<lparr>sr_heartbeat = (bs ! 0 \<noteq> 0), sr_duplicated = (bs ! 1 \<noteq> 0),
                sr_pad = le_word (take 2 (drop 2 bs)), sr_result = le_word (take 4 (drop 4 bs)),
                sr_service = le_word (take 4 (drop 8 bs)), sr_id = bs ! 12,
                sr_pad_end = le_word (take 3 (drop 13 bs))\<rparr>)"

definition enc_registration :: "registration_module \<Rightarrow> byte list" where
  "enc_registration r = rg_signature r @ le_bytes 4 (rg_service r)"

definition dec_registration :: "byte list \<Rightarrow> registration_module res" where
  "dec_registration bs =
     (if length bs < MAX_LENGTH_SIGNATURE + 4 then Inl Undefined_Behaviour
      else Inr \<lparr>rg_signature = take MAX_LENGTH_SIGNATURE bs,
                rg_service = le_word (take 4 (drop MAX_LENGTH_SIGNATURE bs))\<rparr>)"

text \<open>
  The contract of a structure on the wire: a fixed size, a cast that recovers the structure
  from the front of any buffer that starts with it, and a fault on a buffer that is too short.
\<close>

locale wire_struct =
  fixes enc :: "'a \<Rightarrow> byte list" and dec :: "byte list \<Rightarrow> 'a res"
    and wf :: "'a \<Rightarrow> bool" and size_of :: nat
  assumes length_enc: "wf x \<Longrightarrow> length (enc x) = size_of"
    and dec_enc_front: "wf x \<Longrightarrow> dec (enc x @ rest) = Inr x"
    and dec_short: "length bs < size_of \<Longrightarrow> dec bs = Inl Undefined_Behaviour"
    and dec_long: "size_of \<le> length bs \<Longrightarrow> \<exists>x. dec bs = Inr x \<and> wf x"
begin

lemma dec_enc: "wf x \<Longrightarrow> dec (enc x) = Inr x"
  using dec_enc_front [of x "[]"] by simp

lemma enc_inject: "wf x \<Longrightarrow> wf y \<Longrightarrow> enc x = enc y \<longleftrightarrow> x = y"
  by (metis dec_enc sum.inject(2))

lemma dec_Inr_iff_length: "(\<exists>x. dec bs = Inr x) \<longleftrightarrow> size_of \<le> length bs"
  using dec_short [of bs] dec_long [of bs] by (metis Inl_Inr_False not_le)

lemma dec_wf: "dec bs = Inr x \<Longrightarrow> wf x"
  by (metis dec_Inr_iff_length dec_long sum.inject(2))

end

lemma bool_byte_eq_0_iff [simp]: "bool_byte b = 0 \<longleftrightarrow> \<not> b"
  by (simp add: bool_byte_def)

interpretation request_wire: wire_struct enc_request dec_request
  "\<lambda>r. length (rq_parameters r) = PARAM_SIZE" "4 + PARAM_SIZE"
  by unfold_locales (auto simp: enc_request_def dec_request_def)

interpretation response_wire: wire_struct enc_response dec_response "\<lambda>r. True" 8
  by unfold_locales (auto simp: enc_response_def dec_response_def)

interpretation service_wire: wire_struct enc_service dec_service
  "\<lambda>s. length (sm_parameters s) = PARAM_SIZE" "8 + PARAM_SIZE"
  by unfold_locales (auto simp: enc_service_def dec_service_def)

interpretation reply_wire: wire_struct enc_reply dec_reply "\<lambda>r. True" 16
  by unfold_locales (auto simp: enc_reply_def dec_reply_def nth_append)

interpretation registration_wire: wire_struct enc_registration dec_registration
  "\<lambda>r. length (rg_signature r) = MAX_LENGTH_SIGNATURE" "MAX_LENGTH_SIGNATURE + 4"
  by unfold_locales (auto simp: enc_registration_def dec_registration_def)

lemmas wire_dec_enc [simp] =
  request_wire.dec_enc response_wire.dec_enc service_wire.dec_enc reply_wire.dec_enc
  registration_wire.dec_enc

end
