(* ===== verification/RSF_Time.thy ===== *)
theory RSF_Time
  imports RSF_Prelude "HOL-Library.Signed_Division"
begin

text \<open>
  The time helpers of \<^verbatim>\<open>src/utilities/util.cpp\<close>: \<open>time_copy\<close>, \<open>time_add_ms\<close>,
  \<open>time_add_ns\<close>, \<open>time_cmp\<close> and \<open>busy_wait\<close>. The source adds milliseconds with 64-bit
  signed integers and, for \<open>tv_nsec\<close>, in \<open>double\<close>: \<open>time_add_ms_c\<close> does the same, rounds
  every conversion and sum to 53 bits, and ends in undefined behaviour where a value leaves
  its type. \<open>time_add_ms\<close> is its reading in unbounded integers, which the components use;
  \<open>time_add_ms_c_eq\<close> shows that the two agree on the stamps a clock returns.
  \<open>to_ns\<close> is the abstract meaning of a time stamp.
\<close>

section \<open>Definitions\<close>

record timespec =
  tv_sec :: int
  tv_nsec :: int

definition time_copy :: "timespec \<Rightarrow> timespec \<Rightarrow> timespec" where
  "time_copy dst src = dst\<lparr>tv_sec := tv_sec src, tv_nsec := tv_nsec src\<rparr>"

definition time_add_ms :: "timespec \<Rightarrow> int \<Rightarrow> timespec" where
  "time_add_ms dst ms =
     (let s = tv_sec dst + ms sdiv 1000;
          n = tv_nsec dst + (ms smod 1000) * 1000000
      in if n > 1000000000 then dst\<lparr>tv_sec := s + 1, tv_nsec := n - 1000000000\<rparr>
         else dst\<lparr>tv_sec := s, tv_nsec := n\<rparr>)"

text \<open>
  The machine arithmetic: \<open>time_t\<close> and \<open>long\<close> are 64-bit signed integers, a \<open>double\<close> has a
  mantissa of 53 bits and rounds to the nearest value, ties to the even one. Every number
  that occurs is an integer, so the rounding is one on integers.
\<close>

definition long_res :: "int \<Rightarrow> int res" where
  "long_res x = (if - (2 ^ 63) \<le> x \<and> x < 2 ^ 63 then Inr x else Inl Undefined_Behaviour)"

fun ulp_exponent :: "nat \<Rightarrow> nat" where
  "ulp_exponent n = (if n < 2 ^ 53 then 0 else Suc (ulp_exponent (n div 2)))"

declare ulp_exponent.simps [simp del]

definition double :: "int \<Rightarrow> int" where
  "double x =
     (let p = 2 ^ ulp_exponent (nat \<bar>x\<bar>);
          q = x div p;
          r = x mod p
      in if 2 * r < p \<or> 2 * r = p \<and> even q then q * p else (q + 1) * p)"

definition time_add_ms_c :: "timespec \<Rightarrow> int \<Rightarrow> timespec res" where
  "time_add_ms_c dst ms =
     rbind (long_res (tv_sec dst + ms sdiv 1000)) (\<lambda>s.
     rbind (long_res (double (double (tv_nsec dst) + double (ms smod 1000 * 1000000)))) (\<lambda>n.
       if double n > 1000000000
       then rbind (long_res (double (double n - 1000000000))) (\<lambda>n'.
              rbind (long_res (s + 1)) (\<lambda>s'. Inr (dst\<lparr>tv_sec := s', tv_nsec := n'\<rparr>)))
       else Inr (dst\<lparr>tv_sec := s, tv_nsec := n\<rparr>)))"

definition time_add_ns :: "timespec \<Rightarrow> int \<Rightarrow> timespec res" where
  "time_add_ns dst ns =
     rbind (long_res (tv_nsec dst + ns)) (\<lambda>n.
       if double n > 1000000000
       then rbind (long_res (double (double n - 1000000000))) (\<lambda>n'.
              rbind (long_res (tv_sec dst + 1)) (\<lambda>s'. Inr (dst\<lparr>tv_sec := s', tv_nsec := n'\<rparr>)))
       else Inr (dst\<lparr>tv_nsec := n\<rparr>))"

definition time_cmp :: "timespec \<Rightarrow> timespec \<Rightarrow> int" where
  "time_cmp t1 t2 =
     (if tv_sec t1 > tv_sec t2 then 1
      else if tv_sec t1 < tv_sec t2 then - 1
      else if tv_nsec t1 > tv_nsec t2 then 1
      else if tv_nsec t1 < tv_nsec t2 then - 1
      else 0)"

text \<open>Time stamps are ordered by seconds first, as \<open>time_cmp\<close> compares them.\<close>

instantiation timespec_ext :: (linorder) linorder
begin

definition less_eq_timespec_ext :: "'a timespec_scheme \<Rightarrow> 'a timespec_scheme \<Rightarrow> bool" where
  "t \<le> u \<longleftrightarrow> tv_sec t < tv_sec u \<or> tv_sec t = tv_sec u \<and>
     (tv_nsec t < tv_nsec u \<or> tv_nsec t = tv_nsec u \<and> timespec.more t \<le> timespec.more u)"

definition less_timespec_ext :: "'a timespec_scheme \<Rightarrow> 'a timespec_scheme \<Rightarrow> bool" where
  "t < u \<longleftrightarrow> tv_sec t < tv_sec u \<or> tv_sec t = tv_sec u \<and>
     (tv_nsec t < tv_nsec u \<or> tv_nsec t = tv_nsec u \<and> timespec.more t < timespec.more u)"

instance
  by standard (auto simp: less_eq_timespec_ext_def less_timespec_ext_def intro: timespec.equality)

end

lemma time_cmp_order: "time_cmp t1 t2 = (if t2 < t1 then 1 else if t1 < t2 then - 1 else 0)"
  by (auto simp: time_cmp_def less_timespec_ext_def)

lemma time_cmp_iff: "time_cmp t1 t2 = 1 \<longleftrightarrow> t2 < t1" "time_cmp t1 t2 < 0 \<longleftrightarrow> t1 < t2" "time_cmp t1 t2 = 0 \<longleftrightarrow> t1 = t2"
  by (auto simp: time_cmp_order)

text \<open>
  \<open>busy_wait\<close> polls the monotonic clock. The clock is a parameter: \<open>clk k\<close> is the value
  its \<open>k\<close>-th reading returns. The loop may poll for ever, so it is an option; the result is
  the number of the reading at which it stops.
\<close>

partial_function (option) busy_wait_loop :: "(nat \<Rightarrow> timespec) \<Rightarrow> timespec \<Rightarrow> nat \<Rightarrow> nat option" where
  "busy_wait_loop clk t k =
     (if time_cmp (clk k) t < 0 then busy_wait_loop clk t (Suc k) else Some k)"

definition busy_wait :: "(nat \<Rightarrow> timespec) \<Rightarrow> nat \<Rightarrow> uint32 \<Rightarrow> nat option" where
  "busy_wait clk k ms = busy_wait_loop clk (time_add_ms (clk k) (uint ms)) (Suc k)"

section \<open>Meaning of a time stamp\<close>

definition to_ns :: "timespec \<Rightarrow> int" where
  "to_ns t = tv_sec t * 1000000000 + tv_nsec t"

definition normalised :: "timespec \<Rightarrow> bool" where
  "normalised t \<longleftrightarrow> 0 \<le> tv_nsec t \<and> tv_nsec t < 1000000000"

lemma smod_1000_bounds: "0 \<le> ms \<Longrightarrow> 0 \<le> ms smod 1000 \<and> ms smod 1000 < (1000 :: int)"
  by (simp add: smod_int_alt_def sgn_if)

lemma to_ns_time_add_ms: "to_ns (time_add_ms t ms) = to_ns t + ms * 1000000"
  using sdiv_mult_smod_eq [of ms 1000] by (simp add: time_add_ms_def to_ns_def Let_def algebra_simps)

lemma tv_nsec_time_add_ms:
  assumes "normalised t" "0 \<le> ms"
  shows "0 \<le> tv_nsec (time_add_ms t ms) \<and> tv_nsec (time_add_ms t ms) \<le> 1000000000"
  using assms smod_1000_bounds [of ms] by (auto simp: time_add_ms_def normalised_def Let_def)

text \<open>
  Below \<open>2 ^ 53\<close> a \<open>double\<close> is exact, and the values in an addition to a normalised stamp stay
  there. Beyond it the nanoseconds are rounded, so the bound is needed.
\<close>

lemma double_exact [simp]: "\<bar>x\<bar> < 2 ^ 53 \<Longrightarrow> double x = x"
  by (simp add: double_def Let_def ulp_exponent.simps nat_less_iff)

lemma long_res_Inr: "- (2 ^ 63) \<le> x \<Longrightarrow> x < 2 ^ 63 \<Longrightarrow> long_res x = Inr x"
  by (simp add: long_res_def)

lemma long_res_nsec: "\<bar>n\<bar> < 2 ^ 53 \<Longrightarrow> long_res n = Inr n"
  by (simp add: long_res_def abs_less_iff)

lemma nsec_in_double_range:
  assumes "normalised t" "0 \<le> ms"
  shows "\<bar>tv_nsec t\<bar> < 2 ^ 53" "\<bar>ms smod 1000 * 1000000\<bar> < 2 ^ 53"
    "\<bar>tv_nsec t + ms smod 1000 * 1000000\<bar> < 2 ^ 53" "\<bar>tv_nsec t + ms smod 1000 * 1000000 - 1000000000\<bar> < 2 ^ 53"
  using assms smod_1000_bounds [of ms] by (auto simp: normalised_def)

lemma time_add_ms_c_eq:
  assumes "normalised t" "0 \<le> ms" "ms < 2 ^ 63" "- (2 ^ 63) \<le> tv_sec t" "tv_sec t < 2 ^ 63"
  shows "time_add_ms_c t ms =
    (if tv_sec (time_add_ms t ms) < 2 ^ 63 then Inr (time_add_ms t ms) else Inl Undefined_Behaviour)"
proof -
  have "0 \<le> ms sdiv 1000" using assms(2) by (simp add: signed_divide_int_def sgn_if)
  with assms nsec_in_double_range [OF assms(1,2)] show ?thesis
    by (cases "tv_sec t + ms sdiv 1000 < 2 ^ 63")
      (auto simp: time_add_ms_c_def time_add_ms_def Let_def long_res_nsec long_res_def)
qed

lemma double_rounds: "double (2 ^ 53 + 1) = 2 ^ 53"
  by (simp add: double_def Let_def ulp_exponent.simps [of "9007199254740993"] ulp_exponent.simps [of "4503599627370496"])

lemma time_add_ms_c_overflows:
  "time_add_ms_c \<lparr>tv_sec = 2 ^ 63 - 1, tv_nsec = 600000000\<rparr> 500 = Inl Undefined_Behaviour"
  by (simp add: time_add_ms_c_eq normalised_def time_add_ms_def)

text \<open>
  On normalised stamps \<open>time_cmp\<close> is the order of \<open>to_ns\<close>. A deadline computed by
  \<open>time_add_ms\<close> may carry exactly \<open>10 ^ 9\<close> nanoseconds (the carry test is \<open>>\<close> and
  not \<open>\<ge>\<close>), which shifts only the case of equality.
\<close>

lemma time_cmp_normalised:
  assumes "normalised t1" "normalised t2"
  shows "time_cmp t1 t2 = sgn (to_ns t1 - to_ns t2)"
  using assms by (auto simp: time_cmp_def normalised_def to_ns_def)

lemma time_cmp_deadline:
  assumes "normalised now" "0 \<le> tv_nsec d" "tv_nsec d \<le> 1000000000"
  shows "time_cmp now d = 1 \<longleftrightarrow> to_ns d < to_ns now \<or> to_ns d = to_ns now \<and> tv_nsec d = 1000000000"
    and "time_cmp now d < 0 \<longleftrightarrow> to_ns now < to_ns d"
  using assms by (auto simp: time_cmp_def normalised_def to_ns_def split: if_splits)

lemma time_cmp_cases: "time_cmp t1 t2 \<in> {- 1, 0, 1}"
  by (simp add: time_cmp_def)

lemma time_cmp_refl [simp]: "time_cmp t t = 0"
  by (simp add: time_cmp_def)

text \<open>The polling loop stops at the first reading that is not before the deadline.\<close>

lemma busy_wait_loop_first:
  assumes "\<forall>j. k \<le> j \<and> j < m \<longrightarrow> time_cmp (clk j) t < 0" "\<not> time_cmp (clk m) t < 0" "k \<le> m"
  shows "busy_wait_loop clk t k = Some m"
  using assms
proof (induction "m - k" arbitrary: k)
  case 0
  then show ?case by (simp add: busy_wait_loop.simps)
next
  case (Suc d)
  then have "k < m" by simp
  with Suc.prems have "time_cmp (clk k) t < 0" by blast
  moreover from Suc \<open>k < m\<close> have "busy_wait_loop clk t (Suc k) = Some m"
    by (intro Suc.hyps(1)) auto
  ultimately show ?case by (simp add: busy_wait_loop.simps [of clk t k])
qed

lemma busy_wait_loop_returns:
  assumes "k \<le> m" "\<not> time_cmp (clk m) t < 0"
  obtains n where "k \<le> n" "n \<le> m" "busy_wait_loop clk t k = Some n" "\<not> time_cmp (clk n) t < 0"
    "\<forall>j. k \<le> j \<and> j < n \<longrightarrow> time_cmp (clk j) t < 0"
proof -
  define n where "n = (LEAST n. k \<le> n \<and> \<not> time_cmp (clk n) t < 0)"
  have ex: "k \<le> m \<and> \<not> time_cmp (clk m) t < 0" using assms by simp
  then have n: "k \<le> n \<and> \<not> time_cmp (clk n) t < 0" unfolding n_def by (rule LeastI)
  moreover from ex have "n \<le> m" unfolding n_def by (rule Least_le)
  moreover have before: "\<forall>j. k \<le> j \<and> j < n \<longrightarrow> time_cmp (clk j) t < 0"
    using not_less_Least n_def by blast
  moreover from before n have "busy_wait_loop clk t k = Some n"
    by (intro busy_wait_loop_first) auto
  ultimately show ?thesis using that by blast
qed

section \<open>Properties\<close>

text \<open>
  C34: Adding a delay to a clock reading is exact. For a normalised stamp and a non-negative
  delay, both within 64 bits, the machine function with its \<open>double\<close> arithmetic returns the
  stamp of the integer arithmetic, unless the seconds of the result leave their 64 bits, and
  then its behaviour is undefined; the stamp denotes the instant exactly \<open>ms\<close> milliseconds
  later, and its nanosecond field is between 0 and \<open>10 ^ 9\<close> inclusive.
\<close>

theorem time_add_ms_exact:
  assumes "normalised t" and "- (2 ^ 63) \<le> tv_sec t" and "tv_sec t < 2 ^ 63" and "0 \<le> ms" and "ms < 2 ^ 63"
  shows "time_add_ms_c t ms =
       (if tv_sec (time_add_ms t ms) < 2 ^ 63 then Inr (time_add_ms t ms) else Inl Undefined_Behaviour) \<and>
     to_ns (time_add_ms t ms) = to_ns t + ms * 1000000 \<and>
     0 \<le> tv_nsec (time_add_ms t ms) \<and> tv_nsec (time_add_ms t ms) \<le> 1000000000"
  using assms time_add_ms_c_eq to_ns_time_add_ms tv_nsec_time_add_ms by blast

theorem time_add_ms_exact_witness:
  "time_add_ms_c \<lparr>tv_sec = 10, tv_nsec = 500000000\<rparr> 2500 = Inr \<lparr>tv_sec = 12, tv_nsec = 1000000000\<rparr>"
  using time_add_ms_exact [of "\<lparr>tv_sec = 10, tv_nsec = 500000000\<rparr>" 2500]
  by (simp add: normalised_def time_add_ms_def)

text \<open>
  A deadline test \<open>time_cmp(&now, &deadline) == 1\<close>, with the deadline computed by
  \<open>time_add_ms\<close>, succeeds exactly when the clock has passed the deadline, or has just
  reached it and the deadline's nanosecond field is the unnormalised \<open>10 ^ 9\<close>.
\<close>

theorem deadline_expired_iff:
  assumes "normalised now" "normalised t" "0 \<le> ms"
  shows "time_cmp now (time_add_ms t ms) = 1 \<longleftrightarrow>
     to_ns t + ms * 1000000 < to_ns now \<or>
     to_ns t + ms * 1000000 = to_ns now \<and> tv_nsec (time_add_ms t ms) = 1000000000"
  using time_cmp_deadline(1) [OF assms(1)] tv_nsec_time_add_ms [OF assms(2,3)]
  by (simp add: to_ns_time_add_ms)

theorem deadline_expired_iff_witness:
  "time_cmp \<lparr>tv_sec = 11, tv_nsec = 0\<rparr> (time_add_ms \<lparr>tv_sec = 10, tv_nsec = 500000000\<rparr> 500) = 1 \<and>
   to_ns \<lparr>tv_sec = 10, tv_nsec = 500000000\<rparr> + 500 * 1000000 = to_ns \<lparr>tv_sec = 11, tv_nsec = 0\<rparr>"
  using deadline_expired_iff [of "\<lparr>tv_sec = 11, tv_nsec = 0\<rparr>" "\<lparr>tv_sec = 10, tv_nsec = 500000000\<rparr>" 500]
  by (simp add: normalised_def to_ns_def time_add_ms_def)

text \<open>
  C35: \<open>busy_wait\<close> returns as soon as the clock has advanced by the requested number of
  milliseconds since its first reading, and not before: on a clock that eventually advances
  that far it terminates, at the first reading at or after the deadline.
\<close>

theorem busy_wait_returns_at_deadline:
  assumes "\<forall>k. normalised (clk k)" and "k < m" and "to_ns (clk k) + uint ms * 1000000 \<le> to_ns (clk m)"
  shows "\<exists>n. busy_wait clk k ms = Some n \<and> k < n \<and> n \<le> m \<and>
     to_ns (clk k) + uint ms * 1000000 \<le> to_ns (clk n) \<and>
     (\<forall>j. k < j \<and> j < n \<longrightarrow> to_ns (clk j) < to_ns (clk k) + uint ms * 1000000)"
proof -
  let ?d = "time_add_ms (clk k) (uint ms)"
  have d: "0 \<le> tv_nsec ?d" "tv_nsec ?d \<le> 1000000000"
    using tv_nsec_time_add_ms [of "clk k" "uint ms"] assms(1) by simp_all
  have before: "time_cmp (clk j) ?d < 0 \<longleftrightarrow> to_ns (clk j) < to_ns (clk k) + uint ms * 1000000" for j
    using time_cmp_deadline(2) [OF _ d] assms(1) by (simp add: to_ns_time_add_ms)
  have "Suc k \<le> m" "\<not> time_cmp (clk m) ?d < 0" using assms before by simp_all
  then obtain n where "Suc k \<le> n" "n \<le> m" "busy_wait_loop clk ?d (Suc k) = Some n"
    "\<not> time_cmp (clk n) ?d < 0" "\<forall>j. Suc k \<le> j \<and> j < n \<longrightarrow> time_cmp (clk j) ?d < 0"
    by (rule busy_wait_loop_returns)
  with before show ?thesis by (auto simp: busy_wait_def Suc_le_eq)
qed

theorem busy_wait_returns_at_deadline_witness:
  "\<exists>n. busy_wait (\<lambda>k. \<lparr>tv_sec = int k, tv_nsec = 0\<rparr>) 0 2500 = Some n \<and> 2500000000 \<le> int n * 1000000000"
proof -
  let ?clk = "\<lambda>k. \<lparr>tv_sec = int k, tv_nsec = 0\<rparr>"
  have "\<forall>k. normalised (?clk k)" and "to_ns (?clk 0) + uint (2500 :: uint32) * 1000000 \<le> to_ns (?clk 3)"
    by (simp_all add: normalised_def to_ns_def)
  from busy_wait_returns_at_deadline [where m = 3, OF this(1) _ this(2)] show ?thesis
    by (auto simp: to_ns_def)
qed

end
