(* ===== verification/RSF_Voter.thy ===== *)
theory RSF_Voter
  imports RSF_Prelude "HOL-Library.Multiset"
begin

text \<open>
  The majority voter \<^verbatim>\<open>RSF_Broker::vote\<close> of \<^verbatim>\<open>src/broker/broker_class.cpp\<close>. Its loops
  count with \<open>uint8_t\<close> variables against a \<open>size_t\<close> bound, so they never end on 256 or
  more values; they are options here and \<open>vote_returns_iff\<close> says when they return. The
  abstract specification is \<open>majority\<close>, and \<open>nmr_session\<close> is what a whole vote on replies
  that arrive one by one should do.
\<close>

section \<open>Definitions\<close>

partial_function (option) count_inner :: "int32 list \<Rightarrow> int32 \<Rightarrow> uint8 \<Rightarrow> uint8 \<Rightarrow> uint8 option" where
  "count_inner values v j c =
     (if unat j < length values
      then count_inner values v (j + 1) (if v = values ! unat j then c + 1 else c)
      else Some c)"

partial_function (option) count_outer :: "int32 list \<Rightarrow> uint8 \<Rightarrow> uint8 list \<Rightarrow> uint8 list option" where
  "count_outer values i cnt =
     (if unat i < length values
      then Option.bind (count_inner values (values ! unat i) 0 0)
             (\<lambda>c. count_outer values (i + 1) (cnt @ [c]))
      else Some cnt)"

partial_function (option) max_loop :: "uint8 list \<Rightarrow> uint8 \<Rightarrow> uint8 \<Rightarrow> uint8 option" where
  "max_loop cnt i mx =
     (if unat i < length cnt
      then max_loop cnt (i + 1) (if cnt ! unat i > cnt ! unat mx then i else mx)
      else Some mx)"

text \<open>
  \<open>vote nmr values result\<close> is the returned \<open>int8_t\<close> and the value the reference parameter
  \<open>result\<close> holds afterwards; the index of type \<open>uint8_t\<close> is converted to \<open>int8_t\<close> on return.
\<close>

definition vote :: "uint8 \<Rightarrow> int32 list \<Rightarrow> int32 \<Rightarrow> (int \<times> int32) option" where
  "vote nmr values result =
     Option.bind (count_outer values 0 []) (\<lambda>cnt.
     Option.bind (max_loop cnt 0 0) (\<lambda>mx.
       if length cnt = 0 then Some (- 1, result)
       else if unat (cnt ! unat mx) > unat nmr div 2
            then Some (sint mx, values ! unat mx)
            else Some (- 1, result)))"

section \<open>Specification\<close>

definition majority :: "nat \<Rightarrow> int32 list \<Rightarrow> int32 \<Rightarrow> bool" where
  "majority n xs v \<longleftrightarrow> n div 2 < count_list xs v"

definition the_majority :: "nat \<Rightarrow> int32 list \<Rightarrow> int32 option" where
  "the_majority n xs = find (majority n xs) xs"

datatype verdict = Pending "int32 list" | Answered int32 | Unreliable

fun nmr_session :: "nat \<Rightarrow> int32 list \<Rightarrow> int32 list \<Rightarrow> verdict" where
  "nmr_session n acc [] = Pending acc"
| "nmr_session n acc (v # vs) =
     (case the_majority n (acc @ [v]) of
        Some w \<Rightarrow> Answered w
      | None \<Rightarrow> if length (acc @ [v]) = n then Unreliable else nmr_session n (acc @ [v]) vs)"

lemma count_list_append: "count_list (xs @ ys) v = count_list xs v + count_list ys v"
  by (induction xs) simp_all

lemma count_list_two: "v \<noteq> w \<Longrightarrow> count_list xs v + count_list xs w \<le> length xs"
  by (induction xs) auto

lemma majority_mem: "majority n xs v \<Longrightarrow> v \<in> set xs"
  by (metis count_list_0_iff majority_def not_less_zero)

lemma majority_unique: "length xs \<le> n \<Longrightarrow> majority n xs v \<Longrightarrow> majority n xs w \<Longrightarrow> v = w"
  using count_list_two [of v w xs] by (force simp: majority_def)

lemma majority_append: "majority n xs v \<Longrightarrow> majority n (xs @ ys) v"
  by (simp add: majority_def count_list_append)

lemma majority_length: "majority n xs v \<Longrightarrow> n div 2 < length xs"
  using count_le_length [of xs v] by (simp add: majority_def)

lemma the_majority_None_iff: "the_majority n xs = None \<longleftrightarrow> (\<forall>v. \<not> majority n xs v)"
  by (auto simp: the_majority_def find_None_iff dest: majority_mem)

lemma the_majority_Some_iff:
  assumes "length xs \<le> n"
  shows "the_majority n xs = Some v \<longleftrightarrow> majority n xs v"
proof
  assume "the_majority n xs = Some v"
  then show "majority n xs v" by (auto simp: the_majority_def find_Some_iff)
next
  assume v: "majority n xs v"
  then obtain w where "the_majority n xs = Some w"
    by (cases "the_majority n xs") (auto simp: the_majority_None_iff)
  moreover from this have "majority n xs w" by (auto simp: the_majority_def find_Some_iff)
  ultimately show "the_majority n xs = Some v" using majority_unique [OF assms v] by simp
qed

lemma the_majority_short: "length xs \<le> n div 2 \<Longrightarrow> the_majority n xs = None"
  by (metis majority_length not_less the_majority_None_iff)

section \<open>The loops\<close>

lemma unat_Suc_less: "unat (j :: uint8) < k \<Longrightarrow> k \<le> 255 \<Longrightarrow> unat (j + 1) = Suc (unat j)"
  by (simp add: unat_word_ariths)

lemma count_inner_eq:
  assumes "length values \<le> 255" "unat j \<le> length values"
  shows "count_inner values v j c = Some (c + of_nat (count_list (drop (unat j) values) v))"
  using assms
proof (induction "length values - unat j" arbitrary: j c)
  case 0
  then show ?case by (subst count_inner.simps) simp
next
  case (Suc d)
  then have less: "unat j < length values" by simp
  with Suc.prems have j: "unat (j + 1) = Suc (unat j)" by (blast intro: unat_Suc_less)
  have "count_inner values v (j + 1) c' =
      Some (c' + of_nat (count_list (drop (Suc (unat j)) values) v))" for c'
    using Suc.hyps(1) [of "j + 1" c'] Suc.hyps(2) Suc.prems(1) less j by simp
  with less show ?case
    by (subst count_inner.simps) (simp add: Cons_nth_drop_Suc [symmetric] algebra_simps)
qed

lemma count_outer_eq:
  assumes "length values \<le> 255" "unat i \<le> length values"
  shows "count_outer values i cnt =
     Some (cnt @ map (\<lambda>v. of_nat (count_list values v)) (drop (unat i) values))"
  using assms
proof (induction "length values - unat i" arbitrary: i cnt)
  case 0
  then show ?case by (subst count_outer.simps) simp
next
  case (Suc d)
  then have less: "unat i < length values" by simp
  with Suc.prems have i: "unat (i + 1) = Suc (unat i)" by (blast intro: unat_Suc_less)
  have "count_outer values (i + 1) cnt' =
      Some (cnt' @ map (\<lambda>v. of_nat (count_list values v)) (drop (Suc (unat i)) values))" for cnt'
    using Suc.hyps(1) [of "i + 1" cnt'] Suc.hyps(2) Suc.prems(1) less i by simp
  with less Suc.prems show ?case
    by (subst count_outer.simps) (simp add: count_inner_eq Cons_nth_drop_Suc [symmetric])
qed

lemma max_loop_eq:
  assumes "length cnt \<le> 255" "unat i \<le> length cnt" "unat m < length cnt"
    and "\<forall>k < unat i. cnt ! k \<le> cnt ! unat m" "\<forall>k < unat m. cnt ! k < cnt ! unat m"
  shows "\<exists>m'. max_loop cnt i m = Some m' \<and> unat m' < length cnt \<and>
     (\<forall>k < length cnt. cnt ! k \<le> cnt ! unat m') \<and>
     (\<forall>k < unat m'. cnt ! k < cnt ! unat m')"
  using assms
proof (induction "length cnt - unat i" arbitrary: i m)
  case 0
  then show ?case by (subst max_loop.simps) auto
next
  case (Suc d)
  then have less: "unat i < length cnt" by simp
  with Suc.prems have i: "unat (i + 1) = Suc (unat i)" by (blast intro: unat_Suc_less)
  let ?m = "if cnt ! unat i > cnt ! unat m then i else m"
  have "\<forall>k < unat (i + 1). cnt ! k \<le> cnt ! unat ?m" "\<forall>k < unat ?m. cnt ! k < cnt ! unat ?m"
    using Suc.prems i by (auto simp: less_Suc_eq intro: less_imp_le le_less_trans order_trans)
  moreover have "unat ?m < length cnt" using less Suc.prems by simp
  moreover have "d = length cnt - unat (i + 1)" "unat (i + 1) \<le> length cnt"
    using Suc.hyps(2) less i by simp_all
  ultimately have "\<exists>m'. max_loop cnt (i + 1) ?m = Some m' \<and> unat m' < length cnt \<and>
     (\<forall>k < length cnt. cnt ! k \<le> cnt ! unat m') \<and>
     (\<forall>k < unat m'. cnt ! k < cnt ! unat m')"
    using Suc.hyps(1) Suc.prems(1) by blast
  with less show ?case by (subst max_loop.simps) simp
qed

lemma count_outer_returns: "count_outer values i cnt = Some r \<Longrightarrow> length values \<le> 255"
proof (erule count_outer.raw_induct [rotated])
  fix f :: "int32 list \<Rightarrow> uint8 \<Rightarrow> uint8 list \<Rightarrow> uint8 list option" and xs :: "int32 list" and i cnt r
  assume IH: "\<And>xs i cnt r. f xs i cnt = Some r \<Longrightarrow> length xs \<le> 255"
    and eq: "(if unat i < length xs
       then Option.bind (count_inner xs (xs ! unat i) 0 0) (\<lambda>c. f xs (i + 1) (cnt @ [c]))
       else Some cnt) = Some r"
  note uint8_le [of i]
  with eq IH show "length xs \<le> 255" by (auto simp: bind_eq_Some_conv split: if_splits)
qed

section \<open>The voter meets its specification\<close>

text \<open>
  The vote by its loops: with at most 255 values there is an index \<open>m\<close> of a most frequent
  value, the first of its kind, and the outcome is decided by the number of its occurrences.
\<close>

lemma unat_of_count: "length xs \<le> 255 \<Longrightarrow> unat (of_nat (count_list xs v) :: uint8) = count_list xs v"
  using count_le_length [of xs v] by (simp add: unat_of_nat)

lemma vote_Nil: "vote nmr [] result = Some (- 1, result)"
  by (simp add: vote_def count_outer.simps max_loop.simps)

lemma vote_by_max:
  assumes "length xs \<le> 255" "xs \<noteq> []"
  shows "\<exists>m. m < length xs \<and> (\<forall>k < length xs. count_list xs (xs ! k) \<le> count_list xs (xs ! m)) \<and>
     (\<forall>k < m. count_list xs (xs ! k) < count_list xs (xs ! m)) \<and>
     vote nmr xs result =
       Some (if unat nmr div 2 < count_list xs (xs ! m) then (sint (of_nat m :: uint8), xs ! m)
             else (- 1, result))"
proof -
  let ?cnt = "map (\<lambda>v. of_nat (count_list xs v) :: uint8) xs"
  have outer: "count_outer xs 0 [] = Some ?cnt" using count_outer_eq [of xs 0 "[]"] assms(1) by simp
  have "\<exists>m. max_loop ?cnt 0 0 = Some m \<and> unat m < length ?cnt \<and>
     (\<forall>k < length ?cnt. ?cnt ! k \<le> ?cnt ! unat m) \<and> (\<forall>k < unat m. ?cnt ! k < ?cnt ! unat m)"
    by (rule max_loop_eq) (use assms in auto)
  then obtain m where m: "max_loop ?cnt 0 0 = Some m" "unat m < length xs"
    "\<forall>k < length xs. ?cnt ! k \<le> ?cnt ! unat m" "\<forall>k < unat m. ?cnt ! k < ?cnt ! unat m"
    by auto
  have c: "unat (?cnt ! k) = count_list xs (xs ! k)" if "k < length xs" for k
    using that assms(1) by (simp add: unat_of_count)
  have "count_list xs (xs ! k) \<le> count_list xs (xs ! unat m)" if "k < length xs" for k
    using m(3) that unfolding word_le_nat_alt by (metis c m(2))
  moreover have "count_list xs (xs ! k) < count_list xs (xs ! unat m)" if "k < unat m" for k
  proof -
    from that m(2) have k: "k < length xs" by simp
    from m(4) that have "?cnt ! k < ?cnt ! unat m" by blast
    then show ?thesis unfolding word_less_nat_alt c [OF k] c [OF m(2)] .
  qed
  moreover have "vote nmr xs result =
     Some (if unat nmr div 2 < count_list xs (xs ! unat m) then (sint m, xs ! unat m) else (- 1, result))"
    unfolding vote_def outer bind.simps m(1) c [OF m(2)] using assms(2) by simp
  ultimately show ?thesis using m(2) by (intro exI [of _ "unat m"]) simp
qed

lemma first_of_majority:
  assumes "length xs \<le> n" "n \<le> 255" "majority n xs (xs ! m)" "m < length xs"
    and "\<forall>k < m. count_list xs (xs ! k) < count_list xs (xs ! m)"
  shows "m \<le> 127" "\<forall>k < m. xs ! k \<noteq> xs ! m"
proof -
  show first: "\<forall>k < m. xs ! k \<noteq> xs ! m" using assms(5) by force
  then have "xs ! m \<notin> set (take m xs)" using assms(4) by (auto simp: in_set_conv_nth)
  then have "count_list (take m xs) (xs ! m) = 0" by (simp add: count_list_0_iff)
  then have "count_list xs (xs ! m) = count_list (drop m xs) (xs ! m)"
    by (metis add_0 append_take_drop_id count_list_append)
  also have "\<dots> \<le> length xs - m" using count_le_length [of "drop m xs"] by simp
  finally show "m \<le> 127" using assms(1-3) by (simp add: majority_def)
qed

lemma vote_majority:
  assumes "length xs \<le> unat nmr" "majority (unat nmr) xs v"
  shows "\<exists>i < length xs. vote nmr xs result = Some (int i, v) \<and> xs ! i = v \<and> (\<forall>k < i. xs ! k \<noteq> v)"
proof -
  note nmr = uint8_le [of nmr]
  have "xs \<noteq> []" using assms(2) by (auto simp: majority_def)
  with assms(1) nmr obtain m where m: "m < length xs"
    "\<forall>k < length xs. count_list xs (xs ! k) \<le> count_list xs (xs ! m)"
    "\<forall>k < m. count_list xs (xs ! k) < count_list xs (xs ! m)"
    "vote nmr xs result =
       Some (if unat nmr div 2 < count_list xs (xs ! m) then (sint (of_nat m :: uint8), xs ! m)
             else (- 1, result))"
    using vote_by_max [of xs nmr result] by auto
  from majority_mem [OF assms(2)] m(2) have "count_list xs v \<le> count_list xs (xs ! m)"
    by (metis in_set_conv_nth)
  with assms(2) have maj: "majority (unat nmr) xs (xs ! m)" by (simp add: majority_def)
  with assms have v: "xs ! m = v" by (blast intro: majority_unique)
  from first_of_majority [OF assms(1) nmr maj m(1,3)]
  have "m \<le> 127" "\<forall>k < m. xs ! k \<noteq> v" by (simp_all add: v)
  moreover from this(1) have "sint (of_nat m :: uint8) = int m"
    using sint_sbintrunc' [where 'a = 8, of "int m"] by (simp add: signed_take_bit_int_eq_self)
  ultimately show ?thesis using m maj v by (auto simp: majority_def)
qed

lemma vote_no_majority:
  assumes "length xs \<le> 255" "\<forall>v. \<not> majority (unat nmr) xs v"
  shows "vote nmr xs result = Some (- 1, result)"
  using vote_by_max [OF assms(1), of nmr result] assms(2)
  by (cases "xs = []") (auto simp: vote_Nil majority_def)

text \<open>
  The contract the broker relies on: among at most \<open>n\<close> results the voter accepts the value
  that more than half of the \<open>n\<close> copies returned, and otherwise rejects and leaves the output
  variable alone.
\<close>

locale majority_voter =
  fixes voter :: "int32 list \<Rightarrow> int32 \<Rightarrow> (int \<times> int32) option" and n :: nat
  assumes accept: "length xs \<le> n \<Longrightarrow> majority n xs v \<Longrightarrow> \<exists>i. voter xs r = Some (int i, v)"
    and reject: "length xs \<le> n \<Longrightarrow> \<forall>v. \<not> majority n xs v \<Longrightarrow> voter xs r = Some (- 1, r)"
begin

lemma voter_cases:
  assumes "length xs \<le> n"
  obtains (elected) i v where "the_majority n xs = Some v" "majority n xs v" "voter xs r = Some (int i, v)"
  | (hung) "the_majority n xs = None" "\<forall>v. \<not> majority n xs v" "voter xs r = Some (- 1, r)"
proof (cases "the_majority n xs")
  case None
  then show ?thesis using hung reject [OF assms] by (simp add: the_majority_None_iff)
next
  case (Some v)
  with assms have "majority n xs v" by (simp add: the_majority_Some_iff)
  with Some show ?thesis using elected accept [OF assms] by blast
qed

lemma voter_nonneg_iff:
  "length xs \<le> n \<Longrightarrow> (\<exists>i v. voter xs r = Some (i, v) \<and> 0 \<le> i) \<longleftrightarrow> (\<exists>v. majority n xs v)"
  by (rule voter_cases [of xs r]) auto

lemma fault_masking:
  assumes "length xs \<le> n" "majority n xs v" "voter xs r = Some (i, w)"
  shows "0 \<le> i \<and> w = v"
  using accept [OF assms(1,2), of r] assms(3) by auto

lemma order_irrelevant:
  assumes "length xs \<le> n" "mset xs = mset ys" "voter xs r = Some (i, w)"
  shows "\<exists>j. voter ys r = Some (j, w) \<and> (0 \<le> j \<longleftrightarrow> 0 \<le> i)"
proof -
  have "majority n ys = majority n xs" for n
    using assms(2) by (simp add: majority_def fun_eq_iff flip: count_mset)
  moreover have "length ys \<le> n" using assms by (metis size_mset)
  ultimately show ?thesis using assms
    by (metis accept reject of_nat_0_le_iff option.inject prod.inject)
qed

end

interpretation nmr_voter: majority_voter "vote nmr" "unat nmr" for nmr
proof
  fix xs v r
  assume "length xs \<le> unat nmr" "majority (unat nmr) xs v"
  then show "\<exists>i. vote nmr xs r = Some (int i, v)" by (meson vote_majority)
next
  fix xs r
  assume "length xs \<le> unat nmr" "\<forall>v. \<not> majority (unat nmr) xs v"
  then show "vote nmr xs r = Some (- 1, r)" using uint8_le [of nmr] by (intro vote_no_majority) auto
qed

section \<open>A vote on replies that arrive one by one\<close>

lemma nmr_session_Answered:
  "nmr_session n acc vs = Answered w \<Longrightarrow> length acc + length vs \<le> n \<Longrightarrow> majority n (acc @ vs) w"
proof (induction n acc vs rule: nmr_session.induct)
  case (2 n acc v vs)
  show ?case
  proof (cases "the_majority n (acc @ [v])")
    case None
    with 2 show ?thesis by (auto split: if_splits)
  next
    case (Some u)
    with 2 have "majority n (acc @ [v]) w" by (auto simp: the_majority_Some_iff)
    then show ?thesis using majority_append [of n "acc @ [v]" w vs] by simp
  qed
qed simp

lemma nmr_session_complete:
  assumes "length acc + length vs = n" "\<forall>v. \<not> majority n acc v" "vs \<noteq> []"
  shows "nmr_session n acc vs = (case the_majority n (acc @ vs) of Some w \<Rightarrow> Answered w | None \<Rightarrow> Unreliable)"
  using assms
proof (induction n acc vs rule: nmr_session.induct)
  case (2 n acc v vs)
  show ?case
  proof (cases "the_majority n (acc @ [v])")
    case None
    then have "\<forall>u. \<not> majority n (acc @ [v]) u" by (simp add: the_majority_None_iff)
    then show ?thesis
      using 2 None by (cases "vs = []") auto
  next
    case (Some w)
    with "2.prems" have "majority n (acc @ [v]) w" by (simp add: the_majority_Some_iff)
    then have "majority n (acc @ v # vs) w" using majority_append [of n "acc @ [v]" w vs] by simp
    with "2.prems" have "the_majority n (acc @ v # vs) = Some w" by (simp add: the_majority_Some_iff)
    with Some show ?thesis by simp
  qed
qed simp

lemma count_list_filter: "length (filter (\<lambda>x. x \<noteq> v) xs) + count_list xs v = length xs"
  by (induction xs) simp_all

section \<open>Properties\<close>

text \<open>
  C11: The voter is correct: given at most \<open>nmr\<close> values, it returns the index of the first
  occurrence of the value that more than \<open>nmr / 2\<close> of them have, with that value in
  \<open>result\<close>; when there is no such value it returns \<open>-1\<close> and does not touch \<open>result\<close>.
\<close>

theorem vote_correct:
  assumes "length values \<le> unat nmr"
  shows "case the_majority (unat nmr) values of
      Some v \<Rightarrow> majority (unat nmr) values v \<and>
        (\<exists>i < length values. vote nmr values result = Some (int i, v) \<and>
           values ! i = v \<and> (\<forall>k < i. values ! k \<noteq> v))
    | None \<Rightarrow> (\<forall>v. \<not> majority (unat nmr) values v) \<and> vote nmr values result = Some (- 1, result)"
proof (cases "the_majority (unat nmr) values")
  case None
  then have "\<forall>v. \<not> majority (unat nmr) values v" by (simp add: the_majority_None_iff)
  with None show ?thesis using nmr_voter.reject [OF assms] by simp
next
  case (Some v)
  with assms have "majority (unat nmr) values v" by (simp add: the_majority_Some_iff)
  with Some show ?thesis using vote_majority [OF assms] by simp
qed

theorem vote_correct_witness:
  "the_majority (unat (3 :: uint8)) [4, 7, 4] = Some 4 \<and>
   (\<exists>i < length [4, 7, 4 :: int32]. vote 3 [4, 7, 4] 0 = Some (int i, 4) \<and> [4, 7, 4 :: int32] ! i = 4 \<and>
      (\<forall>k < i. [4, 7, 4 :: int32] ! k \<noteq> 4))"
proof -
  have m: "the_majority (unat (3 :: uint8)) [4, 7, 4] = Some 4"
    by (simp add: the_majority_def majority_def)
  have "length [4, 7, 4 :: int32] \<le> unat (3 :: uint8)" by simp
  from vote_correct [OF this, of 0] m show ?thesis by simp
qed

text \<open>
  Faults of a minority are masked: when all \<open>nmr\<close> copies have answered and fewer than
  half of the answers differ from the correct value, the voter returns that value.
\<close>

theorem vote_masks_minority:
  assumes "length values = unat nmr" "2 * length (filter (\<lambda>x. x \<noteq> correct) values) < unat nmr"
  shows "\<exists>i. vote nmr values result = Some (int i, correct)"
proof -
  have "majority (unat nmr) values correct"
    using assms count_list_filter [of correct "values"] by (simp add: majority_def)
  then show ?thesis using assms(1) by (simp add: nmr_voter.accept)
qed

theorem vote_masks_minority_witness:
  "\<exists>i. vote 5 [9, 1, 9, 2, 9] 0 = Some (int i, 9)"
proof -
  have "length [9, 1, 9, 2, 9 :: int32] = unat (5 :: uint8)"
    "2 * length (filter (\<lambda>x. x \<noteq> 9) [9, 1, 9, 2, 9 :: int32]) < unat (5 :: uint8)"
    by simp_all
  then show ?thesis by (rule vote_masks_minority)
qed

text \<open>
  C38: The voter returns exactly when it is given at most 255 values: its loop variables are
  bytes, so from 256 values on its counting loop never ends.
\<close>

theorem vote_returns_iff: "(\<exists>r. vote nmr values result = Some r) \<longleftrightarrow> length values \<le> 255"
proof
  assume "\<exists>r. vote nmr values result = Some r"
  then show "length values \<le> 255" by (auto simp: vote_def bind_eq_Some_conv dest: count_outer_returns)
next
  assume "length values \<le> 255"
  then show "\<exists>r. vote nmr values result = Some r"
    using vote_by_max [of "values" nmr result] by (cases "values = []") (auto simp: vote_Nil)
qed

end
