(* ===== verification/RSF_Database.thy ===== *)
theory RSF_Database
  imports RSF_Comm RSF_Time RSF_Voter
begin

text \<open>
  The service database of the broker (\<^verbatim>\<open>include/service_database_class.hpp\<close>,
  \<^verbatim>\<open>src/broker/service_database_class.cpp\<close>): one record per registered service with its
  registration counters, heartbeat bookkeeping and pending client requests. The hash table is
  a finite map; its iteration order matters only to the log output of \<open>print_htable\<close>, which
  is not modelled. \<open>clock_gettime\<close> is the argument \<open>now\<close> of the operation that calls it.
  \<open>lost_pong\<close> holds \<open>int8_t\<close> values, kept as integers because \<open>db_inv\<close> bounds them by
  \<open>LIVENESS\<close>.
\<close>

section \<open>Data\<close>

record request_record_t =
  client_id :: uint32
  results :: "int32 list"
  rr_service :: service_type_t
  rr_timeout :: timespec

record service_record =
  owner :: string
  num_copies_registered :: uint8
  num_copies_reliable :: uint8
  dealer_socket :: uint16
  dealer_skt_index :: uint16
  seq_id_ping :: uint32
  seq_id_request :: uint32
  request_records :: "request_record_t list"
  new_pong :: "bool list"
  lost_pong :: "int list"

record service_database =
  db_nmr :: uint8
  services_db :: "service_type_t \<rightharpoonup> service_record"
  next_dealer_skt_index :: uint16

abbreviation (input) SERVICE_NOT_FOUND :: int where "SERVICE_NOT_FOUND \<equiv> - 1"
abbreviation (input) REG_FAIL :: uint16 where "REG_FAIL \<equiv> 0"

abbreviation put_record :: "service_database \<Rightarrow> service_type_t \<Rightarrow> service_record \<Rightarrow> service_database" where
  "put_record db s r \<equiv> db\<lparr>services_db := (services_db db)(s \<mapsto> r)\<rparr>"

section \<open>Operations\<close>

definition init_db :: "uint8 \<Rightarrow> service_database" where
  "init_db nmr = \<lparr>db_nmr = nmr, services_db = Map.empty, next_dealer_skt_index = 0\<rparr>"

definition find_registration :: "service_database \<Rightarrow> service_type_t \<Rightarrow> int" where
  "find_registration db service =
     (case services_db db service of
        None \<Rightarrow> SERVICE_NOT_FOUND
      | Some r \<Rightarrow> uint (dealer_skt_index r))"

text \<open>
  The result is the new database, the new value of the reference parameters \<open>dealer_socket\<close>
  and \<open>ready\<close>, and the returned port.
\<close>

definition push_registration ::
    "service_database \<Rightarrow> registration_module \<Rightarrow> uint16 \<Rightarrow> (service_database \<times> uint16 \<times> bool \<times> uint16) res" where
  "push_registration db reg_mod port =
     (case services_db db (rg_service reg_mod) of
        None \<Rightarrow>
          rbind (cstring (rg_signature reg_mod)) (\<lambda>own.
            let r = \<lparr>owner = own, num_copies_registered = 1, num_copies_reliable = 1,
                     dealer_socket = port, dealer_skt_index = next_dealer_skt_index db,
                     seq_id_ping = - 1, seq_id_request = 0, request_records = [],
                     new_pong = replicate (unat (db_nmr db)) False,
                     lost_pong = replicate (unat (db_nmr db)) (- 1)\<rparr>
            in Inr ((put_record db (rg_service reg_mod) r)
                      \<lparr>next_dealer_skt_index := next_dealer_skt_index db + 1\<rparr>,
                    port + 1, False, port))
      | Some r \<Rightarrow>
          if num_copies_registered r < db_nmr db
          then let r' = r\<lparr>num_copies_registered := num_copies_registered r + 1,
                          num_copies_reliable := num_copies_reliable r + 1\<rparr>
               in Inr (put_record db (rg_service reg_mod) r', port,
                       num_copies_registered r' = db_nmr db, dealer_socket r')
          else Inr (db, port, False, REG_FAIL))"

definition push_request ::
    "service_database \<Rightarrow> request_record_t \<Rightarrow> service_type_t \<Rightarrow> timespec \<Rightarrow> service_database res" where
  "push_request db rr service now =
     (case services_db db service of
        None \<Rightarrow> Inl Exit_Failure
      | Some r \<Rightarrow>
          Inr (put_record db service
            (r\<lparr>request_records := request_records r @ [rr\<lparr>rr_timeout := time_add_ms now REQUEST_TIMEOUT\<rparr>]\<rparr>)))"

text \<open>
  The loop of \<open>delete_request\<close> advances its index also after it has erased an element, so
  it does not look at the element that moved into the erased place.
\<close>

function erase_loop :: "uint32 \<Rightarrow> nat \<Rightarrow> request_record_t list \<Rightarrow> request_record_t list" where
  "erase_loop cid j rs =
     (if j < length rs
      then if client_id (rs ! j) = cid
           then erase_loop cid (Suc j) (take j rs @ drop (Suc j) rs)
           else erase_loop cid (Suc j) rs
      else rs)"
  by pat_completeness auto
termination
  by (relation "measure (\<lambda>(cid, j, rs). length rs - j)") auto

declare erase_loop.simps [simp del]

definition delete_request :: "service_database \<Rightarrow> service_type_t \<Rightarrow> uint32 \<Rightarrow> service_database res" where
  "delete_request db service cid =
     (case services_db db service of
        None \<Rightarrow> Inl Exit_Failure
      | Some r \<Rightarrow> Inr (put_record db service (r\<lparr>request_records := erase_loop cid 0 (request_records r)\<rparr>)))"

fun push_loop :: "uint32 \<Rightarrow> int32 \<Rightarrow> request_record_t list \<Rightarrow> int \<Rightarrow> request_record_t list \<times> int" where
  "push_loop cid v [] ret = ([], ret)"
| "push_loop cid v (q # qs) ret =
     (if client_id q = cid
      then let q' = q\<lparr>results := results q @ [v]\<rparr>;
               (qs', ret') = push_loop cid v qs (int (length (results q')))
           in (q' # qs', ret')
      else let (qs', ret') = push_loop cid v qs ret in (q # qs', ret'))"

definition push_result ::
    "service_database \<Rightarrow> server_reply_t \<Rightarrow> uint32 \<Rightarrow> (service_database \<times> int) res" where
  "push_result db reply cid =
     (case services_db db (sr_service reply) of
        None \<Rightarrow> Inl Exit_Failure
      | Some r \<Rightarrow>
          let (qs, ret) = push_loop cid (sr_result reply) (request_records r) (- 1)
          in Inr (put_record db (sr_service reply) (r\<lparr>request_records := qs\<rparr>), ret))"

fun get_loop :: "uint32 \<Rightarrow> request_record_t list \<Rightarrow> int32 list \<Rightarrow> int32 list" where
  "get_loop cid [] ret = ret"
| "get_loop cid (q # qs) ret = get_loop cid qs (if client_id q = cid then results q else ret)"

definition get_result :: "service_database \<Rightarrow> service_type_t \<Rightarrow> uint32 \<Rightarrow> int32 list res" where
  "get_result db service cid =
     (case services_db db service of
        None \<Rightarrow> Inl Exit_Failure
      | Some r \<Rightarrow> Inr (get_loop cid (request_records r) []))"

definition register_pong :: "service_database \<Rightarrow> uint8 \<Rightarrow> service_type_t \<Rightarrow> service_database res" where
  "register_pong db id_copy service =
     (case services_db db service of
        None \<Rightarrow> Inl Exit_Failure
      | Some r \<Rightarrow>
          rbind (vec_set (new_pong r) (unat id_copy) True) (\<lambda>np.
            Inr (put_record db service (r\<lparr>new_pong := np\<rparr>))))"

text \<open>
  One pass over the copies \<open>j, j + 1, \<dots>\<close>, \<open>n\<close> of them, with the number of copies found
  unreliable so far. \<open>check_pong\<close> dereferences the result of \<open>find\<close> without a test.
\<close>

fun check_pong_loop :: "nat \<Rightarrow> nat \<Rightarrow> service_record \<Rightarrow> uint8 \<Rightarrow> (service_record \<times> uint8) res" where
  "check_pong_loop 0 j r unreliable = Inr (r, unreliable)"
| "check_pong_loop (Suc n) j r unreliable =
     rbind (vec_get (new_pong r) j) (\<lambda>np.
     rbind (vec_get (lost_pong r) j) (\<lambda>lp.
       if \<not> np \<and> lp < LIVENESS
       then check_pong_loop n (Suc j) (r\<lparr>lost_pong := (lost_pong r)[j := lp + 1]\<rparr>)
              (if lp + 1 = LIVENESS then unreliable + 1 else unreliable)
       else if np
       then check_pong_loop n (Suc j)
              (r\<lparr>new_pong := (new_pong r)[j := False], lost_pong := (lost_pong r)[j := 0]\<rparr>) unreliable
       else check_pong_loop n (Suc j) r unreliable))"

definition check_pong :: "service_database \<Rightarrow> service_type_t \<Rightarrow> service_database res" where
  "check_pong db service =
     (case services_db db service of
        None \<Rightarrow> Inl Undefined_Behaviour
      | Some r \<Rightarrow>
          rbind (check_pong_loop (unat (db_nmr db)) 0 r 0) (\<lambda>(r', unreliable).
            Inr (put_record db service
              (r'\<lparr>num_copies_reliable := num_copies_reliable r' - unreliable,
                  num_copies_registered := num_copies_registered r' - unreliable,
                  seq_id_ping := seq_id_ping r' + 1\<rparr>))))"

definition get_reliable_copies :: "service_database \<Rightarrow> service_type_t \<Rightarrow> uint8 res" where
  "get_reliable_copies db service =
     (case services_db db service of
        None \<Rightarrow> Inl Exit_Failure
      | Some r \<Rightarrow> Inr (num_copies_reliable r))"

definition get_ping_id :: "service_database \<Rightarrow> service_type_t \<Rightarrow> uint32 res" where
  "get_ping_id db service =
     (case services_db db service of
        None \<Rightarrow> Inl Exit_Failure
      | Some r \<Rightarrow> Inr (seq_id_ping r))"

definition get_request_id :: "service_database \<Rightarrow> service_type_t \<Rightarrow> (service_database \<times> uint32) res" where
  "get_request_id db service =
     (case services_db db service of
        None \<Rightarrow> Inl Exit_Failure
      | Some r \<Rightarrow>
          Inr (put_record db service (r\<lparr>seq_id_request := seq_id_request r + 1\<rparr>), seq_id_request r))"

definition get_pending_requests :: "service_database \<Rightarrow> service_type_t \<Rightarrow> request_record_t list res" where
  "get_pending_requests db service =
     (case services_db db service of
        None \<Rightarrow> Inl Exit_Failure
      | Some r \<Rightarrow> Inr (request_records r))"

section \<open>Operations on one record\<close>

text \<open>
  Most operations look a service up, stop if it is missing, and otherwise replace its record.
  What such an operation leaves alone and which record invariants it keeps is proved once.
\<close>

locale record_operation =
  fixes oper :: "service_database \<Rightarrow> service_type_t \<Rightarrow> service_database res"
    and upd :: "uint8 \<Rightarrow> service_record \<Rightarrow> service_record res"
    and missing :: fault
  assumes oper_eq: "oper db s =
    (case services_db db s of None \<Rightarrow> Inl missing
     | Some r \<Rightarrow> rbind (upd (db_nmr db) r) (\<lambda>r'. Inr (put_record db s r')))"
begin

lemma oper_missing: "services_db db s = None \<Longrightarrow> oper db s = Inl missing"
  by (simp add: oper_eq)

lemma oper_found:
  "services_db db s = Some r \<Longrightarrow> upd (db_nmr db) r = Inr r' \<Longrightarrow> oper db s = Inr (put_record db s r')"
  by (simp add: oper_eq)

lemma operE:
  assumes "oper db s = Inr db'"
  obtains r r' where "services_db db s = Some r" "upd (db_nmr db) r = Inr r'" "db' = put_record db s r'"
  using assms by (auto simp: oper_eq rbind_Inr_iff split: option.splits)

lemma oper_frame:
  assumes "oper db s = Inr db'"
  shows "db_nmr db' = db_nmr db" "next_dealer_skt_index db' = next_dealer_skt_index db"
    "dom (services_db db') = dom (services_db db)" "t \<noteq> s \<Longrightarrow> services_db db' t = services_db db t"
  using assms by (auto elim!: operE split: if_splits)

lemma oper_invariant:
  assumes "oper db s = Inr db'" "\<forall>t r. services_db db t = Some r \<longrightarrow> P r"
    and "\<And>r r'. P r \<Longrightarrow> upd (db_nmr db) r = Inr r' \<Longrightarrow> P r'"
  shows "\<forall>t r. services_db db' t = Some r \<longrightarrow> P r"
  using assms(1) by (elim operE) (use assms(2,3) in auto)

end

interpretation push_request_op: record_operation "\<lambda>db s. push_request db rr s now"
  "\<lambda>_ r. Inr (r\<lparr>request_records := request_records r @ [rr\<lparr>rr_timeout := time_add_ms now REQUEST_TIMEOUT\<rparr>]\<rparr>)"
  Exit_Failure for rr now
  by unfold_locales (simp add: push_request_def split: option.split)

interpretation delete_request_op: record_operation "\<lambda>db s. delete_request db s cid"
  "\<lambda>_ r. Inr (r\<lparr>request_records := erase_loop cid 0 (request_records r)\<rparr>)" Exit_Failure for cid
  by unfold_locales (simp add: delete_request_def split: option.split)

interpretation register_pong_op: record_operation "\<lambda>db s. register_pong db id_copy s"
  "\<lambda>_ r. rbind (vec_set (new_pong r) (unat id_copy) True) (\<lambda>np. Inr (r\<lparr>new_pong := np\<rparr>))"
  Exit_Failure for id_copy
  by unfold_locales (auto simp: register_pong_def rbind_assoc split: option.splits)

definition checked_record :: "uint8 \<Rightarrow> service_record \<Rightarrow> service_record res" where
  "checked_record nmr r =
     rbind (check_pong_loop (unat nmr) 0 r 0) (\<lambda>(r', unreliable).
       Inr (r'\<lparr>num_copies_reliable := num_copies_reliable r' - unreliable,
               num_copies_registered := num_copies_registered r' - unreliable,
               seq_id_ping := seq_id_ping r' + 1\<rparr>))"

interpretation check_pong_op: record_operation check_pong checked_record Undefined_Behaviour
proof
  fix db s
  have "rbind (rbind m (\<lambda>(a, b). Inr (h a b))) (\<lambda>r'. Inr (put_record db s r')) =
      rbind m (\<lambda>(a, b). Inr (put_record db s (h a b)))" for m :: "(service_record \<times> uint8) res" and h
    by (cases m) (simp_all split: prod.splits)
  then show "check_pong db s =
    (case services_db db s of None \<Rightarrow> Inl Undefined_Behaviour
     | Some r \<Rightarrow> rbind (checked_record (db_nmr db) r) (\<lambda>r'. Inr (put_record db s r')))"
    by (simp add: check_pong_def checked_record_def split: option.split)
qed

interpretation push_result_op: record_operation "\<lambda>db s. rbind (push_result db (reply\<lparr>sr_service := s\<rparr>) cid) (\<lambda>(db', _). Inr db')"
  "\<lambda>_ r. Inr (r\<lparr>request_records := fst (push_loop cid (sr_result reply) (request_records r) (- 1))\<rparr>)"
  Exit_Failure for reply cid
  by unfold_locales (auto simp: push_result_def split: option.split prod.splits)

interpretation get_request_id_op: record_operation "\<lambda>db s. rbind (get_request_id db s) (\<lambda>(db', _). Inr db')"
  "\<lambda>_ r. Inr (r\<lparr>seq_id_request := seq_id_request r + 1\<rparr>)" Exit_Failure
  by unfold_locales (auto simp: get_request_id_def split: option.split)

section \<open>The table of pending requests\<close>

definition clients :: "request_record_t list \<Rightarrow> uint32 set" where
  "clients qs = client_id ` set qs"

definition lookup_request :: "request_record_t list \<Rightarrow> uint32 \<Rightarrow> int32 list option" where
  "lookup_request qs cid = map_option results (find (\<lambda>q. client_id q = cid) qs)"

fun erase_skip :: "uint32 \<Rightarrow> request_record_t list \<Rightarrow> request_record_t list" where
  "erase_skip cid [] = []"
| "erase_skip cid [q] = (if client_id q = cid then [] else [q])"
| "erase_skip cid (q # p # qs) =
     (if client_id q = cid then p # erase_skip cid qs else q # erase_skip cid (p # qs))"

lemma erase_loop_eq: "erase_loop cid j rs = take j rs @ erase_skip cid (drop j rs)"
proof (induction cid j rs rule: erase_loop.induct)
  case (1 cid j rs)
  show ?case
  proof (cases "j < length rs")
    case True
    then have d: "drop j rs = rs ! j # drop (Suc j) rs" by (rule Cons_nth_drop_Suc [symmetric])
    show ?thesis
    proof (cases "client_id (rs ! j) = cid")
      case match: True
      with True 1 have "erase_loop cid j rs =
          take (Suc j) (take j rs @ drop (Suc j) rs) @ erase_skip cid (drop (Suc j) (take j rs @ drop (Suc j) rs))"
        by (subst erase_loop.simps) simp
      with match d True show ?thesis by (cases "drop (Suc j) rs") (simp_all add: min_def)
    next
      case False
      with True 1 have "erase_loop cid j rs = take (Suc j) rs @ erase_skip cid (drop (Suc j) rs)"
        by (subst erase_loop.simps) simp
      with False d True show ?thesis
        by (cases "drop (Suc j) rs") (simp_all add: take_Suc_conv_app_nth)
    qed
  next
    case False
    then show ?thesis by (subst erase_loop.simps) simp
  qed
qed

lemma erase_skip_absent: "cid \<notin> clients qs \<Longrightarrow> erase_skip cid qs = qs"
  by (induction cid qs rule: erase_skip.induct) (auto simp: clients_def)

lemma erase_skip_distinct:
  "distinct (map client_id qs) \<Longrightarrow> erase_skip cid qs = filter (\<lambda>q. client_id q \<noteq> cid) qs"
proof (induction cid qs rule: erase_skip.induct)
  case (3 cid q p qs)
  then show ?case
    by (cases "client_id q = cid") (auto simp: filter_id_conv clients_def intro!: erase_skip_absent)
qed auto

lemma erase_loop_distinct:
  "distinct (map client_id qs) \<Longrightarrow> erase_loop cid 0 qs = filter (\<lambda>q. client_id q \<noteq> cid) qs"
  by (simp add: erase_loop_eq erase_skip_distinct)

lemma set_erase_loop: "set (erase_loop cid 0 qs) \<subseteq> set qs"
proof -
  have "set (erase_skip cid qs) \<subseteq> set qs"
    by (induction cid qs rule: erase_skip.induct) auto
  then show ?thesis by (simp add: erase_loop_eq)
qed

lemma push_loop_fst:
  "fst (push_loop cid v qs ret) =
     map (\<lambda>q. if client_id q = cid then q\<lparr>results := results q @ [v]\<rparr> else q) qs"
  by (induction qs arbitrary: ret) (simp_all add: Let_def case_prod_beta)

lemma push_loop_absent: "cid \<notin> clients qs \<Longrightarrow> push_loop cid v qs ret = (qs, ret)"
  by (induction qs arbitrary: ret) (auto simp: clients_def)

lemma push_loop_present:
  assumes "distinct (map client_id qs)" "lookup_request qs cid = Some xs"
  shows "snd (push_loop cid v qs ret) = int (Suc (length xs))"
  using assms
proof (induction qs arbitrary: ret)
  case (Cons q qs)
  show ?case
  proof (cases "client_id q = cid")
    case True
    with Cons.prems have "cid \<notin> clients qs" "results q = xs" by (auto simp: clients_def lookup_request_def)
    with True show ?thesis by (simp add: push_loop_absent)
  next
    case False
    with Cons show ?thesis by (simp add: lookup_request_def case_prod_beta)
  qed
qed (simp add: lookup_request_def)

lemma lookup_request_None_iff: "lookup_request qs cid = None \<longleftrightarrow> cid \<notin> clients qs"
  by (auto simp: lookup_request_def find_None_iff clients_def)

lemma get_loop_absent: "cid \<notin> clients qs \<Longrightarrow> get_loop cid qs ret = ret"
  by (induction qs arbitrary: ret) (auto simp: clients_def)

lemma get_loop_present:
  "distinct (map client_id qs) \<Longrightarrow> lookup_request qs cid = Some xs \<Longrightarrow> get_loop cid qs ret = xs"
proof (induction qs arbitrary: ret)
  case (Cons q qs)
  then show ?case
    by (cases "client_id q = cid") (auto simp: lookup_request_def clients_def get_loop_absent image_iff)
qed (simp add: lookup_request_def)

lemma lookup_request_append:
  "lookup_request (qs @ [q]) cid =
     (case lookup_request qs cid of Some xs \<Rightarrow> Some xs
      | None \<Rightarrow> if client_id q = cid then Some (results q) else None)"
  by (induction qs) (auto simp: lookup_request_def)

lemma lookup_request_push:
  "lookup_request (map (\<lambda>q. if client_id q = cid then q\<lparr>results := results q @ [v]\<rparr> else q) qs) c =
     (if c = cid then map_option (\<lambda>xs. xs @ [v]) (lookup_request qs c) else lookup_request qs c)"
  by (induction qs) (auto simp: lookup_request_def)

lemma lookup_request_filter:
  "lookup_request (filter (\<lambda>q. client_id q \<noteq> cid) qs) c = (if c = cid then None else lookup_request qs c)"
  by (induction qs) (auto simp: lookup_request_def)

lemma map_client_id_push:
  "map client_id (map (\<lambda>q. if client_id q = cid then q\<lparr>results := results q @ [v]\<rparr> else q) qs) = map client_id qs"
  by simp

text \<open>
  The interface the voting logic uses: a table from client identifiers to the results received
  so far. \<open>add\<close> also reports how many results the client now has, \<open>- 1\<close> for an unknown client.
\<close>

locale request_table =
  fixes lookup :: "'t \<Rightarrow> uint32 \<Rightarrow> int32 list option"
    and open_request :: "'t \<Rightarrow> uint32 \<Rightarrow> 't"
    and add :: "'t \<Rightarrow> uint32 \<Rightarrow> int32 \<Rightarrow> 't \<times> int"
    and collected :: "'t \<Rightarrow> uint32 \<Rightarrow> int32 list"
    and remove :: "'t \<Rightarrow> uint32 \<Rightarrow> 't"
    and ok :: "'t \<Rightarrow> bool"
  assumes lookup_open: "ok t \<Longrightarrow> lookup t c = None \<Longrightarrow> lookup (open_request t c) = (lookup t)(c \<mapsto> [])"
    and lookup_add: "ok t \<Longrightarrow> lookup t c = Some xs \<Longrightarrow> lookup (fst (add t c v)) = (lookup t)(c \<mapsto> xs @ [v])"
    and count_add: "ok t \<Longrightarrow> lookup t c = Some xs \<Longrightarrow> snd (add t c v) = int (Suc (length xs))"
    and add_unknown: "ok t \<Longrightarrow> lookup t c = None \<Longrightarrow> add t c v = (t, - 1)"
    and collected_known: "ok t \<Longrightarrow> lookup t c = Some xs \<Longrightarrow> collected t c = xs"
    and lookup_remove: "ok t \<Longrightarrow> lookup (remove t c) = (lookup t)(c := None)"
    and ok_open: "ok t \<Longrightarrow> lookup t c = None \<Longrightarrow> ok (open_request t c)"
    and ok_add: "ok t \<Longrightarrow> ok (fst (add t c v))"
    and ok_remove: "ok t \<Longrightarrow> ok (remove t c)"
begin

lemma add_known:
  assumes "ok t" "lookup t c = Some xs"
  obtains t' where "add t c v = (t', int (Suc (length xs)))" "ok t'" "lookup t' = (lookup t)(c \<mapsto> xs @ [v])"
    "collected t' c = xs @ [v]"
proof (rule that [of "fst (add t c v)"])
  show "add t c v = (fst (add t c v), int (Suc (length xs)))"
    using count_add [OF assms] by (metis prod.collapse)
  show "lookup (fst (add t c v)) = (lookup t)(c \<mapsto> xs @ [v])" by (rule lookup_add [OF assms])
  then show "collected (fst (add t c v)) c = xs @ [v]"
    using ok_add [OF assms(1)] by (intro collected_known) simp_all
qed (rule ok_add [OF assms(1)])

lemma add_all:
  assumes "ok t" "lookup t c = Some xs"
  shows "ok (foldl (\<lambda>t v. fst (add t c v)) t vs)"
    "lookup (foldl (\<lambda>t v. fst (add t c v)) t vs) = (lookup t)(c \<mapsto> xs @ vs)"
  using assms by (induction vs arbitrary: t xs) (simp_all add: ok_add lookup_add fun_upd_idem)

lemma late_result:
  assumes "ok t" "lookup t c = Some xs"
  shows "add (remove t c) c v = (remove t c, - 1)"
  using assms by (intro add_unknown) (simp_all add: ok_remove lookup_remove)

end

interpretation pending: request_table lookup_request
  "\<lambda>qs c. qs @ [rr\<lparr>client_id := c, results := []\<rparr>]"
  "\<lambda>qs c v. push_loop c v qs (- 1)" "\<lambda>qs c. get_loop c qs []"
  "\<lambda>qs c. erase_loop c 0 qs" "\<lambda>qs. distinct (map client_id qs)" for rr :: request_record_t
proof
  fix t :: "request_record_t list" and c v xs
  assume ok: "distinct (map client_id t)"
  show "lookup_request t c = None \<Longrightarrow>
      lookup_request (t @ [rr\<lparr>client_id := c, results := []\<rparr>]) = (lookup_request t)(c \<mapsto> [])"
    by (auto simp: lookup_request_append fun_eq_iff split: option.splits)
  show "lookup_request t c = Some xs \<Longrightarrow>
      lookup_request (fst (push_loop c v t (- 1))) = (lookup_request t)(c \<mapsto> xs @ [v])"
    by (auto simp: push_loop_fst lookup_request_push fun_eq_iff)
  show "lookup_request t c = Some xs \<Longrightarrow> snd (push_loop c v t (- 1)) = int (Suc (length xs))"
    by (rule push_loop_present [OF ok])
  show "lookup_request t c = None \<Longrightarrow> push_loop c v t (- 1) = (t, - 1)"
    by (simp add: lookup_request_None_iff push_loop_absent)
  show "lookup_request t c = Some xs \<Longrightarrow> get_loop c t [] = xs"
    by (rule get_loop_present [OF ok])
  show "lookup_request (erase_loop c 0 t) = (lookup_request t)(c := None)"
    by (auto simp: erase_loop_distinct [OF ok] lookup_request_filter fun_eq_iff)
  show "lookup_request t c = None \<Longrightarrow> distinct (map client_id (t @ [rr\<lparr>client_id := c, results := []\<rparr>]))"
    using ok by (auto simp: lookup_request_None_iff clients_def)
  show "distinct (map client_id (fst (push_loop c v t (- 1))))"
    using ok by (simp only: push_loop_fst map_client_id_push)
  show "distinct (map client_id (erase_loop c 0 t))"
    using ok by (simp add: erase_loop_distinct distinct_map_filter)
qed

section \<open>The heartbeat pass in closed form\<close>

definition age_pong :: "bool \<Rightarrow> int \<Rightarrow> int" where
  "age_pong np lp = (if np then 0 else if lp < LIVENESS then lp + 1 else lp)"

definition dying :: "bool \<Rightarrow> int \<Rightarrow> bool" where
  "dying np lp \<longleftrightarrow> \<not> np \<and> lp + 1 = LIVENESS"

definition num_dying :: "service_record \<Rightarrow> nat" where
  "num_dying r = length (filter (\<lambda>(np, lp). dying np lp) (zip (new_pong r) (lost_pong r)))"

definition num_alive :: "service_record \<Rightarrow> nat" where
  "num_alive r = length (filter (\<lambda>lp. lp < LIVENESS) (lost_pong r))"

lemma check_pong_loop_eq:
  assumes "length (new_pong r) = j + n" "length (lost_pong r) = j + n"
  shows "check_pong_loop n j r u =
    Inr (r\<lparr>new_pong := take j (new_pong r) @ replicate n False,
           lost_pong := take j (lost_pong r) @ map2 age_pong (drop j (new_pong r)) (drop j (lost_pong r))\<rparr>,
         u + of_nat (length (filter (\<lambda>(np, lp). dying np lp) (zip (drop j (new_pong r)) (drop j (lost_pong r))))))"
  using assms
proof (induction n arbitrary: j r u)
  case 0
  then show ?case by simp
next
  case (Suc n)
  let ?np = "new_pong r ! j" and ?lp = "lost_pong r ! j"
  from Suc.prems have d: "drop j (new_pong r) = ?np # drop (Suc j) (new_pong r)"
    "drop j (lost_pong r) = ?lp # drop (Suc j) (lost_pong r)"
    and t: "take (Suc j) (new_pong r) = take j (new_pong r) @ [?np]"
    "take (Suc j) (lost_pong r) = take j (lost_pong r) @ [?lp]"
    by (simp_all add: Cons_nth_drop_Suc take_Suc_conv_app_nth)
  note IH = Suc.IH [of _ "Suc j"]
  show ?case using Suc.prems d t
    by (auto simp: IH age_pong_def dying_def take_Suc_update)
qed

lemma checked_record_eq:
  assumes "length (new_pong r) = unat nmr" "length (lost_pong r) = unat nmr"
  shows "checked_record nmr r =
    Inr (r\<lparr>new_pong := replicate (unat nmr) False, lost_pong := map2 age_pong (new_pong r) (lost_pong r),
           num_copies_reliable := num_copies_reliable r - of_nat (num_dying r),
           num_copies_registered := num_copies_registered r - of_nat (num_dying r),
           seq_id_ping := seq_id_ping r + 1\<rparr>)"
  using assms by (simp add: checked_record_def check_pong_loop_eq num_dying_def)

section \<open>Invariant of the database\<close>

definition record_inv :: "nat \<Rightarrow> service_record \<Rightarrow> bool" where
  "record_inv n r \<longleftrightarrow>
     length (new_pong r) = n \<and> length (lost_pong r) = n \<and>
     (\<forall>lp \<in> set (lost_pong r). - 1 \<le> lp \<and> lp \<le> LIVENESS) \<and>
     num_copies_reliable r = num_copies_registered r"

definition db_inv :: "service_database \<Rightarrow> bool" where
  "db_inv db \<longleftrightarrow> (\<forall>s r. services_db db s = Some r \<longrightarrow> record_inv (unat (db_nmr db)) r)"

text \<open>The operations of the database as the steps it can make.\<close>

inductive db_step :: "service_database \<Rightarrow> service_database \<Rightarrow> bool" where
  registration: "push_registration db rm port = Inr (db', port', ready, ret) \<Longrightarrow> db_step db db'"
| request: "push_request db rr s now = Inr db' \<Longrightarrow> db_step db db'"
| delete: "delete_request db s cid = Inr db' \<Longrightarrow> db_step db db'"
| add_result: "push_result db reply cid = Inr (db', ret) \<Longrightarrow> db_step db db'"
| pong: "register_pong db id_copy s = Inr db' \<Longrightarrow> db_step db db'"
| check: "check_pong db s = Inr db' \<Longrightarrow> db_step db db'"
| request_id: "get_request_id db s = Inr (db', n) \<Longrightarrow> db_step db db'"

lemma db_invD: "db_inv db \<Longrightarrow> services_db db s = Some r \<Longrightarrow> record_inv (unat (db_nmr db)) r"
  by (simp add: db_inv_def)

lemma db_inv_init [inv_intros]: "db_inv (init_db nmr)"
  by (simp add: db_inv_def init_db_def)

lemma db_inv_put:
  "db_inv db \<Longrightarrow> record_inv (unat (db_nmr db)) r \<Longrightarrow> db_inv (put_record db s r)"
  by (simp add: db_inv_def)

lemma record_inv_requests [simp]: "record_inv n (r\<lparr>request_records := qs\<rparr>) = record_inv n r"
  by (simp add: record_inv_def)

lemma record_inv_seq [simp]: "record_inv n (r\<lparr>seq_id_request := i\<rparr>) = record_inv n r"
  by (simp add: record_inv_def)

lemma age_pong_range: "- 1 \<le> lp \<Longrightarrow> lp \<le> LIVENESS \<Longrightarrow> - 1 \<le> age_pong np lp \<and> age_pong np lp \<le> LIVENESS"
  by (simp add: age_pong_def)

lemma record_inv_checked:
  assumes "record_inv (unat nmr) r"
  obtains r' where "checked_record nmr r = Inr r'" "record_inv (unat nmr) r'"
proof -
  have "\<forall>lp \<in> set (map2 age_pong (new_pong r) (lost_pong r)). - 1 \<le> lp \<and> lp \<le> LIVENESS"
    using assms by (auto simp: record_inv_def dest!: set_zip_rightD intro: age_pong_range [THEN conjunct1] age_pong_range [THEN conjunct2])
  then show ?thesis using assms that by (simp add: checked_record_eq record_inv_def)
qed

lemma db_inv_push_registration [inv_intros]:
  assumes "db_inv db" "push_registration db rm port = Inr (db', port', ready, ret)"
  shows "db_inv db'"
  using assms db_invD [OF assms(1)]
  by (auto simp: push_registration_def db_inv_def rbind_Inr_iff record_inv_def Let_def split: option.splits if_splits)

lemma db_inv_push_request [inv_intros]: "push_request db rr s now = Inr db' \<Longrightarrow> db_inv db \<Longrightarrow> db_inv db'"
  by (auto elim!: push_request_op.operE intro!: db_inv_put dest: db_invD)

lemma db_inv_delete_request [inv_intros]: "delete_request db s cid = Inr db' \<Longrightarrow> db_inv db \<Longrightarrow> db_inv db'"
  by (auto elim!: delete_request_op.operE intro!: db_inv_put dest: db_invD)

lemma db_inv_push_result [inv_intros]: "push_result db reply cid = Inr (db', ret) \<Longrightarrow> db_inv db \<Longrightarrow> db_inv db'"
  by (auto simp: push_result_def split: option.splits prod.splits intro!: db_inv_put dest: db_invD)

lemma db_inv_register_pong [inv_intros]: "register_pong db id_copy s = Inr db' \<Longrightarrow> db_inv db \<Longrightarrow> db_inv db'"
  by (auto elim!: register_pong_op.operE simp: db_inv_def res_simps record_inv_def split: if_splits)

lemma db_inv_get_request_id [inv_intros]: "get_request_id db s = Inr (db', n) \<Longrightarrow> db_inv db \<Longrightarrow> db_inv db'"
  by (auto simp: get_request_id_def split: option.splits intro!: db_inv_put dest: db_invD)

lemma db_inv_check_pong [inv_intros]:
  assumes "check_pong db s = Inr db'" "db_inv db"
  shows "db_inv db'"
  using assms(1)
proof (rule check_pong_op.operE)
  fix r r' assume r: "services_db db s = Some r" "checked_record (db_nmr db) r = Inr r'" "db' = put_record db s r'"
  from record_inv_checked [OF db_invD [OF assms(2) r(1)]] r(2)
  have "record_inv (unat (db_nmr db)) r'" by (metis sum.inject(2))
  with assms(2) r(3) show ?thesis by (simp add: db_inv_put)
qed

lemma db_nmr_step:
  assumes "db_step db db'"
  shows "db_nmr db' = db_nmr db"
  using assms
proof cases
  case (registration rm port port' ready ret)
  then show ?thesis
    by (auto simp: push_registration_def rbind_Inr_iff Let_def split: option.splits if_splits)
next
  case (add_result reply cid ret)
  then show ?thesis by (auto simp: push_result_def split: option.splits prod.splits)
next
  case (request_id s n)
  then show ?thesis by (auto simp: get_request_id_def split: option.splits)
qed (auto dest: push_request_op.oper_frame delete_request_op.oper_frame register_pong_op.oper_frame
    check_pong_op.oper_frame)

interpretation db_steps: step_system db_step "\<lambda>db. db_inv db \<and> db_nmr db = nmr" for nmr
proof
  fix db db' assume s: "db_step db db'" and i: "db_inv db \<and> db_nmr db = nmr"
  from s i have "db_inv db'" by cases (blast intro: inv_intros)+
  with i show "db_inv db' \<and> db_nmr db' = nmr" by (simp add: db_nmr_step [OF s])
qed

end
