(* ===== verification/RSF_Params.thy ===== *)
theory RSF_Params
  imports RSF_Comm
begin

text \<open>
  The textual encoding of service parameters (\<open>serialize\<close> and \<open>deserialize\<close> of
  \<^verbatim>\<open>include/communication.hpp\<close>) on packs of \<open>int32_t\<close> arguments, with the parts of the
  standard library they call: \<^verbatim>\<open>std::to_string\<close> and formatted extraction of an \<open>int\<close>
  from a string stream. A parameter pack is the list of its arguments; \<open>deserialize\<close> takes
  the old contents of the variables it fills, because a failed stream leaves them as they are.
\<close>

section \<open>Definitions\<close>

definition digit_char :: "nat \<Rightarrow> char" where
  "digit_char d = char_of (48 + d)"

definition digit_val :: "char \<Rightarrow> nat" where
  "digit_val c = of_char c - 48"

definition is_digit :: "char \<Rightarrow> bool" where
  "is_digit c \<longleftrightarrow> 48 \<le> (of_char c :: nat) \<and> of_char c \<le> (57 :: nat)"

definition is_space :: "char \<Rightarrow> bool" where
  "is_space c \<longleftrightarrow> of_char c = (32 :: nat) \<or> (9 \<le> (of_char c :: nat) \<and> of_char c \<le> (13 :: nat))"

fun show_nat :: "nat \<Rightarrow> string" where
  "show_nat n = (if n < 10 then [digit_char n] else show_nat (n div 10) @ [digit_char (n mod 10)])"

declare show_nat.simps [simp del]

definition to_string :: "int32 \<Rightarrow> string" where
  "to_string x = (if sint x < 0 then ''-'' @ show_nat (nat (- sint x)) else show_nat (nat (sint x)))"

fun serialize :: "string \<Rightarrow> int32 list \<Rightarrow> string" where
  "serialize str [] = str"
| "serialize str (h # t) = serialize (str @ to_string h @ '' '') t"

text \<open>An input string stream: the unread characters and the failure flag.\<close>

record istream =
  unread :: string
  failed :: bool

definition read_nat :: "string \<Rightarrow> nat" where
  "read_nat ds = foldl (\<lambda>n c. n * 10 + digit_val c) 0 ds"

definition extract_int :: "istream \<Rightarrow> int32 \<Rightarrow> istream \<times> int32" where
  "extract_int st old =
     (if failed st then (st, old)
      else let r = dropWhile is_space (unread st) in
        if r = [] then (\<lparr>unread = [], failed = True\<rparr>, old)
        else let neg = (hd r = CHR ''-'');
                 r1 = (if hd r = CHR ''-'' \<or> hd r = CHR ''+'' then tl r else r);
                 ds = takeWhile is_digit r1;
                 r2 = dropWhile is_digit r1;
                 v = (if neg then - int (read_nat ds) else int (read_nat ds))
          in if ds = [] then (\<lparr>unread = r2, failed = True\<rparr>, 0)
             else if v > 2147483647 then (\<lparr>unread = r2, failed = True\<rparr>, 2147483647)
             else if v < - 2147483648 then (\<lparr>unread = r2, failed = True\<rparr>, 2147483648)
             else (\<lparr>unread = r2, failed = False\<rparr>, word_of_int v))"

fun deserialize :: "istream \<Rightarrow> int32 list \<Rightarrow> istream \<times> int32 list" where
  "deserialize params [] = (params, [])"
| "deserialize params (h # t) =
     (let (params', h') = extract_int params h; (params'', t') = deserialize params' t
      in (params'', h' # t'))"

section \<open>Decimal notation\<close>

lemma of_char_digit_char: "d < 10 \<Longrightarrow> of_char (digit_char d) = (48 + d :: nat)"
  by (simp add: digit_char_def)

lemma digit_char_simps [simp]:
  assumes "d < 10"
  shows "is_digit (digit_char d)" "digit_val (digit_char d) = d"
  using assms of_char_digit_char [OF assms] by (simp_all add: is_digit_def digit_val_def)

lemma show_nat_digits: "\<forall>c \<in> set (show_nat n). is_digit c"
  by (induction n rule: show_nat.induct) (subst show_nat.simps, auto)

lemma show_nat_not_Nil [simp]: "show_nat n \<noteq> []"
  by (subst show_nat.simps) simp

lemma read_nat_snoc: "read_nat (ds @ [c]) = read_nat ds * 10 + digit_val c"
  by (simp add: read_nat_def)

lemma read_show_nat [simp]: "read_nat (show_nat n) = n"
proof (induction n rule: show_nat.induct)
  case (1 n)
  show ?case
  proof (cases "n < 10")
    case True
    then show ?thesis by (subst show_nat.simps) (simp add: read_nat_def)
  next
    case False
    with 1 show ?thesis by (subst show_nat.simps) (simp add: read_nat_snoc)
  qed
qed

lemma length_show_nat: "n < 10 ^ k \<Longrightarrow> 0 < k \<Longrightarrow> length (show_nat n) \<le> k"
proof (induction k arbitrary: n)
  case (Suc k)
  show ?case
  proof (cases "n < 10")
    case True
    then show ?thesis by (subst show_nat.simps) simp
  next
    case False
    with Suc.prems have "0 < k" by (cases k) simp_all
    moreover have "n div 10 < 10 ^ k" using Suc.prems by (simp add: less_mult_imp_div_less mult.commute)
    ultimately have "length (show_nat (n div 10)) \<le> k" by (rule Suc.IH [rotated])
    with False show ?thesis by (subst show_nat.simps) simp
  qed
qed simp

lemma hd_show_nat: "is_digit (hd (show_nat n))"
  using show_nat_digits [of n] by (metis hd_in_set show_nat_not_Nil)

lemma is_digit_not: "is_digit c \<Longrightarrow> \<not> is_space c \<and> c \<noteq> CHR ''-'' \<and> c \<noteq> CHR ''+''"
  by (auto simp: is_digit_def is_space_def)

lemma takeWhile_show_nat:
  assumes "rest = [] \<or> \<not> is_digit (hd rest)"
  shows "takeWhile is_digit (show_nat n @ rest) = show_nat n" "dropWhile is_digit (show_nat n @ rest) = rest"
  using show_nat_digits [of n] assms
  by (simp_all add: takeWhile_append2 dropWhile_append2)
     (cases rest, simp_all)+

lemma int32_bounds: "- 2147483648 \<le> sint (x :: int32)" "sint (x :: int32) \<le> 2147483647"
  using sint_ge [of x] sint_lt [of x] by simp_all

lemma to_string_not_Nil [simp]: "to_string x \<noteq> []"
  by (simp add: to_string_def)

lemma hd_to_string: "\<not> is_space (hd (to_string x))"
  using is_digit_not [OF hd_show_nat] by (auto simp: to_string_def is_space_def)

lemma length_to_string: "length (to_string x) \<le> 11"
proof -
  have "nat \<bar>sint x\<bar> < 10 ^ 10" using int32_bounds [of x] by simp
  then have "length (show_nat (nat \<bar>sint x\<bar>)) \<le> 10" by (rule length_show_nat) simp
  then show ?thesis by (auto simp: to_string_def abs_if split: if_splits)
qed

section \<open>Extraction undoes printing\<close>

lemma extract_to_string:
  assumes "\<forall>c\<in>set ws. is_space c" and "rest = [] \<or> \<not> is_digit (hd rest)"
  shows "extract_int \<lparr>unread = ws @ to_string x @ rest, failed = False\<rparr> old =
    (\<lparr>unread = rest, failed = False\<rparr>, x)"
proof -
  have skip: "dropWhile is_space (ws @ to_string x @ rest) = to_string x @ rest"
    using assms(1) hd_to_string [of x]
    by (simp add: dropWhile_append2) (cases "to_string x", simp_all)
  note digits = takeWhile_show_nat [OF assms(2)]
  show ?thesis
  proof (cases "sint x < 0")
    case True
    with int32_bounds [of x] show ?thesis
      by (simp add: extract_int_def skip) (simp add: to_string_def Let_def digits)
  next
    case False
    have "hd (show_nat (nat (sint x)) @ rest) \<noteq> CHR ''-''" "hd (show_nat (nat (sint x)) @ rest) \<noteq> CHR ''+''"
      using is_digit_not [OF hd_show_nat [of "nat (sint x)"]] by (simp_all add: hd_append)
    with False int32_bounds [of x] show ?thesis
      by (simp add: extract_int_def skip) (simp add: to_string_def Let_def digits)
  qed
qed

lemma serialize_concat: "serialize str xs = str @ concat (map (\<lambda>x. to_string x @ '' '') xs)"
  by (induction xs arbitrary: str) simp_all

lemma is_space_blank [simp]: "is_space CHR '' ''" "\<not> is_digit CHR '' ''"
  by (simp_all add: is_space_def is_digit_def)

lemma deserialize_concat:
  assumes "length olds = length xs" "\<forall>c\<in>set ws. is_space c"
  shows "\<exists>u. deserialize \<lparr>unread = ws @ concat (map (\<lambda>x. to_string x @ '' '') xs), failed = False\<rparr> olds =
     (\<lparr>unread = u, failed = False\<rparr>, xs)"
  using assms
proof (induction olds xs arbitrary: ws rule: list_induct2)
  case (Cons old olds x xs)
  let ?rest = "'' '' @ concat (map (\<lambda>x. to_string x @ '' '') xs)"
  have "extract_int \<lparr>unread = ws @ to_string x @ ?rest, failed = False\<rparr> old =
      (\<lparr>unread = ?rest, failed = False\<rparr>, x)"
    using Cons.prems by (intro extract_to_string) simp_all
  moreover from Cons.IH [of "'' ''"] obtain u
    where "deserialize \<lparr>unread = ?rest, failed = False\<rparr> olds = (\<lparr>unread = u, failed = False\<rparr>, xs)"
    by auto
  ultimately show ?case by simp
qed simp

lemma length_serialize: "length (serialize [] xs) \<le> 12 * length xs"
  unfolding serialize_concat
proof (induction xs)
  case (Cons x xs)
  then show ?case using length_to_string [of x] by simp
qed simp

lemma serialize_no_NUL: "c \<in> set (serialize [] xs) \<Longrightarrow> of_char c \<noteq> (0 :: nat)"
proof -
  have "of_char c \<noteq> (0 :: nat)" if "is_digit c" for c using that by (simp add: is_digit_def)
  moreover have "c \<in> set (to_string x) \<Longrightarrow> c = CHR ''-'' \<or> is_digit c" for c x
    using show_nat_digits by (auto simp: to_string_def split: if_splits)
  ultimately have "c \<in> set (to_string x) \<Longrightarrow> of_char c \<noteq> (0 :: nat)" for c x by fastforce
  then show "c \<in> set (serialize [] xs) \<Longrightarrow> of_char c \<noteq> (0 :: nat)"
    by (auto simp: serialize_concat split: if_splits)
qed

section \<open>Properties\<close>

text \<open>
  Parameters survive the trip through text: extracting as many integers as were serialized
  gives back exactly the serialized arguments, whatever the variables held before, and the
  stream does not fail.
\<close>

theorem deserialize_serialize:
  assumes "length olds = length xs"
  shows "\<exists>st. deserialize \<lparr>unread = serialize [] xs, failed = False\<rparr> olds = (st, xs) \<and> \<not> failed st"
proof -
  from deserialize_concat [OF assms, of "[]"] show ?thesis by (auto simp: serialize_concat)
qed

theorem deserialize_serialize_witness:
  "\<exists>st. deserialize \<lparr>unread = serialize [] [2, - 7, 2147483648], failed = False\<rparr> [0, 0, 5] =
     (st, [2, - 7, 2147483648]) \<and> \<not> failed st"
  using deserialize_serialize [of "[0, 0, 5]" "[2, - 7, 2147483648]"] by simp

end
