(* ===== verification/RSF_Socket.thy ===== *)
theory RSF_Socket
  imports RSF_Params
begin

text \<open>
  The socket helpers of \<^verbatim>\<open>src/utilities/util.cpp\<close>. The transport library is not part of the
  sources: a socket is the configuration it is created with, a receive is an argument of the
  handler that performs it, and a send appends to a log of \<open>(socket, frame, more)\<close> entries,
  where \<open>more\<close> is the flag \<^verbatim>\<open>ZMQ_SNDMORE\<close>.
\<close>

section \<open>Definitions\<close>

datatype socket_kind = ZMQ_ROUTER | ZMQ_DEALER | ZMQ_REP | ZMQ_REQ

datatype direction = Bind | Connect

record socket_conf =
  skt_kind :: socket_kind
  skt_dir :: direction
  endpoint :: string

definition add_socket :: "string \<Rightarrow> uint16 \<Rightarrow> socket_kind \<Rightarrow> direction \<Rightarrow> socket_conf res" where
  "add_socket addr port kind dir =
     (let p = show_nat (unat port) in
      if MAX_LENGTH_STRING_PORT < length p + 1 then Inl Undefined_Behaviour
      else Inr \<lparr>skt_kind = kind, skt_dir = dir,
             endpoint = (if port \<noteq> 0 then ''tcp://'' @ addr @ '':'' @ p else ''ipc://'' @ addr)\<rparr>)"

type_synonym 'k zsend = "'k \<times> frame \<times> bool"

fun send_frames :: "'k \<Rightarrow> frame list \<Rightarrow> 'k zsend list" where
  "send_frames skt [] = []"
| "send_frames skt [f] = [(skt, f, False)]"
| "send_frames skt (f # g # fs) = (skt, f, True) # send_frames skt (g # fs)"

text \<open>
  The loop bound is \<^verbatim>\<open>msg.size() - 1\<close> in \<open>size_t\<close> and its variable a \<open>uint8_t\<close>: an empty
  vector is read out of range, and with 257 or more frames the loop never ends.
\<close>

definition send_multi_msg :: "'k \<Rightarrow> frame list \<Rightarrow> 'k zsend list res" where
  "send_multi_msg skt msg =
     (if msg = [] then Inl Undefined_Behaviour
      else if 256 < length msg then Inl Diverges
      else Inr (send_frames skt msg))"

section \<open>What the receiver assembles\<close>

text \<open>The frames up to the first one sent without \<open>ZMQ_SNDMORE\<close> form one message.\<close>

fun assemble :: "'k zsend list \<Rightarrow> frame list list" where
  "assemble [] = []"
| "assemble ((skt, f, mr) # es) =
     (if mr then (case assemble es of [] \<Rightarrow> [] | m # ms \<Rightarrow> (f # m) # ms)
      else [f] # assemble es)"

lemma send_multi_msg_3 [simp]:
  "send_multi_msg skt [a, b, c] = Inr [(skt, a, True), (skt, b, True), (skt, c, False)]"
  by (simp add: send_multi_msg_def)

lemma assemble_send_frames: "fs \<noteq> [] \<Longrightarrow> assemble (send_frames skt fs @ es) = fs # assemble es"
  by (induction skt fs rule: send_frames.induct) auto

lemma uint16_string_length: "length (show_nat (unat (port :: uint16))) \<le> 5"
proof (rule length_show_nat)
  have "unat port < 2 ^ 16" using unsigned_less [of port, where ?'a = nat] by simp
  then show "unat port < 10 ^ 5" by simp
qed simp

lemma add_socket_eq [simp]:
  "add_socket addr port kind dir = Inr \<lparr>skt_kind = kind, skt_dir = dir,
     endpoint = (if port \<noteq> 0 then ''tcp://'' @ addr @ '':'' @ show_nat (unat port) else ''ipc://'' @ addr)\<rparr>"
  using uint16_string_length [of port] by (simp add: add_socket_def Let_def)

section \<open>Properties\<close>

text \<open>
  Printing a port never overruns the six-byte buffer, so creating a socket always
  succeeds in building its endpoint, and distinct non-zero ports on the same address give
  distinct endpoints.
\<close>

theorem add_socket_endpoint:
  "(\<exists>skt. add_socket addr port kind dir = Inr skt) \<and> length (show_nat (unat port)) + 1 \<le> MAX_LENGTH_STRING_PORT \<and>
   (\<forall>port' skt skt'. port \<noteq> 0 \<and> port' \<noteq> 0 \<and> add_socket addr port kind dir = Inr skt \<and>
      add_socket addr port' kind dir = Inr skt' \<and> endpoint skt = endpoint skt' \<longrightarrow> port = port')"
proof -
  have "unat p = unat q" if "show_nat (unat p) = show_nat (unat q)" for p q :: uint16
    using that by (metis read_show_nat)
  then show ?thesis using uint16_string_length [of port] by (auto simp: word_unat_eq_iff)
qed

theorem add_socket_endpoint_witness:
  "add_socket ''*'' 5559 ZMQ_ROUTER Bind =
     Inr \<lparr>skt_kind = ZMQ_ROUTER, skt_dir = Bind, endpoint = ''tcp://*:5559''\<rparr> \<and>
   length (show_nat (unat (5559 :: uint16))) + 1 \<le> MAX_LENGTH_STRING_PORT"
proof -
  have "digit_char 5 = CHR ''5''" "digit_char 9 = CHR ''9''" by code_simp+
  then have "show_nat 5559 = ''5559''" by (simp add: show_nat.simps)
  then show ?thesis using add_socket_endpoint [of "''*''" 5559 ZMQ_ROUTER Bind] by simp
qed

text \<open>
  \<open>send_multi_msg\<close> sends its frames as exactly one multipart message, in order, also when
  it is followed by other sends; it fails only on an empty vector and on more than 256 frames.
\<close>

theorem send_multi_msg_one_message:
  assumes "msg \<noteq> []" and "length msg \<le> 256"
  shows "\<exists>es. send_multi_msg skt msg = Inr es \<and> assemble (es @ later) = msg # assemble later"
  using assms by (simp add: send_multi_msg_def assemble_send_frames)

theorem send_multi_msg_one_message_witness:
  "\<exists>es. send_multi_msg () [[1], [], [2, 3]] = Inr es \<and> assemble (es @ []) = [[1], [], [2, 3]] # assemble ([] :: unit zsend list)"
  by (rule send_multi_msg_one_message) simp_all

end
