(* ===== verification/RSF_Broker.thy ===== *)
theory RSF_Broker
  imports RSF_Database RSF_Socket
begin

text \<open>
  The broker (\<^verbatim>\<open>include/broker_class.hpp\<close>, \<^verbatim>\<open>src/broker/broker_class.cpp\<close>): its state, one
  definition per member function, and one iteration of its main loop. The environment
  \<open>broker_env\<close> holds what the code does not determine: the readings of the monotonic clock,
  which peers the ROUTER socket can reach (it is created with \<^verbatim>\<open>ZMQ_ROUTER_MANDATORY\<close>, so a
  send to an unknown identity throws), and the contents of uninitialised local variables.
  The three frames a handler receives are its argument; sends are appended to \<open>sent\<close>.
  Log output is left out.
\<close>

section \<open>State and environment\<close>

datatype broker_socket = Router | Reg | Hc | Dealer nat

type_synonym envelope = "frame \<times> frame \<times> frame"

record broker_env =
  clk :: "nat \<Rightarrow> timespec"
  routable :: "frame \<Rightarrow> bool"
  junk_result :: int32
  junk_response :: response_module
  junk_service :: service_module
  junk_request :: request_record_t

record broker =
  b_nmr :: uint8
  port_router :: uint16
  port_reg :: uint16
  available_dealer_port :: uint16
  poll_items :: "broker_socket list"
  dealer :: "socket_conf list"
  b_db :: service_database
  available_services :: "service_type_t list"
  timeouts :: "timespec list"
  b_now :: timespec
  sent :: "broker_socket zsend list"
  ticks :: nat

record poll_result =
  ev_hc :: bool
  ev_reg :: "(frame \<times> bool) list option"
  ev_router :: "envelope option"
  ev_dealer :: "envelope option list"

definition new_broker :: "uint8 \<Rightarrow> uint16 \<Rightarrow> uint16 \<Rightarrow> timespec \<Rightarrow> broker res" where
  "new_broker nmr p_router p_reg junk_now =
     rbind (add_socket ''*'' p_router ZMQ_ROUTER Bind) (\<lambda>_.
     rbind (add_socket ''*'' p_reg ZMQ_ROUTER Bind) (\<lambda>_.
     rbind (add_socket ''*'' BROKER_PONG_PORT ZMQ_REP Bind) (\<lambda>_.
       Inr \<lparr>b_nmr = nmr, port_router = p_router, port_reg = p_reg,
            available_dealer_port = DEALER_START_PORT, poll_items = [Router, Reg, Hc],
            dealer = [], b_db = init_db nmr, available_services = [], timeouts = [],
            b_now = junk_now, sent = [], ticks = 0\<rparr>)))"

section \<open>Sockets and the clock\<close>

definition clock_gettime :: "broker_env \<Rightarrow> broker \<Rightarrow> timespec \<times> broker" where
  "clock_gettime env b = (clk env (ticks b), b\<lparr>ticks := Suc (ticks b)\<rparr>)"

definition router_send :: "broker_env \<Rightarrow> frame list \<Rightarrow> broker \<Rightarrow> broker res" where
  "router_send env msg b =
     rbind (send_multi_msg Router msg) (\<lambda>es.
       if routable env (hd msg) then Inr (b\<lparr>sent := sent b @ es\<rparr>) else Inl Zmq_Error)"

fun send_copies :: "nat \<Rightarrow> nat \<Rightarrow> frame list \<Rightarrow> broker \<Rightarrow> broker res" where
  "send_copies 0 i msg b = Inr b"
| "send_copies (Suc n) i msg b =
     rbind (vec_get (dealer b) i) (\<lambda>_.
     rbind (send_multi_msg (Dealer i) msg) (\<lambda>es. send_copies n i msg (b\<lparr>sent := sent b @ es\<rparr>)))"

definition add_dealer :: "uint16 \<Rightarrow> broker \<Rightarrow> broker res" where
  "add_dealer dealer_port b =
     rbind (add_socket ''*'' dealer_port ZMQ_DEALER Bind) (\<lambda>skt.
       Inr (b\<lparr>dealer := dealer b @ [skt], poll_items := poll_items b @ [Dealer (length (dealer b))]\<rparr>))"

section \<open>Handlers\<close>

fun index_of :: "'a \<Rightarrow> 'a list \<Rightarrow> nat" where
  "index_of x [] = 0"
| "index_of x (y # ys) = (if y = x then 0 else Suc (index_of x ys))"

definition update_timeout :: "broker_env \<Rightarrow> service_type_t \<Rightarrow> broker \<Rightarrow> broker res" where
  "update_timeout env service b =
     (let i = index_of service (available_services b);
          (t, b1) = clock_gettime env b
      in rbind (vec_set (timeouts b1) i (time_add_ms t HEARTBEAT_INTERVAL)) (\<lambda>ts.
           Inr (b1\<lparr>timeouts := ts\<rparr>)))"

definition get_request :: "broker_env \<Rightarrow> envelope \<Rightarrow> broker \<Rightarrow> broker res" where
  "get_request env fs b =
     (case fs of (id_frame, empty_frame, data_frame) \<Rightarrow>
      rbind (load 4 1 id_frame) (\<lambda>cid.
      rbind (dec_request data_frame) (\<lambda>rq.
        let service = ntohl (rq_service rq);
            ret = find_registration (b_db b) service
        in if ret = - 1
           then router_send env
                  [id_frame, empty_frame,
                   enc_response ((junk_response env)\<lparr>rs_status := htonl (status_code SERVICE_NOT_AVAILABLE)\<rparr>)] b
           else
             rbind (get_request_id (b_db b) service) (\<lambda>(db1, rid).
             let sm = (junk_service env)\<lparr>sm_heartbeat := False, sm_seq_id := htonl rid,
                                          sm_parameters := rq_parameters rq\<rparr>
             in rbind (get_reliable_copies db1 service) (\<lambda>copies.
                rbind (send_copies (unat copies) (nat ret) [id_frame, empty_frame, enc_service sm]
                         (b\<lparr>b_db := db1\<rparr>)) (\<lambda>b1.
                let (t, b2) = clock_gettime env b1;
                    rr = (junk_request env)\<lparr>client_id := cid, results := []\<rparr>
                in rbind (push_request (b_db b2) rr service t) (\<lambda>db2.
                   update_timeout env service (b2\<lparr>b_db := db2\<rparr>))))))))"

definition make_available :: "broker_env \<Rightarrow> service_type_t \<Rightarrow> uint16 \<Rightarrow> broker \<Rightarrow> broker res" where
  "make_available env service port b =
     rbind (add_dealer port (b\<lparr>available_services := available_services b @ [service]\<rparr>)) (\<lambda>b1.
     let (t, b2) = clock_gettime env b1
     in Inr (b2\<lparr>timeouts := timeouts b2 @ [time_add_ms t HEARTBEAT_INTERVAL]\<rparr>))"

text \<open>
  The loop over the frames of a registration, of which it receives \<open>ENVELOPE\<close>: a frame that is followed by more is sent back,
  the last one is the registration module. The flag \<open>already_registered\<close> lives across
  iterations; \<open>ready\<close> is reset by every call of \<open>push_registration\<close>.
\<close>

fun registration_loop :: "broker_env \<Rightarrow> (frame \<times> bool) list \<Rightarrow> bool \<Rightarrow> broker \<Rightarrow> broker res" where
  "registration_loop env [] already b = Inr b"
| "registration_loop env ((f, more_frames) # fs) already b =
     (if more_frames
      then registration_loop env fs already (b\<lparr>sent := sent b @ [(Reg, f, True)]\<rparr>)
      else
        rbind (dec_registration f) (\<lambda>rm0.
        let service = ntohl (rg_service rm0);
            rm = rm0\<lparr>rg_service := service\<rparr>
        in rbind (push_registration (b_db b) rm (available_dealer_port b)) (\<lambda>(db', port', ready, ret).
           let b1 = b\<lparr>b_db := db', available_dealer_port := port'\<rparr>;
               already' = (already \<or> service \<in> set (available_services b1))
           in rbind (if ready \<and> \<not> already' then make_available env service ret b1 else Inr b1) (\<lambda>b2.
              registration_loop env fs already'
                (b2\<lparr>sent := sent b2 @ [(Reg, le_bytes 2 (htons ret), False)]\<rparr>)))))"

definition get_registration :: "broker_env \<Rightarrow> (frame \<times> bool) list \<Rightarrow> broker \<Rightarrow> broker res" where
  "get_registration env fs b = registration_loop env (take ENVELOPE fs) False b"

text \<open>Answering a client and dropping its request, the common part of two branches.\<close>

definition answer_client ::
    "broker_env \<Rightarrow> frame \<Rightarrow> frame \<Rightarrow> service_status_t \<Rightarrow> int32 \<Rightarrow> service_type_t \<Rightarrow> uint32 \<Rightarrow> broker \<Rightarrow> broker res" where
  "answer_client env id_frame empty_frame status result service cid b =
     rbind (router_send env
              [id_frame, empty_frame,
               enc_response \<lparr>rs_status = htonl (status_code status), rs_result = htonl result\<rparr>] b) (\<lambda>b1.
     rbind (delete_request (b_db b1) service cid) (\<lambda>db'. Inr (b1\<lparr>b_db := db'\<rparr>)))"

definition get_response :: "broker_env \<Rightarrow> envelope \<Rightarrow> broker \<Rightarrow> broker res" where
  "get_response env fs b =
     (case fs of (id_frame, empty_frame, data_frame) \<Rightarrow>
      rbind (load 4 1 id_frame) (\<lambda>cid.
      rbind (dec_reply data_frame) (\<lambda>r0.
        let reply = r0\<lparr>sr_result := ntohl (sr_result r0), sr_service := ntohl (sr_service r0)\<rparr>
        in if sr_heartbeat reply
           then rbind (register_pong (b_db b) (sr_id reply) (sr_service reply)) (\<lambda>db'. Inr (b\<lparr>b_db := db'\<rparr>))
           else if sr_duplicated reply then Inr b
           else
             rbind (push_result (b_db b) reply cid) (\<lambda>(db1, num_copies).
             if num_copies > int (unat (b_nmr b) div 2)
             then
               rbind (get_result db1 (sr_service reply) cid) (\<lambda>vals.
               rbind (of_option Diverges (vote (b_nmr b) vals (junk_result env))) (\<lambda>(ret, result).
               if ret \<ge> 0
               then answer_client env id_frame empty_frame SERVICE_AVAILABLE result
                      (sr_service reply) cid (b\<lparr>b_db := db1\<rparr>)
               else if num_copies = int (unat (b_nmr b))
               then answer_client env id_frame empty_frame SERVICE_NOT_RELIABLE result
                      (sr_service reply) cid (b\<lparr>b_db := db1\<rparr>)
               else Inr (b\<lparr>b_db := db1\<rparr>)))
             else Inr (b\<lparr>b_db := db1\<rparr>)))))"

text \<open>
  \<open>ping_server\<close> takes the index of the service as a \<open>uint8_t\<close>. The identity frame it makes up
  is a zero byte and four letters \<open>a\<close>.
\<close>

definition ping_server :: "broker_env \<Rightarrow> uint8 \<Rightarrow> service_type_t \<Rightarrow> broker \<Rightarrow> broker res" where
  "ping_server env i service b =
     rbind (get_ping_id (b_db b) service) (\<lambda>ping.
     let sm = (junk_service env)\<lparr>sm_heartbeat := True, sm_seq_id := htonl ping\<rparr>
     in rbind (vec_get (available_services b) (unat i)) (\<lambda>s.
        rbind (get_reliable_copies (b_db b) s) (\<lambda>copies.
          send_copies (unat copies) (unat i) [[0, 97, 97, 97, 97], [], enc_service sm] b)))"

definition pong_health_checker :: "broker \<Rightarrow> broker" where
  "pong_health_checker b = b\<lparr>sent := sent b @ [(Hc, [], False)]\<rparr>"

text \<open>
  \<open>check_pending_requests\<close>: the variable \<open>result\<close> is declared outside the loops and keeps
  the value of an earlier vote; the request is deleted from the service whose code is the
  loop index.
\<close>

fun pending_inner ::
    "broker_env \<Rightarrow> timespec \<Rightarrow> nat \<Rightarrow> request_record_t list \<Rightarrow> int32 \<Rightarrow> broker \<Rightarrow> (int32 \<times> broker) res" where
  "pending_inner env now i [] result b = Inr (result, b)"
| "pending_inner env now i (q # qs) result b =
     (if time_cmp now (rr_timeout q) = 1
      then
        rbind (of_option Diverges (vote (b_nmr b) (results q) result)) (\<lambda>(ret, result').
        rbind (answer_client env (0 # le_bytes 4 (client_id q)) []
                 (if ret \<ge> 0 then SERVICE_AVAILABLE else SERVICE_NOT_RELIABLE) result'
                 (of_nat i) (client_id q) b) (\<lambda>b1.
          pending_inner env now i qs result' b1))
      else pending_inner env now i qs result b)"

fun pending_outer ::
    "broker_env \<Rightarrow> timespec \<Rightarrow> nat \<Rightarrow> service_type_t list \<Rightarrow> int32 \<Rightarrow> broker \<Rightarrow> broker res" where
  "pending_outer env now i [] result b = Inr b"
| "pending_outer env now i (s # ss) result b =
     rbind (get_pending_requests (b_db b) s) (\<lambda>qs.
     rbind (pending_inner env now i qs result b) (\<lambda>(result', b1).
       pending_outer env now (Suc i) ss result' b1))"

definition check_pending_requests :: "broker_env \<Rightarrow> broker \<Rightarrow> broker res" where
  "check_pending_requests env b =
     (let (now, b1) = clock_gettime env b
      in pending_outer env now 0 (available_services b1) (junk_result env) b1)"

section \<open>The main loop\<close>

fun dealer_loop :: "broker_env \<Rightarrow> envelope option list \<Rightarrow> broker \<Rightarrow> broker res" where
  "dealer_loop env [] b = Inr b"
| "dealer_loop env (None # evs) b = dealer_loop env evs b"
| "dealer_loop env (Some fs # evs) b = rbind (get_response env fs b) (dealer_loop env evs)"

fun heartbeat_loop :: "broker_env \<Rightarrow> nat \<Rightarrow> nat \<Rightarrow> broker \<Rightarrow> broker res" where
  "heartbeat_loop env 0 i b = Inr b"
| "heartbeat_loop env (Suc n) i b =
     rbind (vec_get (timeouts b) i) (\<lambda>t.
     if time_cmp (b_now b) t = 1
     then rbind (vec_get (available_services b) i) (\<lambda>s.
          rbind (check_pong (b_db b) s) (\<lambda>db'.
          rbind (ping_server env (of_nat i) s (b\<lparr>b_db := db'\<rparr>)) (\<lambda>b1.
          rbind (update_timeout env s b1) (heartbeat_loop env n (Suc i)))))
     else heartbeat_loop env n (Suc i) b)"

definition broker_step :: "broker_env \<Rightarrow> poll_result \<Rightarrow> broker \<Rightarrow> broker res" where
  "broker_step env ev b =
     (let (t, b0) = clock_gettime env b;
          b1 = b0\<lparr>b_now := t\<rparr>;
          b2 = (if ev_hc ev then pong_health_checker b1 else b1)
      in rbind (case ev_reg ev of None \<Rightarrow> Inr b2 | Some fs \<Rightarrow> get_registration env fs b2) (\<lambda>b3.
         rbind (case ev_router ev of None \<Rightarrow> Inr b3 | Some fs \<Rightarrow> get_request env fs b3) (\<lambda>b4.
         rbind (dealer_loop env (ev_dealer ev) b4) (\<lambda>b5.
         rbind (heartbeat_loop env (length (timeouts b5)) 0 b5) (\<lambda>b6.
           check_pending_requests env b6)))))"

end
