(* ===== verification/RSF_Database_Facts.thy ===== *)
theory RSF_Database_Facts
  imports RSF_Database
begin

text \<open>
  Facts about runs of the service database: what the heartbeat pass does to the counters,
  repeated passes over silent copies, a series of registrations, and the properties of
  \<^verbatim>\<open>ServiceDatabase\<close> that the broker's correctness rests on.
\<close>

section \<open>Counting live copies\<close>

text \<open>
  \<open>num_revived\<close> counts the copies that had been given up and answered again. The counters of
  the record cannot wrap around as long as they cover the copies that are counted as alive.
\<close>

definition num_revived :: "service_record \<Rightarrow> nat" where
  "num_revived r = length (filter (\<lambda>(np, lp). np \<and> \<not> lp < LIVENESS) (zip (new_pong r) (lost_pong r)))"

lemma alive_balance:
  assumes "length nps = length lps" "\<forall>lp \<in> set lps. lp \<le> LIVENESS"
  shows "length (filter (\<lambda>lp. lp < LIVENESS) (map2 age_pong nps lps)) +
      length (filter (\<lambda>(np, lp). dying np lp) (zip nps lps)) =
    length (filter (\<lambda>lp. lp < LIVENESS) lps) +
      length (filter (\<lambda>(np, lp). np \<and> \<not> lp < LIVENESS) (zip nps lps))"
  using assms by (induction nps lps rule: list_induct2) (auto simp: age_pong_def dying_def)

lemma dying_le_alive:
  "length nps = length lps \<Longrightarrow>
   length (filter (\<lambda>(np, lp). dying np lp) (zip nps lps)) \<le> length (filter (\<lambda>lp. lp < LIVENESS) lps)"
  by (induction nps lps rule: list_induct2) (auto simp: dying_def)

lemma num_dying_le_alive: "length (new_pong r) = length (lost_pong r) \<Longrightarrow> num_dying r \<le> num_alive r"
  by (simp add: num_dying_def num_alive_def dying_le_alive)

fun check_pongs :: "nat \<Rightarrow> service_database \<Rightarrow> service_type_t \<Rightarrow> service_database res" where
  "check_pongs 0 db s = Inr db"
| "check_pongs (Suc k) db s = rbind (check_pong db s) (\<lambda>db'. check_pongs k db' s)"

fun register_all ::
    "service_database \<Rightarrow> uint16 \<Rightarrow> registration_module list \<Rightarrow>
     (service_database \<times> uint16 \<times> (bool \<times> uint16) list) res" where
  "register_all db port [] = Inr (db, port, [])"
| "register_all db port (m # ms) =
     rbind (push_registration db m port) (\<lambda>(db', port', ready, ret).
     rbind (register_all db' port' ms) (\<lambda>(db'', port'', outs). Inr (db'', port'', (ready, ret) # outs)))"

text \<open>Heartbeat intervals: the copies listed answer, then the pass runs.\<close>

fun register_pongs :: "service_database \<Rightarrow> uint8 list \<Rightarrow> service_type_t \<Rightarrow> service_database res" where
  "register_pongs db [] s = Inr db"
| "register_pongs db (i # ids) s = rbind (register_pong db i s) (\<lambda>db'. register_pongs db' ids s)"

fun heartbeats :: "service_database \<Rightarrow> uint8 list list \<Rightarrow> service_type_t \<Rightarrow> service_database res" where
  "heartbeats db [] s = Inr db"
| "heartbeats db (ids # rest) s =
     rbind (register_pongs db ids s) (\<lambda>db1.
     rbind (check_pong db1 s) (\<lambda>db2. heartbeats db2 rest s))"

section \<open>Repeated passes over silent copies\<close>

lemma dying_count_silent:
  "length (filter (\<lambda>(np, lp). dying np lp) (zip (replicate (length lps) False) lps)) =
   length (filter (\<lambda>lp. lp + 1 = LIVENESS) lps)"
  by (induction lps) (auto simp: dying_def)

lemma age_silent: "map2 age_pong (replicate (length lps) False) lps = map (\<lambda>lp. if lp < LIVENESS then lp + 1 else lp) lps"
  by (induction lps) (auto simp: age_pong_def)

definition lost_after :: "nat \<Rightarrow> int list \<Rightarrow> nat" where
  "lost_after k lps = length (filter (\<lambda>lp. lp < LIVENESS \<and> LIVENESS \<le> lp + int k) lps)"

lemma lost_after_Suc:
  "\<forall>lp \<in> set lps. lp \<le> LIVENESS \<Longrightarrow>
   lost_after (Suc k) lps = length (filter (\<lambda>lp. lp + 1 = LIVENESS) lps) +
     lost_after k (map (\<lambda>lp. if lp < LIVENESS then lp + 1 else lp) lps)"
  unfolding lost_after_def by (induction lps) auto

lemma check_pongs_silent:
  assumes "record_inv (unat (db_nmr db)) r" "services_db db s = Some r" "\<forall>np \<in> set (new_pong r). \<not> np"
  shows "\<exists>r'. check_pongs k db s = Inr (put_record db s r') \<and>
     lost_pong r' = map (\<lambda>lp. min LIVENESS (lp + int k)) (lost_pong r) \<and>
     num_copies_registered r' = num_copies_registered r - of_nat (lost_after k (lost_pong r)) \<and>
     num_copies_reliable r' = num_copies_registered r' \<and>
     seq_id_ping r' = seq_id_ping r + of_nat k"
  using assms
proof (induction k arbitrary: db r)
  case 0
  then have "map (\<lambda>lp. min LIVENESS lp) (lost_pong r) = lost_pong r"
    by (intro map_idI) (auto simp: record_inv_def min_def)
  with 0 show ?case by (intro exI [of _ r]) (auto simp: record_inv_def lost_after_def map_upd_triv)
next
  case (Suc k)
  let ?n = "unat (db_nmr db)"
  from Suc.prems have len: "length (new_pong r) = ?n" "length (lost_pong r) = ?n"
    and range: "\<forall>lp \<in> set (lost_pong r). lp \<le> LIVENESS" by (auto simp: record_inv_def)
  from Suc.prems(3) len have silent: "new_pong r = replicate (length (lost_pong r)) False"
    by (metis replicate_length_same)
  from record_inv_checked [OF Suc.prems(1)] obtain r1
    where r1: "checked_record (db_nmr db) r = Inr r1" "record_inv ?n r1" by blast
  have r1_eq: "new_pong r1 = replicate ?n False"
    "lost_pong r1 = map (\<lambda>lp. if lp < LIVENESS then lp + 1 else lp) (lost_pong r)"
    "num_copies_registered r1 = num_copies_registered r - of_nat (length (filter (\<lambda>lp. lp + 1 = LIVENESS) (lost_pong r)))"
    "seq_id_ping r1 = seq_id_ping r + 1"
    using r1(1) checked_record_eq [OF len] age_silent [of "lost_pong r"] dying_count_silent [of "lost_pong r"]
    by (auto simp: silent num_dying_def)
  have "check_pong db s = Inr (put_record db s r1)"
    by (rule check_pong_op.oper_found [OF Suc.prems(2) r1(1)])
  moreover have "\<exists>r2. check_pongs k (put_record db s r1) s = Inr (put_record (put_record db s r1) s r2) \<and>
     lost_pong r2 = map (\<lambda>lp. min LIVENESS (lp + int k)) (lost_pong r1) \<and>
     num_copies_registered r2 = num_copies_registered r1 - of_nat (lost_after k (lost_pong r1)) \<and>
     num_copies_reliable r2 = num_copies_registered r2 \<and> seq_id_ping r2 = seq_id_ping r1 + of_nat k"
    by (rule Suc.IH) (use r1 r1_eq(1) in simp_all)
  then obtain r2
    where "check_pongs k (put_record db s r1) s = Inr (put_record (put_record db s r1) s r2)"
      and r2: "lost_pong r2 = map (\<lambda>lp. min LIVENESS (lp + int k)) (lost_pong r1)"
      "num_copies_registered r2 = num_copies_registered r1 - of_nat (lost_after k (lost_pong r1))"
      "num_copies_reliable r2 = num_copies_registered r2" "seq_id_ping r2 = seq_id_ping r1 + of_nat k"
    by blast
  ultimately have "check_pongs (Suc k) db s = Inr (put_record db s r2)" by simp
  moreover have "lost_pong r2 = map (\<lambda>lp. min LIVENESS (lp + int (Suc k))) (lost_pong r)"
    using range by (auto simp: r2 r1_eq)
  moreover have "num_copies_registered r2 = num_copies_registered r - of_nat (lost_after (Suc k) (lost_pong r))"
    using lost_after_Suc [OF range] by (simp add: r2 r1_eq)
  moreover have "seq_id_ping r2 = seq_id_ping r + of_nat (Suc k)" by (simp add: r2 r1_eq)
  ultimately show ?case using r2(3) by blast
qed

section \<open>A series of registrations\<close>

lemma register_more:
  assumes "services_db db (rg_service m) = Some r" "unat (num_copies_registered r) + k \<le> unat (db_nmr db)"
  shows "\<exists>r'. register_all db port (replicate k m) =
       Inr (if k = 0 then db else put_record db (rg_service m) r', port,
         map (\<lambda>i. (unat (num_copies_registered r) + Suc i = unat (db_nmr db), dealer_socket r)) [0..<k]) \<and>
     num_copies_registered r' = num_copies_registered r + of_nat k \<and> dealer_socket r' = dealer_socket r"
  using assms
proof (induction k arbitrary: db r)
  case 0
  then show ?case by auto
next
  case (Suc k)
  let ?r = "r\<lparr>num_copies_registered := num_copies_registered r + 1, num_copies_reliable := num_copies_reliable r + 1\<rparr>"
  let ?db = "put_record db (rg_service m) ?r"
  from Suc.prems(2) have less: "num_copies_registered r < db_nmr db" by (simp add: word_less_nat_alt)
  have u: "unat (num_copies_registered r + 1) = Suc (unat (num_copies_registered r))"
    using Suc.prems(2) uint8_le [of "db_nmr db"] by (intro unat_Suc_less [where k = "unat (db_nmr db)"]) simp_all
  have reg: "push_registration db m port =
      Inr (?db, port, Suc (unat (num_copies_registered r)) = unat (db_nmr db), dealer_socket r)"
    using Suc.prems(1) less u by (simp add: push_registration_def word_unat_eq_iff)
  from Suc.IH [of ?db ?r] Suc.prems(2) u obtain r'
    where "register_all ?db port (replicate k m) = Inr (if k = 0 then ?db else put_record ?db (rg_service m) r', port,
         map (\<lambda>i. (unat (num_copies_registered r) + Suc (Suc i) = unat (db_nmr db), dealer_socket r)) [0..<k])"
      "num_copies_registered r' = num_copies_registered r + 1 + of_nat k" "dealer_socket r' = dealer_socket r"
    by auto
  with reg show ?case
    by (intro exI [of _ "if k = 0 then ?r else r'"])
       (auto simp: map_upt_Suc simp del: upt_Suc)
qed

section \<open>Properties\<close>

text \<open>
  C19: In every database that operations can produce from an empty one, each record keeps one
  heartbeat entry per copy with a loss count between \<open>-1\<close> and \<open>LIVENESS\<close>, its two copy counters
  agree, \<open>check_pong\<close> on a registered service returns, and \<open>register_pong\<close> is free of
  out-of-range writes exactly for copy identifiers below \<open>nmr\<close>.
\<close>

theorem reachable_db_safe:
  assumes "db_step\<^sup>*\<^sup>* (init_db nmr) db" and "services_db db s = Some r"
  shows "record_inv (unat nmr) r \<and> (\<exists>db'. check_pong db s = Inr db') \<and>
     (\<forall>i. (\<exists>db'. register_pong db i s = Inr db') \<longleftrightarrow> unat i < unat nmr)"
proof -
  have "db_inv db \<and> db_nmr db = nmr"
    by (rule db_steps.steps_inv [OF assms(1)]) (simp add: db_inv_init, simp add: init_db_def)
  then have r: "record_inv (unat nmr) r" and nmr: "db_nmr db = nmr" using assms(2) db_invD by blast+
  from record_inv_checked [OF r] obtain r' where "checked_record (db_nmr db) r = Inr r'" by (auto simp: nmr)
  with assms(2) have "check_pong db s = Inr (put_record db s r')" by (rule check_pong_op.oper_found)
  moreover have "(\<exists>db'. register_pong db i s = Inr db') \<longleftrightarrow> unat i < unat nmr" for i
    using assms(2) r by (auto simp: register_pong_def rbind_Inr_iff vec_set_Inr_iff record_inv_def)
  ultimately show ?thesis using r by blast
qed

theorem reachable_db_safe_witness:
  "\<exists>db r. db_step\<^sup>*\<^sup>* (init_db 3) db \<and> services_db db 7 = Some r \<and> record_inv 3 r \<and>
     (\<exists>db'. check_pong db 7 = Inr db')"
proof -
  let ?m = "\<lparr>rg_signature = [112, 0], rg_service = 7\<rparr> :: registration_module"
  obtain db port' ready ret where reg: "push_registration (init_db 3) ?m 6000 = Inr (db, port', ready, ret)"
    "services_db db 7 \<noteq> None"
    by (auto simp: push_registration_def init_db_def Let_def)
  then obtain r where r: "services_db db 7 = Some r" by auto
  from reg(1) have steps: "db_step\<^sup>*\<^sup>* (init_db 3) db" by (blast intro: db_step.registration)
  from reachable_db_safe [OF steps r] steps r show ?thesis by auto
qed

text \<open>
  A copy that stays silent is given up after at most \<open>LIVENESS + 1\<close> heartbeat passes and
  exactly once: after \<open>k\<close> passes without any pong every loss count has grown by \<open>k\<close>, capped at
  \<open>LIVENESS\<close>, and both copy counters have dropped by the number of copies that reached it.
\<close>

theorem silent_copies_given_up:
  assumes "db_inv db" and "services_db db s = Some r" and "\<forall>np \<in> set (new_pong r). \<not> np"
  shows "\<exists>db' r'. check_pongs k db s = Inr db' \<and> services_db db' s = Some r' \<and>
     lost_pong r' = map (\<lambda>lp. min LIVENESS (lp + int k)) (lost_pong r) \<and>
     num_copies_registered r' =
       num_copies_registered r - of_nat (length (filter (\<lambda>lp. lp < LIVENESS \<and> LIVENESS \<le> lp + int k) (lost_pong r))) \<and>
     num_copies_reliable r' = num_copies_registered r' \<and>
     seq_id_ping r' = seq_id_ping r + of_nat k"
proof -
  from check_pongs_silent [OF db_invD [OF assms(1,2)] assms(2,3), of k] obtain r'
    where r': "check_pongs k db s = Inr (put_record db s r')"
      "lost_pong r' = map (\<lambda>lp. min LIVENESS (lp + int k)) (lost_pong r)"
      "num_copies_registered r' = num_copies_registered r - of_nat (lost_after k (lost_pong r))"
      "num_copies_reliable r' = num_copies_registered r'" "seq_id_ping r' = seq_id_ping r + of_nat k"
    by blast
  have "services_db (put_record db s r') s = Some r'" by simp
  with r' show ?thesis unfolding lost_after_def by blast
qed

definition example_record :: service_record where
  "example_record = \<lparr>owner = ''pippo'', num_copies_registered = 3, num_copies_reliable = 3,
     dealer_socket = 6000, dealer_skt_index = 0, seq_id_ping = - 1, seq_id_request = 0,
     request_records = [], new_pong = [False, False, False], lost_pong = [- 1, - 1, - 1]\<rparr>"

definition example_db :: service_database where
  "example_db = \<lparr>db_nmr = 3, services_db = [0 \<mapsto> example_record], next_dealer_skt_index = 1\<rparr>"

lemma example_db_inv: "db_inv example_db"
  by (simp add: db_inv_def example_db_def record_inv_def example_record_def)

theorem silent_copies_given_up_witness:
  "\<exists>db' r'. check_pongs 4 example_db 0 = Inr db' \<and> services_db db' 0 = Some r' \<and>
     lost_pong r' = [3, 3, 3] \<and> num_copies_registered r' = 0"
proof -
  have r: "services_db example_db 0 = Some example_record" "\<forall>np \<in> set (new_pong example_record). \<not> np"
    by (simp_all add: example_db_def example_record_def)
  from silent_copies_given_up [OF example_db_inv r, of 4] obtain db' r'
    where r': "check_pongs 4 example_db 0 = Inr db'" "services_db db' 0 = Some r'"
      "lost_pong r' = map (\<lambda>lp. min 3 (lp + int 4)) (lost_pong example_record)"
      "num_copies_registered r' = num_copies_registered example_record -
         of_nat (length (filter (\<lambda>lp. lp < 3 \<and> 3 \<le> lp + int 4) (lost_pong example_record)))"
    by blast
  then show ?thesis by (intro exI [of _ db'] exI [of _ r']) (simp add: example_record_def)
qed

lemma unat_sub_of_nat: "k \<le> unat (c :: uint8) \<Longrightarrow> unat (c - of_nat k) = unat c - k"
  using uint8_le [of c] by (simp add: unat_sub word_le_nat_alt unat_of_nat)

text \<open>
  C29: The copy counters never wrap around while they cover the copies counted as alive: if no
  more copies are alive or have just come back than are registered, a heartbeat pass lowers
  both counters by exactly the number of copies it gives up, and both still cover the copies
  that are alive afterwards.
\<close>

theorem check_pong_counters_exact:
  assumes "db_inv db" and "services_db db s = Some r"
    and "num_alive r + num_revived r \<le> unat (num_copies_registered r)"
  shows "\<exists>db' r'. check_pong db s = Inr db' \<and> services_db db' s = Some r' \<and>
     unat (num_copies_registered r') = unat (num_copies_registered r) - num_dying r \<and>
     unat (num_copies_reliable r') = unat (num_copies_reliable r) - num_dying r \<and>
     num_dying r \<le> unat (num_copies_registered r) \<and> num_dying r \<le> unat (num_copies_reliable r) \<and>
     num_alive r' \<le> unat (num_copies_registered r') \<and> num_alive r' \<le> unat (num_copies_reliable r')"
proof -
  from db_invD [OF assms(1,2)] have r: "record_inv (unat (db_nmr db)) r" .
  then have len: "length (new_pong r) = unat (db_nmr db)" "length (lost_pong r) = unat (db_nmr db)"
    and range: "\<forall>lp \<in> set (lost_pong r). lp \<le> LIVENESS"
    and same: "num_copies_reliable r = num_copies_registered r" by (auto simp: record_inv_def)
  from record_inv_checked [OF r] obtain r' where r': "checked_record (db_nmr db) r = Inr r'" by blast
  have "check_pong db s = Inr (put_record db s r')" by (rule check_pong_op.oper_found [OF assms(2) r'])
  moreover have "num_dying r \<le> num_alive r" using len by (intro num_dying_le_alive) simp
  then have le: "num_dying r \<le> unat (num_copies_registered r)" "num_dying r \<le> unat (num_copies_reliable r)"
    using assms(3) same by simp_all
  moreover have "num_copies_registered r' = num_copies_registered r - of_nat (num_dying r)"
    "num_copies_reliable r' = num_copies_reliable r - of_nat (num_dying r)"
    "num_alive r' + num_dying r = num_alive r + num_revived r"
    using r' len range alive_balance [of "new_pong r" "lost_pong r"]
    by (auto simp: checked_record_eq num_alive_def num_dying_def num_revived_def)
  ultimately show ?thesis using assms(3) same
    by (intro exI [of _ "put_record db s r'"] exI [of _ r'] conjI) (simp_all add: unat_sub_of_nat)
qed

theorem check_pong_counters_exact_witness:
  "\<exists>db' r'. check_pong example_db 0 = Inr db' \<and> services_db db' 0 = Some r' \<and>
     unat (num_copies_registered r') = 3 \<and> unat (num_copies_reliable r') = 3 \<and> num_alive r' \<le> 3"
proof -
  have r: "services_db example_db 0 = Some example_record"
    and n: "num_alive example_record + num_revived example_record \<le> unat (num_copies_registered example_record)"
    and d: "num_dying example_record = 0"
    by (simp_all add: example_db_def example_record_def num_alive_def num_revived_def num_dying_def dying_def)
  from check_pong_counters_exact [OF example_db_inv r n] d show ?thesis
    by (auto simp: example_record_def)
qed

text \<open>
  Registration: with \<open>nmr\<close> at least 2, the first \<open>nmr\<close> registrations of a new service are
  all answered with the same fresh dealer port, exactly the last of them makes the service
  ready, the next dealer port is reserved once, and every further registration is refused
  with \<open>REG_FAIL\<close>.
\<close>

theorem registration_fills_group:
  assumes "services_db db (rg_service m) = None" and "cstring (rg_signature m) = Inr own"
    and "2 \<le> unat (db_nmr db)"
  shows "\<exists>db'. register_all db port (replicate (unat (db_nmr db)) m) =
       Inr (db', port + 1, replicate (unat (db_nmr db) - 1) (False, port) @ [(True, port)]) \<and>
     push_registration db' m (port + 1) = Inr (db', port + 1, False, REG_FAIL)"
proof -
  define n where "n = unat (db_nmr db)"
  have n: "2 \<le> n" "n \<le> 255" using assms(3) uint8_le [of "db_nmr db"] by (simp_all add: n_def)
  from assms(1,2) obtain db1 r where reg: "push_registration db m port = Inr (db1, port + 1, False, port)"
    and r: "services_db db1 (rg_service m) = Some r" "num_copies_registered r = 1" "dealer_socket r = port"
    and nmr: "db_nmr db1 = db_nmr db"
    by (simp add: push_registration_def Let_def)
  have "unat (num_copies_registered r) + (n - 1) \<le> unat (db_nmr db1)" using n r nmr by (simp add: n_def)
  from register_more [OF r(1) this, of "port + 1"] obtain r'
    where more: "register_all db1 (port + 1) (replicate (n - 1) m) =
        Inr (put_record db1 (rg_service m) r', port + 1, map (\<lambda>i. (Suc (Suc i) = n, port)) [0..<n - 1])"
      and r': "num_copies_registered r' = 1 + of_nat (n - 1)"
    using n r nmr by (auto simp: n_def)
  have "map (\<lambda>i. (Suc (Suc i) = n, port)) [0..<n - 1] = replicate (n - 2) (False, port) @ [(True, port)]"
    using n by (intro nth_equalityI) (auto simp: nth_append)
  moreover have "replicate n m = m # replicate (n - 1) m" using n by (cases n) simp_all
  moreover have "of_nat n = (1 + of_nat (n - 1) :: uint8)" using n by (cases n) simp_all
  then have "num_copies_registered r' = db_nmr db1" by (simp add: r' nmr n_def)
  then have "push_registration (put_record db1 (rg_service m) r') m (port + 1) =
      Inr (put_record db1 (rg_service m) r', port + 1, False, REG_FAIL)"
    by (simp add: push_registration_def)
  moreover have "(False, port) # replicate (n - 2) (False, port) = replicate (n - 1) (False, port)"
    using n by (cases "n - 1") (simp_all add: numeral_2_eq_2)
  ultimately show ?thesis using reg more
    by (intro exI [of _ "put_record db1 (rg_service m) r'"]) (simp flip: n_def)
qed

theorem registration_fills_group_witness:
  "\<exists>db'. register_all (init_db 3) 6000 (replicate 3 \<lparr>rg_signature = [112, 0], rg_service = 0\<rparr>) =
     Inr (db', 6001, [(False, 6000), (False, 6000), (True, 6000)])"
proof -
  let ?m = "\<lparr>rg_signature = [112, 0], rg_service = 0\<rparr> :: registration_module"
  have "services_db (init_db 3) (rg_service ?m) = None" "cstring (rg_signature ?m) = Inr ''p''"
    "2 \<le> unat (db_nmr (init_db 3))" by code_simp+
  moreover have "unat (db_nmr (init_db 3)) = 3" "replicate (3 - 1) (False, 6000 :: uint16) = [(False, 6000), (False, 6000)]"
    "(6000 :: uint16) + 1 = 6001" by code_simp+
  ultimately show ?thesis using registration_fills_group [of "init_db 3" ?m "''p''" 6000] by (auto simp only: append.simps)
qed

text \<open>
  With \<open>nmr = 1\<close> a service never becomes ready: the branch for a new service does not
  compare the number of copies with \<open>nmr\<close>, and the second registration is already refused.
\<close>

theorem single_copy_never_ready:
  assumes "db_nmr db = 1" and "\<forall>s r. services_db db s = Some r \<longrightarrow> num_copies_registered r = 1"
    and "register_all db port ms = Inr (db', port', outs)"
  shows "\<forall>out \<in> set outs. \<not> fst out"
  using assms
proof (induction ms arbitrary: db port outs)
  case (Cons m ms)
  then obtain db1 port1 ready ret outs1
    where reg: "push_registration db m port = Inr (db1, port1, ready, ret)"
      and rest: "register_all db1 port1 ms = Inr (db', port', outs1)" and outs: "outs = (ready, ret) # outs1"
    by (auto simp: rbind_Inr_iff)
  from reg Cons.prems(1,2) have "db_nmr db1 = 1" "\<not> ready"
    and "\<forall>s r. services_db db1 s = Some r \<longrightarrow> num_copies_registered r = 1"
    by (auto simp: push_registration_def rbind_Inr_iff Let_def split: option.splits if_splits)
  with Cons.IH [OF _ _ rest] outs show ?case by simp
qed simp

theorem single_copy_never_ready_witness:
  "\<exists>db' port'. register_all (init_db 1) 6000 (replicate 2 \<lparr>rg_signature = [112, 0], rg_service = 0\<rparr>) =
     Inr (db', port', [(False, 6000), (False, 0)]) \<and> (\<forall>out \<in> set [(False, 6000 :: uint16), (False, 0)]. \<not> fst out)"
proof -
  let ?ms = "replicate 2 \<lparr>rg_signature = [112, 0], rg_service = 0\<rparr> :: registration_module list"
  have "(case register_all (init_db 1) 6000 ?ms of Inl _ \<Rightarrow> [] | Inr (_, _, outs) \<Rightarrow> outs) =
      [(False, 6000), (False, 0)]" by code_simp
  then obtain db' port' where "register_all (init_db 1) 6000 ?ms = Inr (db', port', [(False, 6000), (False, 0)])"
    by (auto split: sum.splits)
  with single_copy_never_ready [of "init_db 1" 6000 ?ms] show ?thesis by (auto simp: init_db_def)
qed

text \<open>
  A result that arrives for a pending request is stored and can be read back:
  \<open>push_result\<close> appends it to the results of that client, reports their new number, and
  \<open>get_result\<close> then returns them in order of arrival; no other client's results change.
\<close>

theorem push_result_get_result:
  assumes "services_db db (sr_service reply) = Some r"
    and "distinct (map client_id (request_records r))"
    and "lookup_request (request_records r) cid = Some xs"
  shows "\<exists>db'. push_result db reply cid = Inr (db', int (Suc (length xs))) \<and>
     get_result db' (sr_service reply) cid = Inr (xs @ [sr_result reply]) \<and>
     (\<forall>c r'. c \<noteq> cid \<and> services_db db' (sr_service reply) = Some r' \<longrightarrow>
        lookup_request (request_records r') c = lookup_request (request_records r) c)"
proof -
  from pending.add_known [OF assms(2,3)] obtain qs
    where qs: "push_loop cid (sr_result reply) (request_records r) (- 1) = (qs, int (Suc (length xs)))"
      "lookup_request qs = (lookup_request (request_records r))(cid \<mapsto> xs @ [sr_result reply])"
      "get_loop cid qs [] = xs @ [sr_result reply]"
    by metis
  show ?thesis
    by (rule exI [of _ "put_record db (sr_service reply) (r\<lparr>request_records := qs\<rparr>)"])
       (simp add: push_result_def get_result_def assms(1) qs)
qed

definition example_request :: "uint32 \<Rightarrow> int32 list \<Rightarrow> request_record_t" where
  "example_request cid xs =
     \<lparr>client_id = cid, results = xs, rr_service = 0, rr_timeout = \<lparr>tv_sec = 0, tv_nsec = 0\<rparr>\<rparr>"

definition example_reply :: "service_type_t \<Rightarrow> int32 \<Rightarrow> server_reply_t" where
  "example_reply s v = \<lparr>sr_heartbeat = False, sr_duplicated = False, sr_pad = 0, sr_result = v,
     sr_service = s, sr_id = 0, sr_pad_end = 0\<rparr>"

definition example_pending :: "request_record_t list \<Rightarrow> service_database" where
  "example_pending qs = put_record example_db 0 (example_record\<lparr>request_records := qs\<rparr>)"

theorem push_result_get_result_witness:
  "\<exists>db'. push_result (example_pending [example_request 5 [7], example_request 6 []]) (example_reply 0 9) 5 =
       Inr (db', 2) \<and> get_result db' 0 5 = Inr [7, 9]"
proof -
  let ?qs = "[example_request 5 [7], example_request 6 []]"
  have "services_db (example_pending ?qs) (sr_service (example_reply 0 9)) = Some (example_record\<lparr>request_records := ?qs\<rparr>)"
    "distinct (map client_id (request_records (example_record\<lparr>request_records := ?qs\<rparr>)))"
    "lookup_request (request_records (example_record\<lparr>request_records := ?qs\<rparr>)) 5 = Some [7]"
    by (simp_all add: example_pending_def example_reply_def example_request_def lookup_request_def)
  from push_result_get_result [OF this] show ?thesis by (auto simp: example_reply_def)
qed

fun adjacent_requests :: "uint32 \<Rightarrow> request_record_t list \<Rightarrow> bool" where
  "adjacent_requests cid (q # p # qs) \<longleftrightarrow> client_id q = cid \<and> client_id p = cid \<or> adjacent_requests cid (p # qs)"
| "adjacent_requests cid _ \<longleftrightarrow> False"

lemma adjacent_requests_tl: "client_id p \<noteq> cid \<Longrightarrow> adjacent_requests cid (p # qs) = adjacent_requests cid qs"
  by (cases qs) simp_all

lemma adjacent_requests_distinct: "distinct (map client_id qs) \<Longrightarrow> \<not> adjacent_requests cid qs"
  by (induction cid qs rule: adjacent_requests.induct) auto

lemma filter_erase_skip: "filter (\<lambda>q. client_id q \<noteq> cid) (erase_skip cid qs) = filter (\<lambda>q. client_id q \<noteq> cid) qs"
  by (induction cid qs rule: erase_skip.induct) auto

lemma erase_skip_clean_iff: "cid \<in> clients (erase_skip cid qs) \<longleftrightarrow> adjacent_requests cid qs"
proof (induction cid qs rule: erase_skip.induct)
  case (3 cid q p qs)
  then show ?case
    by (cases "client_id q = cid"; cases "client_id p = cid") (auto simp: clients_def adjacent_requests_tl)
qed (simp_all add: clients_def)

text \<open>
  C28: What deleting a request does, for every list of pending requests. The requests of all
  other clients and services are kept, in order. Those of the client are all removed if and only
  if no two of them are adjacent, as when client identifiers are distinct, because the loop
  skips the element after an erased one; and exactly then a result that arrives late for the
  client is reported as unknown and leaves the database as it is.
\<close>

theorem delete_request_exact:
  assumes "services_db db s = Some r"
  shows "\<exists>db' r'. delete_request db s cid = Inr db' \<and> services_db db' s = Some r' \<and>
     (\<forall>t. t \<noteq> s \<longrightarrow> services_db db' t = services_db db t) \<and>
     filter (\<lambda>q. client_id q \<noteq> cid) (request_records r') = filter (\<lambda>q. client_id q \<noteq> cid) (request_records r) \<and>
     ((\<forall>q \<in> set (request_records r'). client_id q \<noteq> cid) \<longleftrightarrow> \<not> adjacent_requests cid (request_records r)) \<and>
     (distinct (map client_id (request_records r)) \<longrightarrow> \<not> adjacent_requests cid (request_records r)) \<and>
     (\<not> adjacent_requests cid (request_records r) \<longrightarrow>
        (\<forall>reply. sr_service reply = s \<longrightarrow> push_result db' reply cid = Inr (db', - 1)))"
proof -
  let ?qs = "erase_skip cid (request_records r)"
  let ?r = "r\<lparr>request_records := ?qs\<rparr>"
  have del: "delete_request db s cid = Inr (put_record db s ?r)"
    using assms by (simp add: delete_request_def erase_loop_eq)
  have clean: "(\<forall>q \<in> set ?qs. client_id q \<noteq> cid) \<longleftrightarrow> \<not> adjacent_requests cid (request_records r)"
    using erase_skip_clean_iff [of cid "request_records r"] by (auto simp: clients_def)
  have "push_result (put_record db s ?r) reply cid = Inr (put_record db s ?r, - 1)"
    if "\<not> adjacent_requests cid (request_records r)" "sr_service reply = s" for reply
  proof -
    have "cid \<notin> clients ?qs" using that(1) by (simp add: erase_skip_clean_iff)
    then show ?thesis using that(2) by (simp add: push_result_def push_loop_absent)
  qed
  then show ?thesis using del clean adjacent_requests_distinct
    by (intro exI [of _ "put_record db s ?r"] exI [of _ ?r]) (simp add: filter_erase_skip)
qed

theorem delete_request_exact_witness:
  "\<exists>db' r'. delete_request (example_pending [example_request 5 [7], example_request 6 []]) 0 5 = Inr db' \<and>
     services_db db' 0 = Some r' \<and> request_records r' = [example_request 6 []] \<and>
     push_result db' (example_reply 0 9) 5 = Inr (db', - 1)"
proof -
  let ?qs = "[example_request 5 [7], example_request 6 []]"
  have r: "services_db (example_pending ?qs) 0 = Some (example_record\<lparr>request_records := ?qs\<rparr>)"
    and reply: "sr_service (example_reply 0 9) = 0"
    by (simp_all add: example_pending_def example_reply_def)
  from delete_request_exact [OF r, of 5] obtain db' r' where "delete_request (example_pending ?qs) 0 5 = Inr db'"
    "services_db db' 0 = Some r'" "filter (\<lambda>q. client_id q \<noteq> 5) (request_records r') = [example_request 6 []]"
    "\<forall>q \<in> set (request_records r'). client_id q \<noteq> 5" "\<forall>reply. sr_service reply = 0 \<longrightarrow> push_result db' reply 5 = Inr (db', - 1)"
    by (fastforce simp: example_request_def)
  with reply show ?thesis by (auto simp: filter_id_conv)
qed

text \<open>
  With two adjacent requests of the same client the deletion loop skips the second one,
  because it advances past the element that moved into the erased place.
\<close>

theorem delete_request_skips_adjacent:
  assumes "services_db db s = Some r" and "request_records r = qs1 @ [q1, q2] @ qs2"
    and "client_id q1 = cid" and "client_id q2 = cid" and "cid \<notin> clients qs1" and "cid \<notin> clients qs2"
  shows "\<exists>db' r'. delete_request db s cid = Inr db' \<and> services_db db' s = Some r' \<and>
     request_records r' = qs1 @ [q2] @ qs2"
proof -
  have "erase_skip cid (qs1 @ [q1, q2] @ qs2) = qs1 @ [q2] @ qs2"
    using assms(5)
  proof (induction qs1)
    case Nil
    then show ?case using assms(3,6) by (simp add: erase_skip_absent)
  next
    case (Cons q qs)
    then show ?case by (cases qs) (auto simp: clients_def)
  qed
  then show ?thesis using assms(1,2) by (simp add: delete_request_def erase_loop_eq)
qed

theorem delete_request_skips_adjacent_witness:
  "\<exists>db' r'. delete_request (example_pending [example_request 5 [7], example_request 5 []]) 0 5 = Inr db' \<and>
     services_db db' 0 = Some r' \<and> request_records r' = [example_request 5 []]"
  using delete_request_skips_adjacent
    [of "example_pending [example_request 5 [7], example_request 5 []]" 0
       "example_record\<lparr>request_records := [example_request 5 [7], example_request 5 []]\<rparr>"
       "[]" "example_request 5 [7]" "example_request 5 []" "[]" 5]
  by (simp add: example_pending_def example_request_def clients_def)

text \<open>
  The loop of a heartbeat pass, which updates three vectors and two counters in place, is
  equivalent to a pointwise pass: every copy is aged on its own by \<open>age_pong\<close>, all pong flags
  are cleared, both counters drop by the number of copies that die in this pass, and the ping
  number grows by one; no other service is touched.
\<close>

theorem check_pong_pointwise:
  assumes "db_inv db" and "services_db db s = Some r"
  shows "check_pong db s = Inr (put_record db s
     (r\<lparr>new_pong := map (\<lambda>_. False) (new_pong r), lost_pong := map2 age_pong (new_pong r) (lost_pong r),
        num_copies_reliable := num_copies_reliable r - of_nat (length (filter (\<lambda>(np, lp). dying np lp) (zip (new_pong r) (lost_pong r)))),
        num_copies_registered := num_copies_registered r - of_nat (length (filter (\<lambda>(np, lp). dying np lp) (zip (new_pong r) (lost_pong r)))),
        seq_id_ping := seq_id_ping r + 1\<rparr>))"
proof -
  from db_invD [OF assms] have "length (new_pong r) = unat (db_nmr db)" "length (lost_pong r) = unat (db_nmr db)"
    by (simp_all add: record_inv_def)
  with assms(2) show ?thesis
    by (simp add: check_pong_op.oper_eq checked_record_eq num_dying_def map_replicate_const)
qed

theorem check_pong_pointwise_witness:
  "check_pong example_db 0 = Inr (put_record example_db 0
     (example_record\<lparr>new_pong := [False, False, False], lost_pong := [0, 0, 0], seq_id_ping := 0\<rparr>))"
proof -
  have r: "services_db example_db 0 = Some example_record" by (simp add: example_db_def)
  from check_pong_pointwise [OF example_db_inv r] show ?thesis by (simp add: example_record_def age_pong_def dying_def)
qed

end
