(* ===== verification/RSF_Log.thy ===== *)
theory RSF_Log
  imports RSF_Broker RSF_Database_Facts
begin

text \<open>
  Log output: \<open>write_log\<close> of \<^verbatim>\<open>src/utilities/util.cpp\<close> in the configuration the sources
  have (\<^verbatim>\<open>CONSOLE_LOG\<close> is not defined, so a row goes to a file), \<open>print_htable\<close> of the service
  database and \<open>print_available_services\<close> of the broker. \<open>localtime\<close> belongs to the system
  library and is a parameter, and so is the order in which the hash table is traversed. A file
  in an existing directory is assumed to be writable. The
  handlers of the other theories leave their log calls out: no state depends on them.
\<close>

section \<open>Log rows\<close>

record tm =
  tm_year :: int
  tm_mon :: int
  tm_mday :: int
  tm_hour :: int
  tm_min :: int
  tm_sec :: int

abbreviation (input) ABS_YEAR :: int where "ABS_YEAR \<equiv> 1900"

definition show_int :: "int \<Rightarrow> string" where
  "show_int i = (if i < 0 then ''-'' @ show_nat (nat (- i)) else show_nat (nat i))"

definition newline :: string where
  "newline = [char_of (10 :: nat)]"

definition log_row :: "(timespec \<Rightarrow> tm) \<Rightarrow> timespec \<Rightarrow> string \<Rightarrow> string \<Rightarrow> string" where
  "log_row localtime now who what =
     (let t = localtime now
      in show_int (tm_year t + ABS_YEAR) @ ''-'' @ show_int (tm_mon t + 1) @ ''-'' @ show_int (tm_mday t) @ ''_'' @
         show_int (tm_hour t) @ '':'' @ show_int (tm_min t) @ '':'' @ show_int (tm_sec t) @ ''.'' @
         show_int (tv_nsec now div 1000000) @ '' '' @ who @ '' '' @ what @ newline)"

text \<open>The log directory and the contents of its files. A row is lost when there is no directory.\<close>

record log_files =
  log_dir :: bool
  log_file :: "string \<rightharpoonup> string"

definition write_log ::
    "(timespec \<Rightarrow> tm) \<Rightarrow> timespec \<Rightarrow> bool \<Rightarrow> string \<Rightarrow> string \<Rightarrow> log_files \<Rightarrow> log_files" where
  "write_log localtime now mkdir_ok who what fs =
     (let row = log_row localtime now who what;
          fs1 = (if \<not> log_dir fs then fs\<lparr>log_dir := mkdir_ok\<rparr> else fs);
          name = ''log/'' @ who @ ''.txt''
      in if log_dir fs1
         then fs1\<lparr>log_file := (log_file fs1)(name \<mapsto>
                (case log_file fs1 name of None \<Rightarrow> [] | Some txt \<Rightarrow> txt) @ row)\<rparr>
         else fs1)"

section \<open>The hash table and the offered services\<close>

text \<open>
  \<open>print_htable\<close> collects text in one stream that is never emptied, and one flag, never reset,
  says that some request has been printed. The result is the rows handed to \<open>write_log\<close>.
\<close>

definition describe_service :: "service_type_t \<Rightarrow> service_record \<Rightarrow> string" where
  "describe_service s r =
     ''Service: '' @ show_nat (unat s) @ '' Owner: '' @ owner r @ '' Copies: '' @
     show_nat (unat (num_copies_reliable r)) @ '' Socket: '' @ show_nat (unat (dealer_socket r))"

definition describe_request :: "request_record_t \<Rightarrow> string" where
  "describe_request q =
     '' Client id '' @ show_nat (unat (client_id q)) @ '' Voter values '' @
     concat (map (\<lambda>v. to_string v @ '' '') (results q))"

fun htable_requests :: "request_record_t list \<Rightarrow> string \<Rightarrow> bool \<Rightarrow> string list \<times> string \<times> bool" where
  "htable_requests [] ss log = ([], ss, log)"
| "htable_requests (q # qs) ss log =
     (let ss1 = ss @ describe_request q;
          (rows, ss2, log2) = htable_requests qs ss1 True
      in (ss1 # rows, ss2, log2))"

fun htable_loop :: "(service_type_t \<times> service_record) list \<Rightarrow> string \<Rightarrow> bool \<Rightarrow> string list" where
  "htable_loop [] ss log = []"
| "htable_loop ((s, r) # srs) ss log =
     (let (rows, ss1, log1) = htable_requests (request_records r) (ss @ describe_service s r) log
      in rows @ (if \<not> log1 then [ss1] else []) @ htable_loop srs ss1 log1)"

definition print_htable :: "service_type_t list \<Rightarrow> service_database \<Rightarrow> string list" where
  "print_htable order db =
     htable_loop (map (\<lambda>s. (s, the (services_db db s))) (filter (\<lambda>s. s \<in> dom (services_db db)) order)) [] False"

definition print_available_services :: "broker \<Rightarrow> string list" where
  "print_available_services b = map (\<lambda>s. ''Service '' @ show_nat (unat s)) (available_services b)"

section \<open>Lemmas\<close>

lemma htable_requests_logged:
  "htable_requests qs ss log = (rows, ss', log') \<Longrightarrow>
     length rows = length qs \<and> ss' = ss @ concat (map describe_request qs) \<and> log' = (log \<or> qs \<noteq> [])"
proof (induction qs arbitrary: ss log rows ss' log')
  case (Cons q qs)
  obtain rows1 ss1 log1 where step: "htable_requests qs (ss @ describe_request q) True = (rows1, ss1, log1)"
    by (cases "htable_requests qs (ss @ describe_request q) True") auto
  from Cons.IH [OF this] Cons.prems step show ?case by (auto simp: Let_def)
qed auto

lemma htable_loop_idle:
  assumes "\<forall>(s, r) \<in> set srs. request_records r = []"
  shows "htable_loop srs ss False =
     map (\<lambda>i. ss @ concat (map (\<lambda>(s, r). describe_service s r) (take (Suc i) srs))) [0..<length srs]"
  using assms
proof (induction srs arbitrary: ss)
  case (Cons sr srs)
  obtain s r where sr: "sr = (s, r)" by (cases sr)
  have "htable_loop (sr # srs) ss False = (ss @ describe_service s r) # htable_loop srs (ss @ describe_service s r) False"
    using Cons.prems by (simp add: sr)
  also have "htable_loop srs (ss @ describe_service s r) False =
      map (\<lambda>i. ss @ concat (map (\<lambda>(s, r). describe_service s r) (take (Suc (Suc i)) (sr # srs)))) [0..<length srs]"
    using Cons.IH [of "ss @ describe_service s r"] Cons.prems by (simp add: sr)
  finally show ?case by (simp add: sr map_upt_Suc o_def del: upt_Suc)
qed simp

lemma htable_loop_silent: "length (htable_loop srs ss True) = length (concat (map (\<lambda>(s, r). request_records r) srs))"
proof (induction srs arbitrary: ss)
  case (Cons sr srs)
  obtain s r where sr: "sr = (s, r)" by (cases sr)
  obtain rows ss1 log1 where step: "htable_requests (request_records r) (ss @ describe_service s r) True = (rows, ss1, log1)"
    by (cases "htable_requests (request_records r) (ss @ describe_service s r) True") auto
  from htable_requests_logged [OF this] Cons show ?case by (simp add: sr step)
qed simp

section \<open>Properties\<close>

text \<open>
  A series of log calls, by any writers: the time of the call, whether the directory could be
  made, the writer and the text.
\<close>

type_synonym log_call = "timespec \<times> bool \<times> string \<times> string"

definition write_logs :: "(timespec \<Rightarrow> tm) \<Rightarrow> log_call list \<Rightarrow> log_files \<Rightarrow> log_files" where
  "write_logs localtime calls fs = fold (\<lambda>(now, mkdir_ok, who, what). write_log localtime now mkdir_ok who what) calls fs"

definition file_text :: "log_files \<Rightarrow> string \<Rightarrow> string" where
  "file_text fs name = (case log_file fs name of None \<Rightarrow> [] | Some txt \<Rightarrow> txt)"

lemma write_log_no_dir: "\<not> log_dir fs \<Longrightarrow> write_log localtime now False who what fs = fs"
  by (simp add: write_log_def Let_def)

lemma write_log_dir:
  assumes "log_dir fs \<or> mkdir_ok"
  shows "log_dir (write_log localtime now mkdir_ok who what fs)"
    and "file_text (write_log localtime now mkdir_ok who what fs) name =
      file_text fs name @ (if name = ''log/'' @ who @ ''.txt'' then log_row localtime now who what else [])"
  using assms by (auto simp: write_log_def file_text_def Let_def)

lemma write_logs_dir:
  "log_dir fs \<Longrightarrow> file_text (write_logs localtime calls fs) name =
     file_text fs name @ concat (map (\<lambda>(now, mkdir_ok, who, what). log_row localtime now who what)
       (filter (\<lambda>(now, mkdir_ok, who, what). name = ''log/'' @ who @ ''.txt'') calls))"
proof (induction calls arbitrary: fs)
  case (Cons c calls)
  obtain now ok who what where c: "c = (now, ok, who, what)" by (cases c)
  let ?fs = "write_log localtime now ok who what fs"
  have "log_dir ?fs" using Cons.prems by (simp add: write_log_dir)
  from Cons.IH [OF this] show ?case
    using Cons.prems write_log_dir(2) [of fs ok localtime now who what name] by (simp add: write_logs_def c)
qed (simp add: write_logs_def)

text \<open>
  C31: No row is lost or torn once the log directory exists. After any series of log calls by
  any writers, the file of a writer holds what it held before and then, in the order of the
  calls, exactly the complete rows of this writer: all of them when the directory exists, else
  those from the first call on that could make it, because the rows of the calls before are
  lost. A file that is no writer's is untouched.
\<close>

theorem write_log_appends:
  "file_text (write_logs localtime calls fs) (''log/'' @ w @ ''.txt'') =
     file_text fs (''log/'' @ w @ ''.txt'') @
       concat (map (\<lambda>(now, mkdir_ok, who, what). log_row localtime now who what)
         (filter (\<lambda>(now, mkdir_ok, who, what). who = w)
           (if log_dir fs then calls else dropWhile (\<lambda>(now, mkdir_ok, who, what). \<not> mkdir_ok) calls))) \<and>
   ((\<forall>(now, mkdir_ok, who, what) \<in> set calls. name \<noteq> ''log/'' @ who @ ''.txt'') \<longrightarrow>
     file_text (write_logs localtime calls fs) name = file_text fs name)"
proof -
  have logs: "file_text (write_logs localtime calls fs) name =
      file_text fs name @ concat (map (\<lambda>(now, mkdir_ok, who, what). log_row localtime now who what)
        (filter (\<lambda>(now, mkdir_ok, who, what). name = ''log/'' @ who @ ''.txt'')
          (if log_dir fs then calls else dropWhile (\<lambda>(now, mkdir_ok, who, what). \<not> mkdir_ok) calls)))" for name
  proof (induction calls arbitrary: fs)
    case (Cons c calls)
    obtain now ok who what where c: "c = (now, ok, who, what)" by (cases c)
    show ?case
    proof (cases "log_dir fs \<or> ok")
      case True
      let ?fs = "write_log localtime now ok who what fs"
      from write_logs_dir [OF write_log_dir(1) [OF True], of localtime calls localtime now who what name]
      have "file_text (write_logs localtime (c # calls) fs) name = file_text ?fs name @
          concat (map (\<lambda>(now, mkdir_ok, who, what). log_row localtime now who what)
            (filter (\<lambda>(now, mkdir_ok, who, what). name = ''log/'' @ who @ ''.txt'') calls))"
        by (simp add: write_logs_def c)
      with True write_log_dir(2) [OF True] show ?thesis by (auto simp: c)
    next
      case False
      with Cons.IH [of fs] show ?thesis by (simp add: write_logs_def c write_log_no_dir)
    qed
  qed (simp add: write_logs_def)
  have kept: "set (if log_dir fs then calls else dropWhile (\<lambda>(now, mkdir_ok, who, what). \<not> mkdir_ok) calls) \<subseteq> set calls"
    by (auto dest: set_dropWhileD)
  show ?thesis
  proof (intro conjI impI)
    assume other: "\<forall>(now, mkdir_ok, who, what) \<in> set calls. name \<noteq> ''log/'' @ who @ ''.txt''"
    with kept have "filter (\<lambda>(now, mkdir_ok, who, what). name = ''log/'' @ who @ ''.txt'')
        (if log_dir fs then calls else dropWhile (\<lambda>(now, mkdir_ok, who, what). \<not> mkdir_ok) calls) = []"
      by (fastforce simp: filter_empty_conv)
    with logs [of name] show "file_text (write_logs localtime calls fs) name = file_text fs name" by simp
  qed (use logs [of "''log/'' @ w @ ''.txt''"] in \<open>simp add: eq_commute\<close>)
qed

theorem write_log_appends_witness:
  "file_text (write_logs (\<lambda>_. \<lparr>tm_year = 117, tm_mon = 0, tm_mday = 1, tm_hour = 0, tm_min = 0, tm_sec = 0\<rparr>)
      [(\<lparr>tv_sec = 0, tv_nsec = 5000000\<rparr>, True, ''Broker'', ''Service 0'')] \<lparr>log_dir = False, log_file = Map.empty\<rparr>) ''log/Server.txt'' = []"
  using write_log_appends [of "\<lambda>_. \<lparr>tm_year = 117, tm_mon = 0, tm_mday = 1, tm_hour = 0, tm_min = 0, tm_sec = 0\<rparr>"
      "[(\<lparr>tv_sec = 0, tv_nsec = 5000000\<rparr>, True, ''Broker'', ''Service 0'')]" "\<lparr>log_dir = False, log_file = Map.empty\<rparr>"
      "''Broker''" "''log/Server.txt''"]
  by (simp add: file_text_def)

text \<open>
  What \<open>print_htable\<close> writes of the services: as long as no request is waiting, there is one
  row per service, and the \<open>i\<close>-th row repeats all services before it, because the text is
  never emptied; but once a request has been printed, a service without requests gets no row
  of its own any more, because the flag is never reset: from then on there are exactly as many
  rows as requests.
\<close>

theorem print_htable_rows:
  assumes "\<forall>s \<in> set order. \<exists>r. services_db db s = Some r"
  shows "((\<forall>s \<in> set order. request_records (the (services_db db s)) = []) \<longrightarrow>
       print_htable order db = map (\<lambda>i. concat (map (\<lambda>s. describe_service s (the (services_db db s))) (take (Suc i) order)))
         [0..<length order]) \<and>
     (order \<noteq> [] \<and> request_records (the (services_db db (hd order))) \<noteq> [] \<longrightarrow>
       length (print_htable order db) = length (concat (map (\<lambda>s. request_records (the (services_db db s))) order)))"
proof (intro conjI impI)
  have all: "filter (\<lambda>s. s \<in> dom (services_db db)) order = order" using assms by (simp add: filter_id_conv domIff)
  show "print_htable order db = map (\<lambda>i. concat (map (\<lambda>s. describe_service s (the (services_db db s))) (take (Suc i) order)))
         [0..<length order]" if "\<forall>s \<in> set order. request_records (the (services_db db s)) = []"
    using that htable_loop_idle [of "map (\<lambda>s. (s, the (services_db db s))) order" "[]"]
    by (simp add: print_htable_def all take_map o_def)
  assume first: "order \<noteq> [] \<and> request_records (the (services_db db (hd order))) \<noteq> []"
  then obtain s ss where order: "order = s # ss" by (cases order) auto
  let ?r = "the (services_db db s)"
  obtain rows ss1 log1 where step: "htable_requests (request_records ?r) (describe_service s ?r) False = (rows, ss1, log1)"
    by (cases "htable_requests (request_records ?r) (describe_service s ?r) False") auto
  note logged = htable_requests_logged [OF step]
  with first have "log1" by (simp add: order)
  then show "length (print_htable order db) = length (concat (map (\<lambda>s. request_records (the (services_db db s))) order))"
    using logged step htable_loop_silent [of "map (\<lambda>s. (s, the (services_db db s))) ss" ss1] all
    unfolding print_htable_def by (simp add: order o_def)
qed

theorem print_htable_rows_witness:
  "length (print_htable [0, 1] (put_record (example_pending [example_request 5 [7]]) 1 example_record)) = 1"
proof -
  let ?db = "put_record (example_pending [example_request 5 [7]]) 1 example_record"
  have "services_db ?db 0 = Some (example_record\<lparr>request_records := [example_request 5 [7]]\<rparr>)"
    "services_db ?db 1 = Some example_record" "request_records example_record = []"
    by (simp_all add: example_pending_def example_db_def example_record_def)
  with print_htable_rows [of "[0, 1]" ?db] show ?thesis by simp
qed

end
