(* ===== verification/RSF_Broker_Inv.thy ===== *)
theory RSF_Broker_Inv
  imports RSF_Broker RSF_Database_Facts
begin

text \<open>
  The structural invariant of the broker and that every handler and the main loop keep it.
\<close>

section \<open>The invariant\<close>

definition broker_inv :: "broker \<Rightarrow> bool" where
  "broker_inv b \<longleftrightarrow>
     db_nmr (b_db b) = b_nmr b \<and> db_inv (b_db b) \<and>
     distinct (available_services b) \<and>
     length (timeouts b) = length (available_services b) \<and>
     length (dealer b) = length (available_services b) \<and>
     poll_items b = [Router, Reg, Hc] @ map Dealer [0..<length (dealer b)] \<and>
     set (available_services b) \<subseteq> dom (services_db (b_db b))"

named_theorems broker_frame \<open>fields a handler leaves alone\<close>

lemma broker_inv_io [simp]:
  "broker_inv (b\<lparr>sent := es\<rparr>) = broker_inv b"
  "broker_inv (b\<lparr>ticks := n\<rparr>) = broker_inv b"
  "broker_inv (b\<lparr>b_now := t\<rparr>) = broker_inv b"
  by (simp_all add: broker_inv_def)

lemma db_step_dom:
  assumes "db_step db db'"
  shows "dom (services_db db) \<subseteq> dom (services_db db')"
  using assms
proof cases
  case (registration rm port port' ready ret)
  then show ?thesis
    by (auto simp: push_registration_def rbind_Inr_iff Let_def split: option.splits if_splits)
next
  case (add_result reply cid ret)
  then show ?thesis by (auto simp: push_result_def split: option.splits prod.splits)
next
  case (request_id s n)
  then show ?thesis by (auto simp: get_request_id_def split: option.splits)
qed (auto dest: push_request_op.oper_frame(3) delete_request_op.oper_frame(3) register_pong_op.oper_frame(3)
    check_pong_op.oper_frame(3))

lemma broker_inv_db_step:
  assumes "broker_inv b" "db_step (b_db b) db'"
  shows "broker_inv (b\<lparr>b_db := db'\<rparr>)"
proof -
  have "db_inv db' \<and> db_nmr db' = b_nmr b"
    using assms by (intro db_steps.step_inv [OF assms(2)]) (simp add: broker_inv_def)
  moreover have "set (available_services b) \<subseteq> dom (services_db db')"
    using assms(1) db_step_dom [OF assms(2)] unfolding broker_inv_def by blast
  ultimately show ?thesis using assms(1) by (simp add: broker_inv_def)
qed

section \<open>Sends, the clock and timeouts\<close>

lemma index_of_mem: "x \<in> set xs \<Longrightarrow> index_of x xs < length xs \<and> xs ! index_of x xs = x"
  by (induction xs) auto

lemma index_of_not_mem: "x \<notin> set xs \<Longrightarrow> index_of x xs = length xs"
  by (induction xs) auto

lemma index_of_nth: "distinct xs \<Longrightarrow> i < length xs \<Longrightarrow> index_of (xs ! i) xs = i"
proof (induction xs arbitrary: i)
  case (Cons x xs)
  then show ?case by (cases i) (auto simp: nth_eq_iff_index_eq)
qed simp

lemma router_send_eq:
  "routable env f \<Longrightarrow> router_send env [f, g, h] b =
     Inr (b\<lparr>sent := sent b @ [(Router, f, True), (Router, g, True), (Router, h, False)]\<rparr>)"
  by (simp add: router_send_def)

lemma router_send_unroutable: "\<not> routable env f \<Longrightarrow> router_send env [f, g, h] b = Inl Zmq_Error"
  by (simp add: router_send_def)

lemma router_send_inv [inv_intros]: "router_send env msg b = Inr b' \<Longrightarrow> broker_inv b \<Longrightarrow> broker_inv b'"
  by (auto simp: router_send_def rbind_Inr_iff split: if_splits)

lemma send_copies_eq:
  "i < length (dealer b) \<Longrightarrow> send_copies n i [f, g, h] b =
     Inr (b\<lparr>sent := sent b @ concat (replicate n [(Dealer i, f, True), (Dealer i, g, True), (Dealer i, h, False)])\<rparr>)"
  by (induction n arbitrary: b) simp_all

lemma send_copies_out_of_range:
  "length (dealer b) \<le> i \<Longrightarrow> send_copies (Suc n) i msg b = Inl Undefined_Behaviour"
  by (simp add: vec_get_ge)

lemma send_copies_frame:
  "send_copies n i msg b = Inr b' \<Longrightarrow> \<exists>es. b' = b\<lparr>sent := sent b @ es\<rparr>"
proof (induction n arbitrary: b)
  case 0
  then show ?case by (intro exI [of _ "[]"]) simp
next
  case (Suc n)
  then obtain es where "send_copies n i msg (b\<lparr>sent := sent b @ es\<rparr>) = Inr b'"
    by (auto simp: rbind_Inr_iff)
  with Suc.IH show ?case by fastforce
qed

lemma send_copies_inv [inv_intros]: "send_copies n i msg b = Inr b' \<Longrightarrow> broker_inv b \<Longrightarrow> broker_inv b'"
  by (auto dest!: send_copies_frame)

lemma update_timeout_eq:
  assumes "service \<in> set (available_services b)" "length (timeouts b) = length (available_services b)"
  shows "update_timeout env service b =
    Inr (b\<lparr>ticks := Suc (ticks b),
           timeouts := (timeouts b)[index_of service (available_services b) :=
             time_add_ms (clk env (ticks b)) HEARTBEAT_INTERVAL]\<rparr>)"
  using assms index_of_mem [OF assms(1)] by (simp add: update_timeout_def clock_gettime_def)

lemma update_timeout_unavailable:
  assumes "service \<notin> set (available_services b)" "length (timeouts b) = length (available_services b)"
  shows "update_timeout env service b = Inl Undefined_Behaviour"
  using assms by (simp add: update_timeout_def clock_gettime_def index_of_not_mem vec_set_def)

lemma update_timeout_inv [inv_intros]:
  "update_timeout env service b = Inr b' \<Longrightarrow> broker_inv b \<Longrightarrow> broker_inv b'"
  by (auto simp: update_timeout_def clock_gettime_def broker_inv_def rbind_Inr_iff vec_set_Inr_iff)

section \<open>Handlers keep the invariant\<close>

lemma answer_client_inv [inv_intros]:
  "answer_client env f g st v s cid b = Inr b' \<Longrightarrow> broker_inv b \<Longrightarrow> broker_inv b'"
  by (auto simp: answer_client_def rbind_Inr_iff
      intro!: broker_inv_db_step intro: db_step.delete router_send_inv)

lemma get_request_inv [inv_intros]:
  assumes "get_request env fs b = Inr b'" "broker_inv b"
  shows "broker_inv b'"
proof -
  obtain f g h where fs: "fs = (f, g, h)" by (cases fs)
  from assms(1) obtain cid :: uint32 and rq where ret: "load 4 1 f = Inr cid" "dec_request h = Inr rq"
    by (auto simp: get_request_def fs rbind_Inr_iff)
  show ?thesis
  proof (cases "find_registration (b_db b) (ntohl (rq_service rq)) = - 1")
    case True
    with assms ret show ?thesis by (auto simp: get_request_def fs intro: router_send_inv)
  next
    case False
    with assms(1) ret obtain db1 rid msg copies i b1 db2 t rr
      where ids: "get_request_id (b_db b) (ntohl (rq_service rq)) = Inr (db1, rid)"
        and fwd: "send_copies copies i msg (b\<lparr>b_db := db1\<rparr>) = Inr b1"
        and push: "push_request (b_db b1) rr (ntohl (rq_service rq)) t = Inr db2"
        and upd: "update_timeout env (ntohl (rq_service rq)) (b1\<lparr>ticks := Suc (ticks b1), b_db := db2\<rparr>) = Inr b'"
      by (auto simp: get_request_def fs Let_def clock_gettime_def rbind_Inr_iff)
    from assms(2) ids have "broker_inv (b\<lparr>b_db := db1\<rparr>)"
      by (blast intro: broker_inv_db_step db_step.request_id)
    with fwd have "broker_inv b1" by (rule send_copies_inv)
    then have "broker_inv (b1\<lparr>ticks := Suc (ticks b1)\<rparr>)" by simp
    with push have "broker_inv (b1\<lparr>ticks := Suc (ticks b1), b_db := db2\<rparr>)"
      by (intro broker_inv_db_step) (auto intro: db_step.request)
    with upd show ?thesis by (rule update_timeout_inv)
  qed
qed

lemma make_available_inv:
  assumes "make_available env s port b = Inr b'" "broker_inv b"
    and "s \<notin> set (available_services b)" "s \<in> dom (services_db (b_db b))"
  shows "broker_inv b'"
  using assms by (auto simp: make_available_def add_dealer_def clock_gettime_def broker_inv_def)

lemma registration_loop_inv [inv_intros]:
  "registration_loop env fs already b = Inr b' \<Longrightarrow> broker_inv b \<Longrightarrow> broker_inv b'"
proof (induction fs arbitrary: already b)
  case (Cons fm fs)
  obtain f more_frames where fm: "fm = (f, more_frames)" by (cases fm)
  show ?case
  proof (cases more_frames)
    case True
    with Cons.prems show ?thesis by (auto simp: fm intro: Cons.IH)
  next
    case False
    with Cons.prems(1) obtain rm0 db' port' ready ret b2
      where dec: "dec_registration f = Inr rm0"
        and push: "push_registration (b_db b) (rm0\<lparr>rg_service := ntohl (rg_service rm0)\<rparr>) (available_dealer_port b) =
            Inr (db', port', ready, ret)"
        and avail: "(if ready \<and> \<not> (already \<or> ntohl (rg_service rm0) \<in> set (available_services b))
          then make_available env (ntohl (rg_service rm0)) ret (b\<lparr>b_db := db', available_dealer_port := port'\<rparr>)
          else Inr (b\<lparr>b_db := db', available_dealer_port := port'\<rparr>)) = Inr b2"
        and rest: "registration_loop env fs (already \<or> ntohl (rg_service rm0) \<in> set (available_services b))
          (b2\<lparr>sent := sent b2 @ [(Reg, le_bytes 2 (htons ret), False)]\<rparr>) = Inr b'"
      by (auto simp: fm Let_def rbind_Inr_iff split: prod.splits)
    from Cons.prems(2) push have "broker_inv (b\<lparr>b_db := db'\<rparr>)"
      by (blast intro: broker_inv_db_step db_step.registration)
    then have b1: "broker_inv (b\<lparr>b_db := db', available_dealer_port := port'\<rparr>)" by (simp add: broker_inv_def)
    have "ntohl (rg_service rm0) \<in> dom (services_db db')"
      using push by (auto simp: push_registration_def Let_def rbind_Inr_iff split: option.splits if_splits)
    with b1 avail have "broker_inv b2"
      by (auto split: if_splits intro: make_available_inv)
    then show ?thesis by (intro Cons.IH [OF rest]) simp
  qed
qed simp

lemma get_registration_inv [inv_intros]: "get_registration env fs b = Inr b' \<Longrightarrow> broker_inv b \<Longrightarrow> broker_inv b'"
  by (simp add: get_registration_def registration_loop_inv)

lemma get_response_inv [inv_intros]:
  assumes "get_response env fs b = Inr b'" "broker_inv b"
  shows "broker_inv b'"
proof -
  obtain f g h where fs: "fs = (f, g, h)" by (cases fs)
  from assms(1) obtain cid :: uint32 and r0 where ret: "load 4 1 f = Inr cid" "dec_reply h = Inr r0"
    by (auto simp: get_response_def fs rbind_Inr_iff)
  show ?thesis
    using assms ret
    by (auto simp: get_response_def fs Let_def rbind_Inr_iff split: if_splits prod.splits
        intro: broker_inv_db_step db_step.pong db_step.add_result answer_client_inv)
qed

lemma ping_server_inv [inv_intros]: "ping_server env i s b = Inr b' \<Longrightarrow> broker_inv b \<Longrightarrow> broker_inv b'"
  by (auto simp: ping_server_def Let_def rbind_Inr_iff intro: send_copies_inv)

lemma pending_inner_inv [inv_intros]:
  "pending_inner env now i qs result b = Inr (result', b') \<Longrightarrow> broker_inv b \<Longrightarrow> broker_inv b'"
proof (induction qs arbitrary: result b)
  case (Cons q qs)
  then show ?case
    by (auto simp: rbind_Inr_iff split: if_splits dest: answer_client_inv)
qed simp

lemma pending_outer_inv [inv_intros]:
  "pending_outer env now i ss result b = Inr b' \<Longrightarrow> broker_inv b \<Longrightarrow> broker_inv b'"
proof (induction ss arbitrary: i result b)
  case (Cons s ss)
  then show ?case by (auto simp: rbind_Inr_iff dest: pending_inner_inv)
qed simp

lemma check_pending_requests_inv [inv_intros]:
  "check_pending_requests env b = Inr b' \<Longrightarrow> broker_inv b \<Longrightarrow> broker_inv b'"
  by (auto simp: check_pending_requests_def clock_gettime_def dest: pending_outer_inv)

lemma dealer_loop_inv [inv_intros]: "dealer_loop env evs b = Inr b' \<Longrightarrow> broker_inv b \<Longrightarrow> broker_inv b'"
  by (induction env evs b rule: dealer_loop.induct) (auto simp: rbind_Inr_iff dest: get_response_inv)

lemma heartbeat_loop_inv [inv_intros]:
  "heartbeat_loop env n i b = Inr b' \<Longrightarrow> broker_inv b \<Longrightarrow> broker_inv b'"
proof (induction n arbitrary: i b)
  case (Suc n)
  show ?case
  proof (cases "time_cmp (b_now b) (timeouts b ! i) = 1")
    case True
    with Suc.prems(1) obtain s db' b1 b2
      where steps: "check_pong (b_db b) s = Inr db'" "ping_server env (of_nat i) s (b\<lparr>b_db := db'\<rparr>) = Inr b1"
        "update_timeout env s b1 = Inr b2" "heartbeat_loop env n (Suc i) b2 = Inr b'"
      by (auto simp: rbind_Inr_iff vec_get_Inr_iff)
    from Suc.prems(2) steps(1) have "broker_inv (b\<lparr>b_db := db'\<rparr>)"
      by (blast intro: broker_inv_db_step db_step.check)
    with steps show ?thesis by (meson Suc.IH ping_server_inv update_timeout_inv)
  next
    case False
    with Suc show ?thesis by (auto simp: rbind_Inr_iff vec_get_Inr_iff)
  qed
qed simp

text \<open>The phases of one iteration of the main loop.\<close>

lemma broker_step_phases:
  assumes "broker_step env ev b = Inr b'"
  obtains b3 b4 b5 b6
  where "(case ev_reg ev of None \<Rightarrow> Inr (let b1 = b\<lparr>ticks := Suc (ticks b), b_now := clk env (ticks b)\<rparr>
            in if ev_hc ev then pong_health_checker b1 else b1)
          | Some fs \<Rightarrow> get_registration env fs (let b1 = b\<lparr>ticks := Suc (ticks b), b_now := clk env (ticks b)\<rparr>
            in if ev_hc ev then pong_health_checker b1 else b1)) = Inr b3"
    "(case ev_router ev of None \<Rightarrow> Inr b3 | Some fs \<Rightarrow> get_request env fs b3) = Inr b4"
    "dealer_loop env (ev_dealer ev) b4 = Inr b5" "heartbeat_loop env (length (timeouts b5)) 0 b5 = Inr b6"
    "check_pending_requests env b6 = Inr b'"
  using assms that unfolding broker_step_def clock_gettime_def Let_def prod.case rbind_Inr_iff by blast

lemma broker_step_inv [inv_intros]:
  assumes "broker_step env ev b = Inr b'" "broker_inv b"
  shows "broker_inv b'"
proof -
  define b2 where "b2 = (let b1 = b\<lparr>ticks := Suc (ticks b), b_now := clk env (ticks b)\<rparr>
    in if ev_hc ev then pong_health_checker b1 else b1)"
  have b2: "broker_inv b2" using assms(2) by (simp add: b2_def pong_health_checker_def Let_def)
  from broker_step_phases [OF assms(1)] obtain b3 b4 b5 b6
    where steps: "(case ev_reg ev of None \<Rightarrow> Inr b2 | Some fs \<Rightarrow> get_registration env fs b2) = Inr b3"
      "(case ev_router ev of None \<Rightarrow> Inr b3 | Some fs \<Rightarrow> get_request env fs b3) = Inr b4"
      "dealer_loop env (ev_dealer ev) b4 = Inr b5" "heartbeat_loop env (length (timeouts b5)) 0 b5 = Inr b6"
      "check_pending_requests env b6 = Inr b'"
    unfolding b2_def .
  from b2 steps(1) have "broker_inv b3" by (cases "ev_reg ev") (auto intro: get_registration_inv)
  with steps(2) have "broker_inv b4" by (cases "ev_router ev") (auto intro: get_request_inv)
  with steps(3-5) show ?thesis
    by (meson dealer_loop_inv heartbeat_loop_inv check_pending_requests_inv)
qed

text \<open>One iteration of the main loop as a step; \<open>broker_init\<close> is a broker after construction.\<close>

inductive broker_iter :: "broker \<Rightarrow> broker \<Rightarrow> bool" where
  iterate: "broker_step env ev b = Inr b' \<Longrightarrow> broker_iter b b'"

lemma new_broker_eq:
  "new_broker nmr pr pg now = Inr \<lparr>b_nmr = nmr, port_router = pr, port_reg = pg,
     available_dealer_port = DEALER_START_PORT, poll_items = [Router, Reg, Hc],
     dealer = [], b_db = init_db nmr, available_services = [], timeouts = [],
     b_now = now, sent = [], ticks = 0\<rparr>"
  by (simp add: new_broker_def)

lemma new_broker_inv [inv_intros]: "new_broker nmr pr pg now = Inr b \<Longrightarrow> broker_inv b"
  by (auto simp: new_broker_eq broker_inv_def db_inv_init) (simp add: init_db_def)

interpretation broker_loop: step_system broker_iter broker_inv
  by unfold_locales (auto elim!: broker_iter.cases intro: broker_step_inv)

end
