(* ===== verification/RSF_Sessions.thy ===== *)
theory RSF_Sessions
  imports RSF_Broker_Inv
begin

text \<open>
  Voting sessions: what the broker promises about the replies of the server copies. The
  abstract state of one service is a map from the clients that wait to the results received
  for them; \<open>vote_step\<close> is the specification of one reply. \<open>get_response\<close> refines it, and a
  run over interleaved replies gives each client the verdict of its own replies.
\<close>

section \<open>Specification\<close>

type_synonym sessions = "uint32 \<Rightarrow> int32 list option"

definition vote_step :: "nat \<Rightarrow> sessions \<Rightarrow> uint32 \<Rightarrow> int32 \<Rightarrow> sessions \<times> verdict option" where
  "vote_step n tab c v =
     (case tab c of
        None \<Rightarrow> (tab, None)
      | Some xs \<Rightarrow>
          (case the_majority n (xs @ [v]) of
             Some w \<Rightarrow> (tab(c := None), Some (Answered w))
           | None \<Rightarrow> if length (xs @ [v]) = n then (tab(c := None), Some Unreliable)
                     else (tab(c \<mapsto> xs @ [v]), None)))"

fun vote_run :: "nat \<Rightarrow> sessions \<Rightarrow> (uint32 \<times> int32) list \<Rightarrow> sessions \<times> (uint32 \<times> verdict) list" where
  "vote_run n tab [] = (tab, [])"
| "vote_run n tab ((c, v) # evs) =
     (case vote_step n tab c v of (tab1, out) \<Rightarrow>
      case vote_run n tab1 evs of (tab2, outs) \<Rightarrow>
        (tab2, (case out of None \<Rightarrow> outs | Some w \<Rightarrow> (c, w) # outs)))"

definition replies_to :: "uint32 \<Rightarrow> (uint32 \<times> 'v) list \<Rightarrow> 'v list" where
  "replies_to c evs = map snd (filter (\<lambda>(d, _). d = c) evs)"

lemma replies_to_simps [simp]:
  "replies_to c [] = []"
  "replies_to c ((d, v) # evs) = (if d = c then v # replies_to c evs else replies_to c evs)"
  by (simp_all add: replies_to_def)

text \<open>Each client gets the verdict of its own replies, whatever is interleaved with them.\<close>

lemma vote_step_other: "d \<noteq> c \<Longrightarrow> fst (vote_step n tab c v) d = tab d"
  by (simp add: vote_step_def split: option.split)

lemma vote_run_unknown: "tab c = None \<Longrightarrow> fst (vote_run n tab evs) c = None \<and> replies_to c (snd (vote_run n tab evs)) = []"
proof (induction n tab evs rule: vote_run.induct)
  case (2 n tab d v evs)
  obtain tab1 out where step: "vote_step n tab d v = (tab1, out)" by fastforce
  have "tab1 c = None \<and> (d = c \<longrightarrow> out = None)"
    using 2(2) step vote_step_other [of c d n tab v] by (cases "d = c") (auto simp: vote_step_def)
  with 2(1) [OF step [symmetric]] step show ?case by (auto split: prod.splits option.splits)
qed simp

lemma vote_run_session:
  assumes "tab c = Some xs"
  shows "case nmr_session n xs (replies_to c evs) of
      Pending acc \<Rightarrow> fst (vote_run n tab evs) c = Some acc \<and> replies_to c (snd (vote_run n tab evs)) = []
    | w \<Rightarrow> fst (vote_run n tab evs) c = None \<and> replies_to c (snd (vote_run n tab evs)) = [w]"
  using assms
proof (induction evs arbitrary: tab xs)
  case (Cons dv evs)
  obtain d v where dv: "dv = (d, v)" by (cases dv)
  obtain tab1 out where step: "vote_step n tab d v = (tab1, out)" by fastforce
  show ?case
  proof (cases "d = c")
    case False
    with Cons.prems step vote_step_other [of c d n tab v] have "tab1 c = Some xs" by auto
    from Cons.IH [of tab1 xs, OF this] False step show ?thesis
      by (auto simp: dv split: prod.splits option.splits verdict.splits)
  next
    case True
    from step Cons.prems True show ?thesis
      using Cons.IH [of "tab(c \<mapsto> xs @ [v])" "xs @ [v]"] vote_run_unknown [of "tab(c := None)" c n evs]
      by (cases "vote_run n tab1 evs")
        (auto simp: dv vote_step_def split: option.splits if_splits verdict.splits)
  qed
qed simp

section \<open>Refinement\<close>

definition pending_of :: "broker \<Rightarrow> service_type_t \<Rightarrow> sessions" where
  "pending_of b s =
     (case services_db (b_db b) s of None \<Rightarrow> Map.empty | Some r \<Rightarrow> lookup_request (request_records r))"

text \<open>
  A table is open when every waiting client still needs replies: fewer than \<open>n\<close> have come and
  they have no majority. A service is in session when its clients are distinct and its table
  is open.
\<close>

definition table_open :: "nat \<Rightarrow> sessions \<Rightarrow> bool" where
  "table_open n tab \<longleftrightarrow> (\<forall>c xs. tab c = Some xs \<longrightarrow> length xs < n \<and> the_majority n xs = None)"

definition in_session :: "broker \<Rightarrow> service_type_t \<Rightarrow> bool" where
  "in_session b s \<longleftrightarrow>
     (case services_db (b_db b) s of None \<Rightarrow> False
      | Some r \<Rightarrow> distinct (map client_id (request_records r))) \<and>
     table_open (unat (b_nmr b)) (pending_of b s)"

definition response_frames :: "frame \<Rightarrow> frame \<Rightarrow> service_status_t \<Rightarrow> int32 \<Rightarrow> broker_socket zsend list" where
  "response_frames f e status result =
     [(Router, f, True), (Router, e, True),
      (Router, enc_response \<lparr>rs_status = htonl (status_code status), rs_result = htonl result\<rparr>, False)]"

fun verdict_frames :: "broker_env \<Rightarrow> frame \<Rightarrow> frame \<Rightarrow> verdict option \<Rightarrow> broker_socket zsend list" where
  "verdict_frames env f e (Some (Answered w)) = response_frames f e SERVICE_AVAILABLE w"
| "verdict_frames env f e (Some Unreliable) = response_frames f e SERVICE_NOT_RELIABLE (junk_result env)"
| "verdict_frames env f e _ = []"

lemma table_openD: "table_open n tab \<Longrightarrow> tab c = Some xs \<Longrightarrow> length xs < n \<and> the_majority n xs = None"
  by (simp add: table_open_def)

lemma table_open_vote_step: "table_open n tab \<Longrightarrow> table_open n (fst (vote_step n tab c v))"
  unfolding table_open_def vote_step_def by (auto split: option.splits if_splits) fastforce+

lemma answer_client_eq:
  assumes "routable env f" "services_db (b_db b) s = Some r"
  shows "answer_client env f e st v s c b =
    Inr (b\<lparr>sent := sent b @ response_frames f e st v,
           b_db := put_record (b_db b) s (r\<lparr>request_records := erase_loop c 0 (request_records r)\<rparr>)\<rparr>)"
  using assms by (simp add: answer_client_def router_send_eq delete_request_def response_frames_def)

lemma Suc_unat_iff: "1 + int k = uint w \<longleftrightarrow> Suc k = unat w" for w :: uint8
proof -
  have "int (unat w) = uint w" by simp
  then show ?thesis by linarith
qed

lemma get_response_vote:
  fixes c :: uint32 and rep :: server_reply_t and n :: nat
  defines "v \<equiv> ntohl (sr_result rep)"
  assumes r: "services_db (b_db b) s = Some r" "distinct (map client_id (request_records r))"
    and tab: "table_open (unat (b_nmr b)) (lookup_request (request_records r))"
    and f: "load 4 1 f = Inr c" "routable env f"
    and rep: "\<not> sr_heartbeat rep" "\<not> sr_duplicated rep" "sr_service rep = htonl s"
  shows "\<exists>qs. get_response env (f, e, enc_reply rep) b =
      Inr (b\<lparr>sent := sent b @ verdict_frames env f e
                (snd (vote_step (unat (b_nmr b)) (lookup_request (request_records r)) c v)),
             b_db := put_record (b_db b) s (r\<lparr>request_records := qs\<rparr>)\<rparr>) \<and>
     distinct (map client_id qs) \<and>
     lookup_request qs = fst (vote_step (unat (b_nmr b)) (lookup_request (request_records r)) c v)"
proof (cases "lookup_request (request_records r) c")
  case None
  with r have "push_loop c v (request_records r) (- 1) = (request_records r, - 1)"
    by (simp add: pending.add_unknown)
  with None r f rep show ?thesis
    by (intro exI [of _ "request_records r"])
      (simp add: get_response_def push_result_def vote_step_def v_def)
next
  case (Some xs)
  let ?n = "unat (b_nmr b)" and ?tab = "lookup_request (request_records r)"
  from pending.add_known [OF r(2) Some, of v] obtain qs
    where qs: "push_loop c v (request_records r) (- 1) = (qs, int (Suc (length xs)))"
      "distinct (map client_id qs)" "lookup_request qs = ?tab(c \<mapsto> xs @ [v])" "get_loop c qs [] = xs @ [v]" .
  have gone: "distinct (map client_id (erase_loop c 0 qs))" "lookup_request (erase_loop c 0 qs) = ?tab(c := None)"
    using qs(2,3) by (simp_all add: pending.ok_remove pending.lookup_remove)
  from table_openD [OF tab Some] have len: "length (xs @ [v]) \<le> ?n" by simp
  note eval = get_response_def push_result_def get_result_def vote_step_def v_def [symmetric] answer_client_eq
  show ?thesis
  proof (cases "?n div 2 < Suc (length xs)")
    case few: False
    then have "the_majority ?n (xs @ [v]) = None" "length (xs @ [v]) \<noteq> ?n"
      using len by (auto intro: the_majority_short)
    with few Some r f rep qs show ?thesis by (intro exI [of _ qs]) (simp add: eval)
  next
    case enough: True
    from len show ?thesis
    proof (cases rule: nmr_voter.voter_cases [where r = "junk_result env"])
      case (elected i w)
      with enough Some r f rep qs gone show ?thesis
        by (intro exI [of _ "erase_loop c 0 qs"]) (simp add: eval)
    next
      case hung
      show ?thesis
      proof (cases "length (xs @ [v]) = ?n")
        case True
        then have all: "int (?n div 2) < 1 + int (length xs)" "1 + int (length xs) = int ?n"
          using enough unfolding True [symmetric] by simp_all
        have "vote_step ?n ?tab c v = (?tab(c := None), Some Unreliable)"
          using True hung(1) Some by (simp add: vote_step_def)
        with all hung r f rep qs gone show ?thesis
          by (intro exI [of _ "erase_loop c 0 qs"])
            (simp add: get_response_def push_result_def get_result_def v_def [symmetric] answer_client_eq)
      next
        case False
        then have "1 + int (length xs) \<noteq> uint (b_nmr b)" by (simp add: Suc_unat_iff)
        with False hung enough Some r f rep qs show ?thesis by (intro exI [of _ qs]) (simp add: eval)
      qed
    qed
  qed
qed

lemma pending_of_Some: "services_db (b_db b) s = Some r \<Longrightarrow> pending_of b s = lookup_request (request_records r)"
  by (simp add: pending_of_def)

lemma in_sessionE:
  assumes "in_session b s"
  obtains r where "services_db (b_db b) s = Some r" "distinct (map client_id (request_records r))"
    "table_open (unat (b_nmr b)) (lookup_request (request_records r))"
    "pending_of b s = lookup_request (request_records r)"
  using assms by (auto simp: in_session_def pending_of_Some split: option.splits)

text \<open>One reply: the concrete handler does to its table and to the wire what the specification says.\<close>

lemma get_response_refines:
  fixes c :: uint32
  assumes "in_session b s" "load 4 1 f = Inr c" "routable env f"
    and "\<not> sr_heartbeat rep" "\<not> sr_duplicated rep" "sr_service rep = htonl s"
    and step: "vote_step (unat (b_nmr b)) (pending_of b s) c (ntohl (sr_result rep)) = (tab', out)"
  obtains b' where "get_response env (f, e, enc_reply rep) b = Inr b'" "in_session b' s"
    "pending_of b' s = tab'" "\<forall>t. t \<noteq> s \<longrightarrow> pending_of b' t = pending_of b t"
    "sent b' = sent b @ verdict_frames env f e out" "b_nmr b' = b_nmr b"
proof -
  from assms(1) obtain r where r: "services_db (b_db b) s = Some r" "distinct (map client_id (request_records r))"
    "table_open (unat (b_nmr b)) (lookup_request (request_records r))"
    "pending_of b s = lookup_request (request_records r)" by (rule in_sessionE)
  from get_response_vote [OF r(1-3) assms(2-6)] step r(4) obtain qs
    where qs: "get_response env (f, e, enc_reply rep) b =
      Inr (b\<lparr>sent := sent b @ verdict_frames env f e out,
             b_db := put_record (b_db b) s (r\<lparr>request_records := qs\<rparr>)\<rparr>)"
      "distinct (map client_id qs)" "lookup_request qs = tab'" by auto
  from table_open_vote_step [OF r(3)] step r(4) have "table_open (unat (b_nmr b)) tab'" by (metis fst_conv)
  with qs show ?thesis by (intro that [OF qs(1)]) (simp_all add: in_session_def pending_of_def)
qed

lemma get_response_duplicated:
  assumes "4 < length f" "\<not> sr_heartbeat rep" "sr_duplicated rep"
  shows "get_response env (f, e, enc_reply rep) b = Inr b"
  using assms by (simp add: get_response_def load_def)

section \<open>Runs over interleaved replies\<close>

definition client_frame :: "uint32 \<Rightarrow> frame" where
  "client_frame c = 0 # le_bytes 4 c"

lemma load_client_frame [simp]: "load 4 (Suc 0) (client_frame c) = Inr c"
  by (simp add: load_def client_frame_def)

lemma length_client_frame [simp]: "length (client_frame c) = 5"
  by (simp add: client_frame_def)

lemma client_frame_inject [simp]: "client_frame c = client_frame d \<longleftrightarrow> c = d"
  by (metis load_client_frame sum.inject(2))

definition reply_event :: "uint32 \<times> server_reply_t \<Rightarrow> envelope option" where
  "reply_event = (\<lambda>(c, rep). Some (client_frame c, [], enc_reply rep))"

definition counted :: "(uint32 \<times> server_reply_t) list \<Rightarrow> (uint32 \<times> int32) list" where
  "counted rs = map (\<lambda>(c, rep). (c, ntohl (sr_result rep))) (filter (\<lambda>(c, rep). \<not> sr_duplicated rep) rs)"

definition verdict_messages :: "broker_env \<Rightarrow> (uint32 \<times> verdict) list \<Rightarrow> broker_socket zsend list" where
  "verdict_messages env outs = concat (map (\<lambda>(c, w). verdict_frames env (client_frame c) [] (Some w)) outs)"

lemma dealer_loop_refines:
  assumes "in_session b s" "\<forall>(c, rep) \<in> set rs. \<not> sr_heartbeat rep \<and> sr_service rep = htonl s \<and> routable env (client_frame c)"
  shows "\<exists>b'. dealer_loop env (map reply_event rs) b = Inr b' \<and> in_session b' s \<and>
     pending_of b' s = fst (vote_run (unat (b_nmr b)) (pending_of b s) (counted rs)) \<and>
     (\<forall>t. t \<noteq> s \<longrightarrow> pending_of b' t = pending_of b t) \<and>
     sent b' = sent b @ verdict_messages env (snd (vote_run (unat (b_nmr b)) (pending_of b s) (counted rs)))"
  using assms
proof (induction rs arbitrary: b)
  case Nil
  then show ?case by (simp add: counted_def verdict_messages_def)
next
  case (Cons cr rs)
  obtain c rep where cr: "cr = (c, rep)" by (cases cr)
  show ?case
  proof (cases "sr_duplicated rep")
    case True
    with Cons show ?thesis by (auto simp: cr reply_event_def counted_def get_response_duplicated)
  next
    case False
    obtain tab1 out where step:
      "vote_step (unat (b_nmr b)) (pending_of b s) c (ntohl (sr_result rep)) = (tab1, out)" by fastforce
    from Cons.prems(2) have rep: "\<not> sr_heartbeat rep" "sr_service rep = htonl s" by (auto simp: cr)
    have "load 4 1 (client_frame c) = Inr c" "routable env (client_frame c)" using Cons.prems(2) by (simp_all add: cr)
    from get_response_refines [OF Cons.prems(1) this rep(1) False rep(2) step, of "[]"] obtain b1
      where b1: "get_response env (client_frame c, [], enc_reply rep) b = Inr b1" "in_session b1 s"
        "pending_of b1 s = tab1" "\<forall>t. t \<noteq> s \<longrightarrow> pending_of b1 t = pending_of b t"
        "sent b1 = sent b @ verdict_frames env (client_frame c) [] out" "b_nmr b1 = b_nmr b" by blast
    obtain tab2 outs where run: "vote_run (unat (b_nmr b)) tab1 (counted rs) = (tab2, outs)" by fastforce
    have "\<forall>(c, rep) \<in> set rs. \<not> sr_heartbeat rep \<and> sr_service rep = htonl s \<and> routable env (client_frame c)"
      using Cons.prems(2) by simp
    from Cons.IH [OF b1(2) this] obtain b2
      where b2: "dealer_loop env (map reply_event rs) b1 = Inr b2" "in_session b2 s"
        "pending_of b2 s = tab2" "\<forall>t. t \<noteq> s \<longrightarrow> pending_of b2 t = pending_of b1 t"
        "sent b2 = sent b1 @ verdict_messages env outs" by (auto simp: b1 run)
    have "counted (cr # rs) = (c, ntohl (sr_result rep)) # counted rs" using False by (simp add: cr counted_def)
    then have "vote_run (unat (b_nmr b)) (pending_of b s) (counted (cr # rs)) =
        (tab2, case out of None \<Rightarrow> outs | Some w \<Rightarrow> (c, w) # outs)" by (simp add: step run)
    with b1 b2 show ?thesis
      by (cases out) (auto simp: cr reply_event_def verdict_messages_def)
  qed
qed

end
