(* ===== verification/RSF_Broker_Facts.thy ===== *)
theory RSF_Broker_Facts
  imports RSF_Sessions
begin

text \<open>
  Properties of the broker: reachable states, forwarding of requests, voting sessions and the
  answers a client can get. The example broker at the end of the first section has one
  available service with three copies and serves the witnesses.
\<close>

section \<open>Shared lemmas\<close>

lemma vote_accepts_only_majority:
  assumes "vote nmr xs result = Some (i, w)" "0 \<le> i"
  shows "majority (unat nmr) xs w"
proof (cases "xs = []")
  case False
  have "length xs \<le> 255" using assms(1) by (auto simp: vote_def bind_eq_Some_conv dest: count_outer_returns)
  from vote_by_max [OF this False, of nmr result] assms show ?thesis
    by (auto simp: majority_def split: if_splits)
qed (use assms in \<open>simp add: vote_Nil\<close>)

definition request_for :: "service_type_t \<Rightarrow> byte list \<Rightarrow> request_module" where
  "request_for s params = \<lparr>rq_service = htonl s, rq_parameters = params\<rparr>"

lemma dec_request_for [simp]: "length params = PARAM_SIZE \<Longrightarrow> dec_request (enc_request (request_for s params)) = Inr (request_for s params)"
  by (rule request_wire.dec_enc) (simp add: request_for_def)

definition forwarded :: "broker_env \<Rightarrow> service_record \<Rightarrow> byte list \<Rightarrow> service_module" where
  "forwarded env r params =
     (junk_service env)\<lparr>sm_heartbeat := False, sm_seq_id := htonl (seq_id_request r), sm_parameters := params\<rparr>"

lemma uint_neq_minus1 [simp]: "uint w \<noteq> - 1"
  using uint_ge_0 [of w] by linarith

lemma get_request_found:
  fixes c :: uint32
  assumes "load 4 1 f = Inr c" "length params = PARAM_SIZE" "services_db (b_db b) s = Some r"
  shows "get_request env (f, e, enc_request (request_for s params)) b =
    rbind (send_copies (unat (num_copies_reliable r)) (unat (dealer_skt_index r))
             [f, e, enc_service (forwarded env r params)]
             (b\<lparr>b_db := put_record (b_db b) s (r\<lparr>seq_id_request := seq_id_request r + 1\<rparr>)\<rparr>))
      (\<lambda>b1. let (t, b2) = clock_gettime env b1 in
        rbind (push_request (b_db b2) ((junk_request env)\<lparr>client_id := c, results := []\<rparr>) s t)
          (\<lambda>db2. update_timeout env s (b2\<lparr>b_db := db2\<rparr>)))"
proof -
  have service: "ntohl (rq_service (request_for s params)) = s" "rq_parameters (request_for s params) = params"
    by (simp_all add: request_for_def)
  show ?thesis
    using assms by (simp add: get_request_def service find_registration_def get_request_id_def
        get_reliable_copies_def forwarded_def Let_def)
qed

lemma get_request_eq:
  fixes c :: uint32
  assumes "load 4 1 f = Inr c" "length params = PARAM_SIZE" "services_db (b_db b) s = Some r"
    and "unat (dealer_skt_index r) < length (dealer b)" "s \<in> set (available_services b)"
    and "length (timeouts b) = length (available_services b)"
  shows "get_request env (f, e, enc_request (request_for s params)) b =
    Inr (b\<lparr>sent := sent b @ concat (replicate (unat (num_copies_reliable r))
             (send_frames (Dealer (unat (dealer_skt_index r))) [f, e, enc_service (forwarded env r params)])),
           b_db := put_record (b_db b) s
             (r\<lparr>seq_id_request := seq_id_request r + 1,
                request_records := request_records r @
                  [(junk_request env)\<lparr>client_id := c, results := [],
                     rr_timeout := time_add_ms (clk env (ticks b)) REQUEST_TIMEOUT\<rparr>]\<rparr>),
           timeouts := (timeouts b)[index_of s (available_services b) :=
             time_add_ms (clk env (Suc (ticks b))) HEARTBEAT_INTERVAL],
           ticks := Suc (Suc (ticks b))\<rparr>)"
  using assms
  by (simp add: get_request_found send_copies_eq clock_gettime_def push_request_def update_timeout_eq)

section \<open>An example broker\<close>

definition example_env :: broker_env where
  "example_env = \<lparr>clk = (\<lambda>k. \<lparr>tv_sec = 100 + int k, tv_nsec = 0\<rparr>), routable = (\<lambda>f. True), junk_result = 0,
     junk_response = \<lparr>rs_status = 0, rs_result = 0\<rparr>,
     junk_service = \<lparr>sm_heartbeat = False, sm_pad = 0, sm_seq_id = 0, sm_parameters = replicate 100 0\<rparr>,
     junk_request = example_request 0 []\<rparr>"

definition example_broker :: "request_record_t list \<Rightarrow> broker" where
  "example_broker qs = \<lparr>b_nmr = 3, port_router = 5559, port_reg = 5560, available_dealer_port = 6001,
     poll_items = [Router, Reg, Hc, Dealer 0],
     dealer = [\<lparr>skt_kind = ZMQ_DEALER, skt_dir = Bind, endpoint = ''tcp://*:6000''\<rparr>],
     b_db = example_pending qs, available_services = [0],
     timeouts = [\<lparr>tv_sec = 102, tv_nsec = 0\<rparr>], b_now = \<lparr>tv_sec = 100, tv_nsec = 0\<rparr>, sent = [], ticks = 0\<rparr>"

lemma example_broker_db [simp]:
  "services_db (b_db (example_broker qs)) s =
     (if s = 0 then Some (example_record\<lparr>request_records := qs\<rparr>) else None)"
  by (simp add: example_broker_def example_pending_def example_db_def)

lemma example_broker_simps [simp]:
  "b_nmr (example_broker qs) = 3" "available_services (example_broker qs) = [0]"
  "length (timeouts (example_broker qs)) = 1" "length (dealer (example_broker qs)) = 1"
  "sent (example_broker qs) = []" "ticks (example_broker qs) = 0" "db_nmr (b_db (example_broker qs)) = 3"
  by (simp_all add: example_broker_def example_pending_def example_db_def)

lemma example_env_simps [simp]: "routable example_env f" "junk_result example_env = 0"
  "clk example_env k = \<lparr>tv_sec = 100 + int k, tv_nsec = 0\<rparr>"
  by (simp_all add: example_env_def)

lemma example_broker_inv: "broker_inv (example_broker qs)"
proof -
  have "db_inv (b_db (example_broker qs))"
    by (auto simp: db_inv_def record_inv_def example_record_def split: if_splits)
  then show ?thesis by (simp add: broker_inv_def) (simp add: example_broker_def example_pending_def)
qed

section \<open>Properties\<close>

text \<open>
  C18: In every state the main loop of a new broker reaches, the services it offers are
  distinct and registered, there is exactly one dealer socket, one poll item and one heartbeat
  deadline for each of them, and every record of the database keeps its invariant.
\<close>

theorem reachable_broker_inv:
  assumes "new_broker nmr p_router p_reg now = Inr b0" and "broker_iter\<^sup>*\<^sup>* b0 b"
  shows "distinct (available_services b) \<and>
     length (dealer b) = length (available_services b) \<and>
     length (timeouts b) = length (available_services b) \<and>
     poll_items b = [Router, Reg, Hc] @ map Dealer [0..<length (dealer b)] \<and>
     (\<forall>s \<in> set (available_services b). \<exists>r. services_db (b_db b) s = Some r \<and>
        record_inv (unat (b_nmr b)) r)"
proof -
  have "broker_inv b" by (rule broker_loop.steps_inv [OF assms(2) new_broker_inv [OF assms(1)]])
  then show ?thesis unfolding broker_inv_def by (metis db_invD domIff not_None_eq subsetD)
qed

theorem reachable_broker_inv_witness:
  "\<exists>b0 b. new_broker 3 5559 5560 \<lparr>tv_sec = 0, tv_nsec = 0\<rparr> = Inr b0 \<and> broker_iter\<^sup>*\<^sup>* b0 b \<and> ticks b = 2 \<and>
     poll_items b = [Router, Reg, Hc] @ map Dealer [0..<length (dealer b)]"
proof -
  let ?idle = "\<lparr>ev_hc = True, ev_reg = None, ev_router = None, ev_dealer = []\<rparr>"
  obtain b0 where b0: "new_broker 3 5559 5560 \<lparr>tv_sec = 0, tv_nsec = 0\<rparr> = Inr b0" "ticks b0 = 0"
    "timeouts b0 = []" "available_services b0 = []"
    by (simp add: new_broker_eq)
  obtain b where b: "broker_step example_env ?idle b0 = Inr b" "ticks b = 2"
    using b0 by (simp add: broker_step_def clock_gettime_def pong_health_checker_def check_pending_requests_def)
  from b(1) have "broker_iter\<^sup>*\<^sup>* b0 b" by (blast intro: broker_iter.iterate)
  with reachable_broker_inv [OF b0(1) this] b0(1) b(2) show ?thesis by blast
qed

text \<open>
  C13: A request for an available service is forwarded to every reliable copy: the broker puts
  that many identical messages on one dealer socket, each carrying the identity and the empty
  frame of the client, the current sequence number of the service and the unchanged
  parameters. It then advances the sequence number, records the request with no results and a
  deadline 5 seconds later, and nothing else about the service changes.
\<close>

theorem get_request_forwards:
  fixes c :: uint32
  assumes "broker_inv b" and "load 4 1 f = Inr c" and "length params = PARAM_SIZE"
    and "services_db (b_db b) s = Some r" and "s \<in> set (available_services b)"
    and "unat (dealer_skt_index r) < length (dealer b)"
  shows "\<exists>b' q sm. get_request env (f, e, enc_request (request_for s params)) b = Inr b' \<and>
     sent b' = sent b @ concat (replicate (unat (num_copies_reliable r))
       (send_frames (Dealer (unat (dealer_skt_index r))) [f, e, enc_service sm])) \<and>
     \<not> sm_heartbeat sm \<and> ntohl (sm_seq_id sm) = seq_id_request r \<and> sm_parameters sm = params \<and>
     services_db (b_db b') s =
       Some (r\<lparr>seq_id_request := seq_id_request r + 1, request_records := request_records r @ [q]\<rparr>) \<and>
     client_id q = c \<and> results q = [] \<and>
     to_ns (rr_timeout q) = to_ns (clk env (ticks b)) + 5000000000"
proof -
  have "length (timeouts b) = length (available_services b)" using assms(1) by (simp add: broker_inv_def)
  note eq = get_request_eq [OF assms(2-4) assms(6) assms(5) this, of env e]
  show ?thesis
    by (rule exI, rule exI [of _ "(junk_request env)\<lparr>client_id := c, results := [],
           rr_timeout := time_add_ms (clk env (ticks b)) REQUEST_TIMEOUT\<rparr>"],
        rule exI [of _ "forwarded env r params"], rule conjI [OF eq])
      (simp add: forwarded_def to_ns_time_add_ms)
qed

theorem get_request_forwards_witness:
  "\<exists>b' sm. get_request example_env (client_frame 9, [], enc_request (request_for 0 (replicate 100 53))) (example_broker []) =
       Inr b' \<and>
     sent b' = concat (replicate 3 (send_frames (Dealer 0) [client_frame 9, [], enc_service sm])) \<and>
     sm_parameters sm = replicate 100 53"
proof -
  have "load 4 1 (client_frame 9) = Inr (9 :: uint32)" "length (replicate 100 (53 :: byte)) = 100"
    "services_db (b_db (example_broker [])) 0 = Some example_record" "0 \<in> set (available_services (example_broker []))"
    "unat (dealer_skt_index example_record) < length (dealer (example_broker []))"
    by (simp_all add: example_record_def)
  from get_request_forwards [OF example_broker_inv this, of example_env "[]"] show ?thesis
    by (fastforce simp: example_record_def)
qed

text \<open>
  A request for a service nobody has registered is answered with
  \<open>SERVICE_NOT_AVAILABLE\<close> and leaves the broker as it was, apart from that one message to the
  client; when the client has gone, the mandatory routing option makes the send throw.
\<close>

theorem get_request_unknown_service:
  fixes c :: uint32
  assumes "load 4 1 f = Inr c" and "length params = PARAM_SIZE" and "services_db (b_db b) s = None"
  shows "get_request env (f, e, enc_request (request_for s params)) b =
     (if routable env f
      then Inr (b\<lparr>sent := sent b @ send_frames Router [f, e, enc_response
        ((junk_response env)\<lparr>rs_status := htonl (status_code SERVICE_NOT_AVAILABLE)\<rparr>)]\<rparr>)
      else Inl Zmq_Error)"
  using assms
  by (simp add: get_request_def find_registration_def router_send_eq router_send_unroutable)
    (simp add: request_for_def router_send_eq router_send_unroutable)

theorem get_request_unknown_service_witness:
  "get_request example_env (client_frame 9, [], enc_request (request_for 2 (replicate 100 53))) (example_broker []) =
     Inr ((example_broker [])\<lparr>sent := send_frames Router [client_frame 9, [], enc_response
        ((junk_response example_env)\<lparr>rs_status := htonl 1\<rparr>)]\<rparr>)"
  using get_request_unknown_service [of "client_frame 9" 9 "replicate 100 53" "example_broker []" 2 example_env "[]"]
  by simp

text \<open>
  C36: A request for a service of which some copies have registered, but not all, is not
  refused: the broker indexes a dealer socket or a heartbeat deadline that does not exist, so
  the behaviour is undefined.
\<close>

theorem get_request_not_ready:
  fixes c :: uint32
  assumes "broker_inv b" and "load 4 1 f = Inr c" and "length params = PARAM_SIZE"
    and "services_db (b_db b) s = Some r" and "s \<notin> set (available_services b)"
  shows "get_request env (f, e, enc_request (request_for s params)) b = Inl Undefined_Behaviour"
proof -
  have len: "length (timeouts b) = length (available_services b)" using assms(1) by (simp add: broker_inv_def)
  let ?db1 = "put_record (b_db b) s (r\<lparr>seq_id_request := seq_id_request r + 1\<rparr>)"
  let ?i = "unat (dealer_skt_index r)"
  note start = get_request_found [OF assms(2-4), of env e]
  show ?thesis
  proof (cases "?i < length (dealer b) \<or> num_copies_reliable r = 0")
    case True
    then obtain b1 where b1: "send_copies (unat (num_copies_reliable r)) ?i
        [f, e, enc_service (forwarded env r params)] (b\<lparr>b_db := ?db1\<rparr>) = Inr b1"
      by (auto simp: send_copies_eq)
    from send_copies_frame [OF this] b1 show ?thesis using assms(5) len
      by (auto simp: start clock_gettime_def push_request_def update_timeout_unavailable)
  next
    case False
    then obtain n where "unat (num_copies_reliable r) = Suc n"
      by (metis not0_implies_Suc unat_eq_zero)
    with False show ?thesis by (simp add: start vec_get_ge)
  qed
qed

theorem get_request_not_ready_witness:
  "get_request example_env (client_frame 9, [], enc_request (request_for 0 (replicate 100 53)))
     ((example_broker [])\<lparr>available_services := [], timeouts := [], dealer := [], poll_items := [Router, Reg, Hc]\<rparr>) =
   Inl Undefined_Behaviour"
proof (rule get_request_not_ready)
  let ?b = "(example_broker [])\<lparr>available_services := [], timeouts := [], dealer := [], poll_items := [Router, Reg, Hc]\<rparr>"
  show "broker_inv ?b" using example_broker_inv [of "[]"] by (simp add: broker_inv_def)
  show "load 4 1 (client_frame 9) = Inr (9 :: uint32)" "length (replicate 100 (53 :: byte)) = 100"
    "services_db (b_db ?b) 0 = Some example_record" "0 \<notin> set (available_services ?b)"
    by (simp_all add: example_record_def)
qed

text \<open>
  C9: One reply of a server copy does to the waiting requests and to the client what the voting
  specification says: \<open>get_response\<close> refines \<open>vote_step\<close>. The answer goes out in the same
  step that completes a majority (\<open>SERVICE_AVAILABLE\<close> with the majority value) or that brings
  the last reply without one (\<open>SERVICE_NOT_RELIABLE\<close>); the request is then dropped. Requests
  of other clients and of other services are untouched, and a reply for a client that is not
  waiting changes nothing.
\<close>

theorem get_response_refines_vote_step:
  fixes c :: uint32
  assumes "in_session b s" and "load 4 1 f = Inr c" and "routable env f"
    and "\<not> sr_heartbeat rep" and "\<not> sr_duplicated rep" and "sr_service rep = htonl s"
  shows "\<exists>b'. get_response env (f, e, enc_reply rep) b = Inr b' \<and> in_session b' s \<and>
     (case vote_step (unat (b_nmr b)) (pending_of b s) c (ntohl (sr_result rep)) of (tab', out) \<Rightarrow>
        pending_of b' s = tab' \<and> sent b' = sent b @ verdict_frames env f e out) \<and>
     (\<forall>t. t \<noteq> s \<longrightarrow> pending_of b' t = pending_of b t)"
proof -
  obtain tab' out where step:
    "vote_step (unat (b_nmr b)) (pending_of b s) c (ntohl (sr_result rep)) = (tab', out)" by fastforce
  from get_response_refines [OF assms step, of e] show ?thesis by (auto simp: step)
qed

lemma example_in_session: "in_session (example_broker [example_request 5 [7], example_request 6 []]) 0"
  by (auto simp: in_session_def pending_of_def table_open_def lookup_request_def example_request_def
      the_majority_def majority_def split: if_splits)

theorem get_response_refines_vote_step_witness:
  "\<exists>b'. get_response example_env (client_frame 5, [], enc_reply (example_reply (htonl 0) (htonl 7)))
       (example_broker [example_request 5 [7], example_request 6 []]) = Inr b' \<and>
     pending_of b' 0 5 = None \<and> pending_of b' 0 6 = Some [] \<and>
     sent b' = response_frames (client_frame 5) [] SERVICE_AVAILABLE 7"
proof -
  let ?b = "example_broker [example_request 5 [7], example_request 6 []]"
  let ?rep = "example_reply (htonl 0) (htonl 7)"
  have hyps: "load 4 1 (client_frame 5) = Inr (5 :: uint32)" "routable example_env (client_frame 5)"
    "\<not> sr_heartbeat ?rep" "\<not> sr_duplicated ?rep" "sr_service ?rep = htonl 0"
    by (simp_all add: example_reply_def)
  have tab: "pending_of ?b 0 5 = Some [7]" "pending_of ?b 0 6 = Some []"
    by (simp_all add: pending_of_def lookup_request_def example_request_def)
  have "vote_step 3 (pending_of ?b 0) 5 7 = ((pending_of ?b 0)(5 := None), Some (Answered 7))"
    by (simp add: vote_step_def tab the_majority_def majority_def)
  then show ?thesis
    using get_response_refines_vote_step [OF example_in_session hyps, of "[]"] tab
    by (auto simp: example_reply_def)
qed

text \<open>
  C8: Exactly one answer per request: while the copies of a service reply, in any order and
  interleaved with replies to other clients and with duplicate notices, a waiting client whose
  request every copy answers is sent exactly one response, and it is the majority of the
  \<open>nmr\<close> results for that client, or \<open>SERVICE_NOT_RELIABLE\<close> when there is no majority. The
  broker never fails on such replies and keeps no trace of the request afterwards.
\<close>

theorem client_answered_exactly_once:
  assumes "in_session b s" and "\<forall>(d, rep) \<in> set rs. \<not> sr_heartbeat rep \<and> sr_service rep = htonl s \<and> routable env (client_frame d)"
    and "pending_of b s c = Some []"
    and "length (replies_to c (counted rs)) = unat (b_nmr b)"
  shows "\<exists>b' outs. dealer_loop env (map reply_event rs) b = Inr b' \<and>
     sent b' = sent b @ verdict_messages env outs \<and>
     replies_to c outs =
       [case the_majority (unat (b_nmr b)) (replies_to c (counted rs)) of
          Some w \<Rightarrow> Answered w | None \<Rightarrow> Unreliable] \<and>
     pending_of b' s c = None"
proof -
  let ?n = "unat (b_nmr b)" and ?vs = "replies_to c (counted rs)"
  from dealer_loop_refines [OF assms(1,2)] obtain b'
    where b': "dealer_loop env (map reply_event rs) b = Inr b'"
      "pending_of b' s = fst (vote_run ?n (pending_of b s) (counted rs))"
      "sent b' = sent b @ verdict_messages env (snd (vote_run ?n (pending_of b s) (counted rs)))" by blast
  have "0 < ?n" using assms(1,3) by (auto simp: in_session_def dest!: table_openD)
  then have "?vs \<noteq> []" using assms(4) by auto
  then have "nmr_session ?n [] ?vs = (case the_majority ?n ?vs of Some w \<Rightarrow> Answered w | None \<Rightarrow> Unreliable)"
    using nmr_session_complete [of "[]" ?vs ?n] assms(4) by (auto simp: majority_def)
  with vote_run_session [of "pending_of b s" c "[]" ?n "counted rs", OF assms(3)] b' show ?thesis
    by (auto split: option.splits)
qed

theorem client_answered_exactly_once_witness:
  "\<exists>b' outs. dealer_loop example_env (map reply_event
       [(5, example_reply (htonl 0) (htonl 7)), (6, example_reply (htonl 0) (htonl 1)),
        (5, example_reply (htonl 0) (htonl 8)), (5, example_reply (htonl 0) (htonl 7))])
       (example_broker [example_request 5 [], example_request 6 []]) = Inr b' \<and>
     sent b' = verdict_messages example_env outs \<and> replies_to 5 outs = [Answered 7]"
proof -
  let ?b = "example_broker [example_request 5 [], example_request 6 []]"
  let ?rs = "[(5, example_reply (htonl 0) (htonl 7)), (6, example_reply (htonl 0) (htonl 1)),
        (5, example_reply (htonl 0) (htonl 8)), (5, example_reply (htonl 0) (htonl 7))]"
  have session: "in_session ?b 0"
    by (auto simp: in_session_def pending_of_def table_open_def lookup_request_def example_request_def
        the_majority_def split: if_splits)
  have replies: "replies_to 5 (counted ?rs) = [7, 8, 7]" by (simp add: counted_def example_reply_def)
  have "\<forall>(d, rep) \<in> set ?rs. \<not> sr_heartbeat rep \<and> sr_service rep = htonl 0 \<and> routable example_env (client_frame d)"
    by (simp add: example_reply_def)
  moreover have "pending_of ?b 0 5 = Some []" "length (replies_to 5 (counted ?rs)) = unat (b_nmr ?b)"
    by (simp_all add: replies pending_of_def lookup_request_def example_request_def)
  ultimately show ?thesis
    using client_answered_exactly_once [OF session] by (fastforce simp: replies the_majority_def majority_def)
qed

text \<open>
  C14: No wrong answer, in any state: whatever the database holds and whatever arrives on a
  dealer socket, a message \<open>get_response\<close> sends goes to the identity the reply carries, and it
  says \<open>SERVICE_AVAILABLE\<close> only with a value that more than \<open>nmr / 2\<close> of the results
  recorded for that client agree on.
\<close>

theorem get_response_answers_majority:
  assumes "get_response env (f, e, d) b = Inr b'" and "sent b' \<noteq> sent b"
  shows "\<exists>(c :: uint32) rep db1 num xs st w. load 4 1 f = Inr c \<and> dec_reply d = Inr rep \<and>
     push_result (b_db b) (rep\<lparr>sr_result := ntohl (sr_result rep), sr_service := ntohl (sr_service rep)\<rparr>) c =
       Inr (db1, num) \<and>
     get_result db1 (ntohl (sr_service rep)) c = Inr xs \<and>
     sent b' = sent b @ response_frames f e st w \<and>
     (st = SERVICE_AVAILABLE \<and> majority (unat (b_nmr b)) xs w \<or>
      st = SERVICE_NOT_RELIABLE \<and> num = int (unat (b_nmr b)))"
proof -
  from assms(1) obtain c :: uint32 and rep where in_frames: "load 4 1 f = Inr c" "dec_reply d = Inr rep"
    by (auto simp: get_response_def rbind_Inr_iff)
  let ?rep = "rep\<lparr>sr_result := ntohl (sr_result rep), sr_service := ntohl (sr_service rep)\<rparr>"
  have "\<not> sr_heartbeat rep" "\<not> sr_duplicated rep"
    using assms in_frames by (auto simp: get_response_def rbind_Inr_iff Let_def split: if_splits)
  with assms in_frames obtain db1 num xs ret w
    where result: "push_result (b_db b) ?rep c = Inr (db1, num)" "get_result db1 (ntohl (sr_service rep)) c = Inr xs"
      "vote (b_nmr b) xs (junk_result env) = Some (ret, w)"
      and answer: "ret \<ge> 0 \<and> answer_client env f e SERVICE_AVAILABLE w (ntohl (sr_service rep)) c (b\<lparr>b_db := db1\<rparr>) = Inr b' \<or>
        num = int (unat (b_nmr b)) \<and>
          answer_client env f e SERVICE_NOT_RELIABLE w (ntohl (sr_service rep)) c (b\<lparr>b_db := db1\<rparr>) = Inr b'"
    by (auto simp: get_response_def rbind_Inr_iff of_option_Inr_iff Let_def split: if_splits)
  have frames: "sent b' = sent b @ response_frames f e st w"
    if "answer_client env f e st w s c (b\<lparr>b_db := db1\<rparr>) = Inr b'" for st s
    using that by (auto simp: answer_client_def router_send_def rbind_Inr_iff response_frames_def split: if_splits)
  from answer show ?thesis
  proof
    assume "ret \<ge> 0 \<and> answer_client env f e SERVICE_AVAILABLE w (ntohl (sr_service rep)) c (b\<lparr>b_db := db1\<rparr>) = Inr b'"
    with result in_frames frames vote_accepts_only_majority show ?thesis by blast
  next
    assume "num = int (unat (b_nmr b)) \<and>
          answer_client env f e SERVICE_NOT_RELIABLE w (ntohl (sr_service rep)) c (b\<lparr>b_db := db1\<rparr>) = Inr b'"
    with result in_frames frames show ?thesis by blast
  qed
qed

theorem get_response_answers_majority_witness:
  "\<exists>(c :: uint32) xs st w b'. get_response example_env (client_frame 5, [], enc_reply (example_reply (htonl 0) (htonl 7)))
       (example_broker [example_request 5 [7], example_request 6 []]) = Inr b' \<and>
     load 4 1 (client_frame 5) = Inr c \<and>
     sent b' = response_frames (client_frame 5) [] st w \<and>
     (st = SERVICE_AVAILABLE \<and> majority 3 xs w \<or> st = SERVICE_NOT_RELIABLE)"
proof -
  let ?b = "example_broker [example_request 5 [7], example_request 6 []]"
  let ?rep = "example_reply (htonl 0) (htonl 7)"
  have hyps: "load 4 1 (client_frame 5) = Inr (5 :: uint32)" "routable example_env (client_frame 5)"
    "\<not> sr_heartbeat ?rep" "\<not> sr_duplicated ?rep" "sr_service ?rep = htonl 0"
    by (simp_all add: example_reply_def)
  have "vote_step (unat (b_nmr ?b)) (pending_of ?b 0) 5 (ntohl (sr_result ?rep)) = ((pending_of ?b 0)(5 := None), Some (Answered 7))"
    by (simp add: vote_step_def pending_of_def lookup_request_def example_request_def example_reply_def
        the_majority_def majority_def)
  from get_response_refines [OF example_in_session hyps this, of "[]"] obtain b'
    where b': "get_response example_env (client_frame 5, [], enc_reply ?rep) ?b = Inr b'"
      "sent b' = response_frames (client_frame 5) [] SERVICE_AVAILABLE 7" by auto
  then have "sent b' \<noteq> sent ?b" by (simp add: response_frames_def)
  from get_response_answers_majority [OF b'(1) this] b'(1) show ?thesis by auto
qed

end
