(* ===== verification/RSF_Broker_Run.thy ===== *)
theory RSF_Broker_Run
  imports RSF_Broker_Facts
begin

text \<open>
  Invariants of the broker's main loop, one elementary action at a time. The handlers of the
  broker do a handful of things: read the clock, forward a request, ping a service, store a
  result, answer a client, register a copy. The locale \<open>broker_invariant\<close> lists what an
  assertion must satisfy for each of them, and proves once that an iteration of the main loop
  keeps it. First comes the log of sends as a list of whole messages.
\<close>

section \<open>Whole messages\<close>

fun messages :: "'k zsend list \<Rightarrow> ('k \<times> frame list) list" where
  "messages [] = []"
| "messages ((k, f, mr) # es) =
     (if mr then (case messages es of [] \<Rightarrow> [] | (_, fs) # ms \<Rightarrow> (k, f # fs) # ms)
      else (k, [f]) # messages es)"

definition whole :: "'k zsend list \<Rightarrow> bool" where
  "whole es \<longleftrightarrow> es = [] \<or> \<not> snd (snd (last es))"

lemma whole_Nil [simp]: "whole []"
  by (simp add: whole_def)

lemma messages_send_frames: "fs \<noteq> [] \<Longrightarrow> messages (send_frames k fs @ es) = (k, fs) # messages es"
  by (induction k fs rule: send_frames.induct) auto

lemma whole_send_frames [simp]: "fs \<noteq> [] \<Longrightarrow> whole (es @ send_frames k fs)"
proof -
  have "fs \<noteq> [] \<Longrightarrow> send_frames k fs \<noteq> [] \<and> \<not> snd (snd (last (send_frames k fs)))"
    by (induction k fs rule: send_frames.induct) auto
  then show "fs \<noteq> [] \<Longrightarrow> whole (es @ send_frames k fs)" by (simp add: whole_def)
qed

lemma messages_not_Nil: "whole es \<Longrightarrow> es \<noteq> [] \<Longrightarrow> messages es \<noteq> []"
proof (induction es rule: messages.induct)
  case (2 k f mr es)
  then show ?case by (cases "es = []") (auto simp: whole_def split: list.splits)
qed simp

lemma messages_append: "whole es \<Longrightarrow> messages (es @ es') = messages es @ messages es'"
proof (induction es rule: messages.induct)
  case (2 k f mr es)
  show ?case
  proof (cases mr)
    case True
    with "2.prems" have "es \<noteq> []" "whole es" by (auto simp: whole_def split: if_splits)
    with 2 True messages_not_Nil [of es] show ?thesis by (cases "messages es") auto
  next
    case False
    with "2.prems" have "whole es" by (auto simp: whole_def)
    with 2 False show ?thesis by simp
  qed
qed simp

lemma messages_snoc [simp]:
  "whole es \<Longrightarrow> fs \<noteq> [] \<Longrightarrow> messages (es @ send_frames k fs) = messages es @ [(k, fs)]"
  using messages_append [of es "send_frames k fs"] messages_send_frames [of fs k "[]"] by simp

lemma whole_copies [simp]: "whole es \<Longrightarrow> fs \<noteq> [] \<Longrightarrow> whole (es @ concat (replicate n (send_frames k fs)))"
  by (induction n arbitrary: es) (simp_all flip: append_assoc)

lemma messages_copies [simp]:
  "whole es \<Longrightarrow> fs \<noteq> [] \<Longrightarrow> messages (es @ concat (replicate n (send_frames k fs))) = messages es @ replicate n (k, fs)"
  by (induction n arbitrary: es) (simp_all flip: append_assoc)

section \<open>Registrations as messages\<close>

text \<open>The frames of one message, all of which the handler receives.\<close>

definition whole_registration :: "(frame \<times> bool) list \<Rightarrow> bool" where
  "whole_registration fs \<longleftrightarrow> map snd fs = [True, True, False]"

lemma whole_registrationE:
  assumes "whole_registration fs"
  obtains gs d where "fs = map (\<lambda>g. (g, True)) gs @ [(d, False)]" "take ENVELOPE fs = fs"
proof -
  from assms obtain f e d where fs: "fs = [(f, True), (e, True), (d, False)]"
    by (auto simp: whole_registration_def map_eq_Cons_conv)
  show thesis by (rule that [of "[f, e]" d]) (simp_all add: fs)
qed

lemma registration_loop_echo:
  "registration_loop env (map (\<lambda>g. (g, True)) gs @ fs) already b =
     registration_loop env fs already (b\<lparr>sent := sent b @ map (\<lambda>g. (Reg, g, True)) gs\<rparr>)"
  by (induction gs arbitrary: b) simp_all

lemma send_frames_snoc: "send_frames k (gs @ [x]) = map (\<lambda>g. (k, g, True)) gs @ [(k, x, False)]"
proof (induction gs)
  case (Cons g gs)
  then show ?case by (cases gs) simp_all
qed simp

lemma make_available_sent:
  "make_available env s p (b\<lparr>sent := es\<rparr>) = rbind (make_available env s p b) (\<lambda>b2. Inr (b2\<lparr>sent := es\<rparr>))"
  by (simp add: make_available_def add_dealer_def clock_gettime_def)

text \<open>One whole registration: the frames before the last are sent back, followed by the port.\<close>

lemma registration_message:
  assumes "whole_registration fs" "get_registration env fs b = Inr b'"
  obtains gs d rm s db' port' ready ret b2 where "dec_registration d = Inr rm" "s = ntohl (rg_service rm)"
    "push_registration (b_db b) (rm\<lparr>rg_service := s\<rparr>) (available_dealer_port b) = Inr (db', port', ready, ret)"
    "if ready \<and> s \<notin> set (available_services b)
     then make_available env s ret (b\<lparr>b_db := db', available_dealer_port := port'\<rparr>) = Inr b2
     else b2 = b\<lparr>b_db := db', available_dealer_port := port'\<rparr>"
    "b' = b2\<lparr>sent := sent b @ send_frames Reg (gs @ [le_bytes 2 (htons ret)])\<rparr>"
proof -
  from assms(1) obtain gs d where "fs = map (\<lambda>g. (g, True)) gs @ [(d, False)]" "take ENVELOPE fs = fs"
    by (rule whole_registrationE)
  with assms(2) have run: "registration_loop env (map (\<lambda>g. (g, True)) gs @ [(d, False)]) False b = Inr b'"
    by (simp add: get_registration_def)
  let ?es = "sent b @ map (\<lambda>g. (Reg, g, True)) gs"
  from run obtain rm where rm: "dec_registration d = Inr rm"
    by (auto simp: registration_loop_echo rbind_Inr_iff)
  let ?s = "ntohl (rg_service rm)"
  from run rm obtain db' port' ready ret where
    push: "push_registration (b_db b) (rm\<lparr>rg_service := ?s\<rparr>) (available_dealer_port b) = Inr (db', port', ready, ret)"
    by (auto simp: registration_loop_echo rbind_Inr_iff Let_def)
  let ?b1 = "b\<lparr>b_db := db', available_dealer_port := port'\<rparr>"
  show ?thesis
  proof (cases "ready \<and> ?s \<notin> set (available_services b)")
    case True
    with run rm push obtain b2 where b2: "make_available env ?s ret (b\<lparr>sent := ?es, b_db := db', available_dealer_port := port'\<rparr>) = Inr b2"
      "b' = b2\<lparr>sent := sent b2 @ [(Reg, le_bytes 2 (htons ret), False)]\<rparr>"
      by (auto simp: registration_loop_echo rbind_Inr_iff Let_def)
    have "b\<lparr>sent := ?es, b_db := db', available_dealer_port := port'\<rparr> = ?b1\<lparr>sent := ?es\<rparr>" by simp
    with b2(1) obtain b3 where b3: "make_available env ?s ret ?b1 = Inr b3" "b2 = b3\<lparr>sent := ?es\<rparr>"
      by (auto simp: make_available_sent rbind_Inr_iff)
    show ?thesis by (rule that [OF rm refl push, of b3]) (use True b2(2) b3 in \<open>simp_all add: send_frames_snoc\<close>)
  next
    case False
    then have "b' = ?b1\<lparr>sent := sent b @ send_frames Reg (gs @ [le_bytes 2 (htons ret)])\<rparr>"
      using run rm push by (auto simp: registration_loop_echo Let_def send_frames_snoc)
    then show ?thesis by (rule that [OF rm refl push, rotated]) (use False in auto)
  qed
qed

section \<open>Elementary actions\<close>

abbreviation ping_message :: "broker_env \<Rightarrow> uint32 \<Rightarrow> frame list" where
  "ping_message env ping \<equiv>
     [[0, 97, 97, 97, 97], [], enc_service ((junk_service env)\<lparr>sm_heartbeat := True, sm_seq_id := htonl ping\<rparr>)]"

abbreviation forward_message :: "broker_env \<Rightarrow> frame \<Rightarrow> frame \<Rightarrow> uint32 \<Rightarrow> byte list \<Rightarrow> frame list" where
  "forward_message env f e rid params \<equiv>
     [f, e, enc_service ((junk_service env)\<lparr>sm_heartbeat := False, sm_seq_id := htonl rid, sm_parameters := params\<rparr>)]"

abbreviation response_message :: "frame \<Rightarrow> frame \<Rightarrow> service_status_t \<Rightarrow> int32 \<Rightarrow> frame list" where
  "response_message f e st w \<equiv> [f, e, enc_response \<lparr>rs_status = htonl (status_code st), rs_result = htonl w\<rparr>]"

abbreviation refusal_message :: "broker_env \<Rightarrow> frame \<Rightarrow> frame \<Rightarrow> frame list" where
  "refusal_message env f e \<equiv>
     [f, e, enc_response ((junk_response env)\<lparr>rs_status := htonl (status_code SERVICE_NOT_AVAILABLE)\<rparr>)]"

lemma get_loop_record: "get_loop c qs xs = xs \<or> (\<exists>q \<in> set qs. client_id q = c \<and> results q = get_loop c qs xs)"
proof (induction qs arbitrary: xs)
  case (Cons q qs)
  from Cons.IH [of "if client_id q = c then results q else xs"] show ?case by auto
qed simp

text \<open>What is known of the messages that arrive in one iteration.\<close>

definition events_ok ::
    "(envelope \<Rightarrow> bool) \<Rightarrow> (envelope \<Rightarrow> bool) \<Rightarrow> ((frame \<times> bool) list \<Rightarrow> bool) \<Rightarrow> poll_result \<Rightarrow> bool" where
  "events_ok request_ok reply_ok reg_ok ev \<longleftrightarrow>
     (\<forall>fs. ev_reg ev = Some fs \<longrightarrow> reg_ok fs) \<and> (\<forall>fs. ev_router ev = Some fs \<longrightarrow> request_ok fs) \<and>
     (\<forall>fs. Some fs \<in> set (ev_dealer ev) \<longrightarrow> reply_ok fs)"

text \<open>
  \<open>P\<close> is the assertion, \<open>pending\<close> what it says of a waiting request; \<open>request_ok\<close>,
  \<open>reply_ok\<close> and \<open>reg_ok\<close> are what is known of the messages that arrive.
\<close>

locale broker_actions =
  fixes env :: broker_env and P :: "broker \<Rightarrow> bool" and pending :: "request_record_t \<Rightarrow> bool"
    and request_ok :: "envelope \<Rightarrow> bool" and reply_ok :: "envelope \<Rightarrow> bool" and reg_ok :: "(frame \<times> bool) list \<Rightarrow> bool"
  assumes clock: "P b \<Longrightarrow> P (b\<lparr>ticks := Suc (ticks b)\<rparr>)" "P b \<Longrightarrow> P (b\<lparr>b_now := t\<rparr>)" "P b \<Longrightarrow> P (b\<lparr>timeouts := ts\<rparr>)"
    and hc: "P b \<Longrightarrow> P (b\<lparr>sent := sent b @ send_frames Hc [[]]\<rparr>)"
    and registered: "P b \<Longrightarrow> reg_ok fs \<Longrightarrow> get_registration env fs b = Inr b' \<Longrightarrow> P b'"
    and refused: "P b \<Longrightarrow> request_ok (f, e, d) \<Longrightarrow> load 4 1 f = Inr (c :: uint32) \<Longrightarrow>
        P (b\<lparr>sent := sent b @ send_frames Router (refusal_message env f e)\<rparr>)"
    and forwarded: "P b \<Longrightarrow> request_ok (f, e, d) \<Longrightarrow> load 4 1 f = Inr c \<Longrightarrow> dec_request d = Inr rq \<Longrightarrow>
        s = ntohl (rq_service rq) \<Longrightarrow> services_db (b_db b) s = Some r \<Longrightarrow> n = 0 \<or> i < length (dealer b) \<Longrightarrow>
        i = unat (dealer_skt_index r) \<Longrightarrow> q = (junk_request env)\<lparr>client_id := c, results := [], rr_timeout := t\<rparr> \<Longrightarrow>
        P (b\<lparr>sent := sent b @ concat (replicate n (send_frames (Dealer i)
               (forward_message env f e (seq_id_request r) (rq_parameters rq)))),
             b_db := put_record (b_db b) s
               (r\<lparr>seq_id_request := seq_id_request r + 1, request_records := request_records r @ [q]\<rparr>)\<rparr>)"
    and pinged: "P b \<Longrightarrow> i < length (dealer b) \<Longrightarrow> P (b\<lparr>sent := sent b @ send_frames (Dealer i) (ping_message env ping)\<rparr>)"
    and pong: "P b \<Longrightarrow> register_pong (b_db b) j s = Inr db' \<Longrightarrow> P (b\<lparr>b_db := db'\<rparr>)"
    and checked: "P b \<Longrightarrow> check_pong (b_db b) s = Inr db' \<Longrightarrow> P (b\<lparr>b_db := db'\<rparr>)"
    and waiting: "P b \<Longrightarrow> services_db (b_db b) s = Some r \<Longrightarrow> q \<in> set (request_records r) \<Longrightarrow> pending q"
    and answered: "P b \<Longrightarrow> load 4 1 f = Inr c \<Longrightarrow> reply_ok (f, e, d) \<or> f = client_frame c \<and> e = [] \<Longrightarrow>
        services_db (b_db b) s = Some r \<Longrightarrow>
        (st = SERVICE_AVAILABLE \<and> (\<exists>q. pending q \<and> client_id q = c \<and> majority (unat (b_nmr b)) (results q) w)) \<or> st = SERVICE_NOT_RELIABLE \<Longrightarrow>
        P (b\<lparr>sent := sent b @ send_frames Router (response_message f e st w),
             b_db := put_record (b_db b) s (r\<lparr>request_records := erase_loop c 0 (request_records r)\<rparr>)\<rparr>)"
begin

lemma send_copies_P:
  assumes "send_copies n i (ping_message env ping) b = Inr b'" "P b"
  shows "P b'"
  using assms
proof (induction n arbitrary: b)
  case (Suc n)
  then have "i < length (dealer b)" "send_copies n i (ping_message env ping)
      (b\<lparr>sent := sent b @ send_frames (Dealer i) (ping_message env ping)\<rparr>) = Inr b'"
    by (auto simp: rbind_Inr_iff vec_get_Inr_iff)
  with Suc pinged show ?case by blast
qed simp

lemma update_timeout_P: "update_timeout env s b = Inr b' \<Longrightarrow> P b \<Longrightarrow> P b'"
  by (auto simp: update_timeout_def clock_gettime_def rbind_Inr_iff vec_set_Inr_iff intro: clock)

lemma get_request_P:
  assumes "get_request env (f, e, d) b = Inr b'" "request_ok (f, e, d)" "P b"
  shows "P b'"
proof -
  from assms(1) obtain c :: uint32 and rq where in_frames: "load 4 1 f = Inr c" "dec_request d = Inr rq"
    by (auto simp: get_request_def rbind_Inr_iff)
  let ?s = "ntohl (rq_service rq)"
  show ?thesis
  proof (cases "services_db (b_db b) ?s")
    case None
    with assms(1) in_frames have "b' = b\<lparr>sent := sent b @ send_frames Router (refusal_message env f e)\<rparr>"
      by (auto simp: get_request_def find_registration_def router_send_def split: if_splits)
    with refused [OF assms(3,2) in_frames(1)] show ?thesis by simp
  next
    case (Some r)
    let ?n = "unat (num_copies_reliable r)" and ?i = "unat (dealer_skt_index r)"
    let ?db = "put_record (b_db b) ?s (r\<lparr>seq_id_request := seq_id_request r + 1\<rparr>)"
    let ?msg = "forward_message env f e (seq_id_request r) (rq_parameters rq)"
    from Some in_frames assms(1) obtain b1 db2 t where
      fwd: "send_copies ?n ?i ?msg (b\<lparr>b_db := ?db\<rparr>) = Inr b1"
      and push: "push_request (b_db b1) ((junk_request env)\<lparr>client_id := c, results := []\<rparr>) ?s t = Inr db2"
      and upd: "update_timeout env ?s (b1\<lparr>ticks := Suc (ticks b1), b_db := db2\<rparr>) = Inr b'"
      by (auto simp: get_request_def find_registration_def get_request_id_def get_reliable_copies_def Let_def
          clock_gettime_def rbind_Inr_iff)
    have range: "?n = 0 \<or> ?i < length (dealer b)"
      using fwd by (cases ?n) (auto simp: rbind_Inr_iff vec_get_Inr_iff)
    then have b1: "b1 = b\<lparr>b_db := ?db, sent := sent b @ concat (replicate ?n (send_frames (Dealer ?i) ?msg))\<rparr>"
      using fwd by (auto simp: send_copies_eq)
    let ?q = "(junk_request env)\<lparr>client_id := c, results := [], rr_timeout := time_add_ms t REQUEST_TIMEOUT\<rparr>"
    have db2: "db2 = put_record (b_db b) ?s
        (r\<lparr>seq_id_request := seq_id_request r + 1, request_records := request_records r @ [?q]\<rparr>)"
      using push by (simp add: b1 push_request_def)
    from forwarded [OF assms(3,2) in_frames refl Some range refl refl, of "time_add_ms t REQUEST_TIMEOUT"]
    have "P (b1\<lparr>b_db := db2\<rparr>)" by (simp add: b1 db2)
    from clock(1) [OF this] have "P (b1\<lparr>b_db := db2, ticks := Suc (ticks b1)\<rparr>)" by simp
    also have "b1\<lparr>b_db := db2, ticks := Suc (ticks b1)\<rparr> = b1\<lparr>ticks := Suc (ticks b1), b_db := db2\<rparr>" by simp
    finally have "P (b1\<lparr>ticks := Suc (ticks b1), b_db := db2\<rparr>)" .
    with upd show ?thesis by (rule update_timeout_P)
  qed
qed

lemma answer_client_P:
  assumes "answer_client env f e st w s c b = Inr b'" "P b" "load 4 1 f = Inr c"
    and "reply_ok (f, e, d) \<or> f = client_frame c \<and> e = []"
    and "(st = SERVICE_AVAILABLE \<and> (\<exists>q. pending q \<and> client_id q = c \<and> majority (unat (b_nmr b)) (results q) w)) \<or>
      st = SERVICE_NOT_RELIABLE"
  shows "P b'"
proof -
  from assms(1) obtain r where r: "services_db (b_db b) s = Some r"
    and b': "b' = b\<lparr>sent := sent b @ send_frames Router (response_message f e st w),
      b_db := put_record (b_db b) s (r\<lparr>request_records := erase_loop c 0 (request_records r)\<rparr>)\<rparr>"
    by (auto simp: answer_client_def router_send_def delete_request_def rbind_Inr_iff split: if_splits option.splits)
  show ?thesis unfolding b' by (rule answered [OF assms(2-4) r assms(5)])
qed

text \<open>A reply, when storing its result keeps the assertion.\<close>

lemma get_response_stored:
  assumes "get_response env (f, e, d) b = Inr b'" "reply_ok (f, e, d)" "P b"
    and stored: "\<And>c rep db' num. load 4 1 f = Inr c \<Longrightarrow> dec_reply d = Inr rep \<Longrightarrow> \<not> sr_heartbeat rep \<Longrightarrow> \<not> sr_duplicated rep \<Longrightarrow>
      push_result (b_db b) (rep\<lparr>sr_result := ntohl (sr_result rep), sr_service := ntohl (sr_service rep)\<rparr>) c = Inr (db', num) \<Longrightarrow>
      P (b\<lparr>b_db := db'\<rparr>)"
  shows "P b'"
proof -
  from assms(1) obtain c :: uint32 and rep where in_frames: "load 4 1 f = Inr c" "dec_reply d = Inr rep"
    by (auto simp: get_response_def rbind_Inr_iff)
  let ?s = "ntohl (sr_service rep)"
  let ?rep = "rep\<lparr>sr_result := ntohl (sr_result rep), sr_service := ?s\<rparr>"
  consider (heartbeat) "sr_heartbeat rep" | (notice) "\<not> sr_heartbeat rep" "sr_duplicated rep"
    | (vote_cast) "\<not> sr_heartbeat rep" "\<not> sr_duplicated rep" by blast
  then show ?thesis
  proof cases
    case heartbeat
    with assms(1,3) in_frames show ?thesis by (auto simp: get_response_def rbind_Inr_iff intro: pong)
  next
    case notice
    with assms(1,3) in_frames show ?thesis by (auto simp: get_response_def)
  next
    case vote_cast
    with assms(1) in_frames obtain db1 num where push: "push_result (b_db b) ?rep c = Inr (db1, num)"
      by (auto simp: get_response_def rbind_Inr_iff Let_def)
    let ?b = "b\<lparr>b_db := db1\<rparr>"
    have P1: "P ?b" by (rule stored [OF in_frames vote_cast push])
    show ?thesis
    proof (cases "int (unat (b_nmr b) div 2) < num")
      case False
      with assms(1) in_frames vote_cast push P1 show ?thesis by (auto simp: get_response_def)
    next
      case True
      with assms(1) in_frames vote_cast push obtain xs ret w
        where xs: "get_result db1 ?s c = Inr xs" "vote (b_nmr b) xs (junk_result env) = Some (ret, w)"
        and ans: "ret \<ge> 0 \<and> answer_client env f e SERVICE_AVAILABLE w ?s c ?b = Inr b' \<or>
          answer_client env f e SERVICE_NOT_RELIABLE w ?s c ?b = Inr b' \<or> b' = ?b"
        by (auto simp: get_response_def rbind_Inr_iff of_option_Inr_iff Let_def split: if_splits)
      have "\<exists>q. pending q \<and> client_id q = c \<and> majority (unat (b_nmr b)) (results q) w" if "ret \<ge> 0"
      proof -
        from vote_accepts_only_majority [OF xs(2) that] have maj: "majority (unat (b_nmr b)) xs w" .
        then have "xs \<noteq> []" by (auto simp: majority_def)
        moreover from xs(1) obtain r where r: "services_db (b_db ?b) ?s = Some r" "get_loop c (request_records r) [] = xs"
          by (auto simp: get_result_def split: option.splits)
        ultimately obtain q where "q \<in> set (request_records r)" "client_id q = c" "results q = xs"
          using get_loop_record [of c "request_records r" "[]"] r(2) by fastforce
        with waiting [OF P1 r(1)] maj show ?thesis by blast
      qed
      with ans P1 in_frames(1) assms(2) show ?thesis by (auto intro: answer_client_P)
    qed
  qed
qed

lemma heartbeat_loop_P: "heartbeat_loop env n i b = Inr b' \<Longrightarrow> P b \<Longrightarrow> P b'"
proof (induction n arbitrary: i b)
  case (Suc n)
  show ?case
  proof (cases "time_cmp (b_now b) (timeouts b ! i) = 1")
    case True
    with Suc.prems(1) obtain s db' b1 b2
      where steps: "check_pong (b_db b) s = Inr db'" "ping_server env (of_nat i) s (b\<lparr>b_db := db'\<rparr>) = Inr b1"
        "update_timeout env s b1 = Inr b2" "heartbeat_loop env n (Suc i) b2 = Inr b'"
      by (auto simp: rbind_Inr_iff vec_get_Inr_iff)
    from checked [OF Suc.prems(2) steps(1)] steps(2) have "P b1"
      by (auto simp: ping_server_def Let_def rbind_Inr_iff elim: send_copies_P)
    with steps show ?thesis by (meson Suc.IH update_timeout_P)
  next
    case False
    with Suc show ?thesis by (auto simp: rbind_Inr_iff vec_get_Inr_iff)
  qed
qed simp

lemma pending_inner_P:
  "pending_inner env now i qs res b = Inr (res', b') \<Longrightarrow> \<forall>q \<in> set qs. pending q \<Longrightarrow> P b \<Longrightarrow> P b'"
proof (induction qs arbitrary: res b)
  case (Cons q qs)
  show ?case
  proof (cases "time_cmp now (rr_timeout q) = 1")
    case False
    with Cons show ?thesis by simp
  next
    case True
    with Cons.prems(1) obtain ret w b1 where vote: "vote (b_nmr b) (results q) res = Some (ret, w)"
      and ans: "answer_client env (client_frame (client_id q)) [] (if ret \<ge> 0 then SERVICE_AVAILABLE else SERVICE_NOT_RELIABLE)
        w (of_nat i) (client_id q) b = Inr b1"
      and rest: "pending_inner env now i qs w b1 = Inr (res', b')"
      by (auto simp: rbind_Inr_iff of_option_Inr_iff client_frame_def)
    have "P b1"
      using ans by (rule answer_client_P [OF _ Cons.prems(3)]) (use vote_accepts_only_majority [OF vote] Cons.prems(2) in auto)
    with Cons rest show ?thesis by simp
  qed
qed simp

lemma pending_outer_P: "pending_outer env now i ss res b = Inr b' \<Longrightarrow> P b \<Longrightarrow> P b'"
proof (induction ss arbitrary: i res b)
  case (Cons s ss)
  then obtain qs res1 b1 where steps: "get_pending_requests (b_db b) s = Inr qs"
    "pending_inner env now i qs res b = Inr (res1, b1)" "pending_outer env now (Suc i) ss res1 b1 = Inr b'"
    by (auto simp: rbind_Inr_iff)
  from steps(1) have "\<forall>q \<in> set qs. pending q"
    by (auto simp: get_pending_requests_def split: option.splits intro: waiting [OF Cons.prems(2)])
  with steps Cons show ?case by (blast intro: pending_inner_P)
qed simp

lemma check_pending_requests_P: "check_pending_requests env b = Inr b' \<Longrightarrow> P b \<Longrightarrow> P b'"
  by (auto simp: check_pending_requests_def clock_gettime_def intro: pending_outer_P clock)

text \<open>An iteration before and after the replies, which come in between.\<close>

lemma broker_step_replies:
  assumes "broker_step env ev b = Inr b'" "events_ok request_ok ok reg_ok ev" "P b"
  obtains b4 b5 b6 where "P b4" "dealer_loop env (ev_dealer ev) b4 = Inr b5"
    "heartbeat_loop env (length (timeouts b5)) 0 b5 = Inr b6" "check_pending_requests env b6 = Inr b'"
proof -
  define b2 where "b2 = (let b1 = b\<lparr>ticks := Suc (ticks b), b_now := clk env (ticks b)\<rparr>
    in if ev_hc ev then pong_health_checker b1 else b1)"
  have "P (b\<lparr>ticks := Suc (ticks b), b_now := clk env (ticks b)\<rparr>)"
    using clock(2) [OF clock(1) [OF assms(3)]] by simp
  from this hc [OF this] have b2: "P b2" by (simp add: b2_def pong_health_checker_def Let_def)
  from broker_step_phases [OF assms(1)] obtain b3 b4 b5 b6
    where steps: "(case ev_reg ev of None \<Rightarrow> Inr b2 | Some fs \<Rightarrow> get_registration env fs b2) = Inr b3"
      "(case ev_router ev of None \<Rightarrow> Inr b3 | Some fs \<Rightarrow> get_request env fs b3) = Inr b4"
      "dealer_loop env (ev_dealer ev) b4 = Inr b5" "heartbeat_loop env (length (timeouts b5)) 0 b5 = Inr b6"
      "check_pending_requests env b6 = Inr b'"
    unfolding b2_def .
  from b2 steps(1) assms(2) have "P b3" by (auto simp: events_ok_def split: option.splits intro: registered)
  with steps(2) assms(2) have "P b4"
    by (auto simp: events_ok_def split: option.splits intro: get_request_P)
  then show ?thesis using steps(3-5) by (rule that)
qed

lemma after_replies:
  "P b5 \<Longrightarrow> heartbeat_loop env n 0 b5 = Inr b6 \<Longrightarrow> check_pending_requests env b6 = Inr b' \<Longrightarrow> P b'"
  by (blast intro: heartbeat_loop_P check_pending_requests_P)

end

text \<open>An assertion that storing a result keeps as well is an invariant of the main loop.\<close>

locale broker_invariant = broker_actions +
  assumes result: "P b \<Longrightarrow> reply_ok (f, e, d) \<Longrightarrow> load 4 1 f = Inr c \<Longrightarrow> dec_reply d = Inr rep \<Longrightarrow>
        \<not> sr_heartbeat rep \<Longrightarrow> \<not> sr_duplicated rep \<Longrightarrow>
        push_result (b_db b) (rep\<lparr>sr_result := ntohl (sr_result rep), sr_service := ntohl (sr_service rep)\<rparr>) c = Inr (db', num) \<Longrightarrow>
        P (b\<lparr>b_db := db'\<rparr>)"
begin

lemma get_response_P: "get_response env (f, e, d) b = Inr b' \<Longrightarrow> reply_ok (f, e, d) \<Longrightarrow> P b \<Longrightarrow> P b'"
  by (rule get_response_stored) (auto intro: result)

lemma dealer_loop_P:
  "dealer_loop env evs b = Inr b' \<Longrightarrow> \<forall>fs. Some fs \<in> set evs \<longrightarrow> reply_ok fs \<Longrightarrow> P b \<Longrightarrow> P b'"
proof (induction evs arbitrary: b)
  case (Cons ev evs)
  show ?case
  proof (cases ev)
    case None
    with Cons show ?thesis by simp
  next
    case (Some fs)
    with Cons.prems(1) obtain b1 where b1: "get_response env fs b = Inr b1" "dealer_loop env evs b1 = Inr b'"
      by (auto simp: rbind_Inr_iff)
    moreover have "reply_ok fs" using Cons.prems(2) Some by (cases fs) simp
    ultimately have "P b1" using Cons.prems(3) by (cases fs) (auto intro: get_response_P)
    with Cons b1(2) show ?thesis by simp
  qed
qed simp

text \<open>An iteration ends with the check of the pending requests.\<close>

lemma broker_step_before_check:
  assumes "broker_step env ev b = Inr b'" "events_ok request_ok reply_ok reg_ok ev" "P b"
  obtains b6 where "P b6" "check_pending_requests env b6 = Inr b'"
proof -
  from assms obtain b4 b5 b6 where b: "P b4" "dealer_loop env (ev_dealer ev) b4 = Inr b5"
    "heartbeat_loop env (length (timeouts b5)) 0 b5 = Inr b6" "check_pending_requests env b6 = Inr b'"
    by (rule broker_step_replies)
  have "P b5" by (rule dealer_loop_P [OF b(2) _ b(1)]) (use assms(2) in \<open>auto simp: events_ok_def\<close>)
  then have "P b6" using b(3) by (blast intro: heartbeat_loop_P)
  then show ?thesis using b(4) by (rule that)
qed

lemma broker_step_P:
  "broker_step env ev b = Inr b' \<Longrightarrow> events_ok request_ok reply_ok reg_ok ev \<Longrightarrow> P b \<Longrightarrow> P b'"
  by (erule (2) broker_step_before_check) (rule check_pending_requests_P)

end

end
