(* ===== verification/RSF_Api.thy ===== *)
theory RSF_Api
  imports RSF_Socket
begin

text \<open>
  The programming interface of the framework (\<^verbatim>\<open>include/rsf_api.hpp\<close>,
  \<^verbatim>\<open>src/framework/rsf_api.cpp\<close>, \<^verbatim>\<open>src/server/registrator_class.cpp\<close>): the client's
  \<open>request_service\<close> and the server's registration. The exchange over a request socket is a
  function from the frame sent to the frame received, where \<open>None\<close> means that no answer
  comes; the registration socket has a receive timeout, so there an absent answer is an
  ordinary outcome. \<open>send_reg\<close> is the static variable of \<open>register_service\<close>.
\<close>

section \<open>The client\<close>

record rsf_client =
  cl_socket :: socket_conf

definition new_client :: "string \<Rightarrow> uint16 \<Rightarrow> rsf_client res" where
  "new_client addr port = rbind (add_socket addr port ZMQ_REQ Connect) (\<lambda>skt. Inr \<lparr>cl_socket = skt\<rparr>)"

text \<open>\<open>strcpy\<close> into an array with the given contents writes the string and its NUL.\<close>

definition strcpy :: "byte list \<Rightarrow> string \<Rightarrow> byte list res" where
  "strcpy dst src =
     (if length src + 1 \<le> length dst then Inr (c_str src @ drop (length src + 1) dst)
      else Inl Undefined_Behaviour)"

definition request_message :: "byte list \<Rightarrow> service_type_t \<Rightarrow> int32 list \<Rightarrow> frame res" where
  "request_message junk_params service args =
     (let serialized = serialize [] args in
      rbind (strcpy junk_params serialized) (\<lambda>params.
        Inr (enc_request \<lparr>rq_service = htonl service, rq_parameters = params\<rparr>)))"

definition read_response :: "frame \<Rightarrow> int32 \<Rightarrow> (bool \<times> int32) res" where
  "read_response reply result =
     rbind (dec_response reply) (\<lambda>response.
       if ntohl (rs_status response) = status_code SERVICE_NOT_RELIABLE then Inr (False, result)
       else if ntohl (rs_status response) = status_code SERVICE_NOT_AVAILABLE then Inr (False, result)
       else Inr (True, ntohl (rs_result response)))"

definition request_service ::
    "byte list \<Rightarrow> (frame \<Rightarrow> frame option) \<Rightarrow> service_type_t \<Rightarrow> int32 \<Rightarrow> int32 list \<Rightarrow> (bool \<times> int32) res" where
  "request_service junk_params exchange service result args =
     rbind (request_message junk_params service args) (\<lambda>request.
     rbind (of_option Diverges (exchange request)) (\<lambda>reply. read_response reply result))"

section \<open>Registration of a server\<close>

record reg_io =
  send_reg :: bool
  reg_sent :: "frame list"

definition register_service :: "registration_module \<Rightarrow> frame option \<Rightarrow> reg_io \<Rightarrow> (int \<times> reg_io) res" where
  "register_service reg_mod reply io =
     (let rm = reg_mod\<lparr>rg_service := htonl (rg_service reg_mod)\<rparr>;
          io1 = (if \<not> send_reg io then io\<lparr>send_reg := True, reg_sent := reg_sent io @ [enc_registration rm]\<rparr> else io)
      in case reply of
           None \<Rightarrow> Inr (- 1, io1)
         | Some f \<Rightarrow> rbind (load 2 0 f) (\<lambda>port. Inr (uint (ntohs port), io1\<lparr>send_reg := False\<rparr>)))"

record registrator =
  rgt_address :: string
  rgt_service :: service_type_t
  rgt_port :: uint16
  rgt_socket :: socket_conf

definition new_registrator :: "string \<Rightarrow> service_type_t \<Rightarrow> uint16 \<Rightarrow> registrator res" where
  "new_registrator address service port =
     rbind (add_socket address port ZMQ_REQ Connect) (\<lambda>skt.
       Inr \<lparr>rgt_address = address, rgt_service = service, rgt_port = port, rgt_socket = skt\<rparr>)"

definition registration :: "registrator \<Rightarrow> frame option \<Rightarrow> reg_io \<Rightarrow> (int \<times> reg_io) res" where
  "registration r reply io =
     rbind (strcpy (replicate MAX_LENGTH_SIGNATURE 0) ''pippo'') (\<lambda>sig.
       register_service \<lparr>rg_signature = sig, rg_service = rgt_service r\<rparr> reply io)"

section \<open>Lemmas\<close>

lemma length_c_str [simp]: "length (c_str s) = Suc (length s)"
  by (simp add: c_str_def)

lemma strcpy_Inr:
  assumes "length src < length dst"
  obtains bs where "strcpy dst src = Inr (c_str src @ bs)" "length (c_str src @ bs) = length dst"
  using assms that [of "drop (length src + 1) dst"] by (simp add: strcpy_def)

definition signature_pippo :: "byte list" where
  "signature_pippo = c_str ''pippo'' @ replicate 26 0"

lemma registration_eq:
  "registration r reply io = register_service \<lparr>rg_signature = signature_pippo, rg_service = rgt_service r\<rparr> reply io"
  by (simp add: registration_def strcpy_def signature_pippo_def)

lemma length_signature_pippo [simp]: "length signature_pippo = MAX_LENGTH_SIGNATURE"
  by (simp add: signature_pippo_def)

lemma cstring_signature: "cstring signature_pippo = Inr ''pippo''"
  unfolding signature_pippo_def by (rule cstring_c_str) simp

text \<open>A series of registration attempts, with what the socket delivers within the timeout of each.\<close>

fun attempts :: "registrator \<Rightarrow> frame option list \<Rightarrow> reg_io \<Rightarrow> (int list \<times> reg_io) res" where
  "attempts r [] io = Inr ([], io)"
| "attempts r (reply # replies) io =
     rbind (registration r reply io) (\<lambda>(port, io1).
     rbind (attempts r replies io1) (\<lambda>(ports, io2). Inr (port # ports, io2)))"

definition answered :: "frame option list \<Rightarrow> frame list" where
  "answered replies = List.map_filter id replies"

lemma answered_simps [simp]:
  "answered [] = []" "answered (None # rs) = answered rs" "answered (Some f # rs) = f # answered rs"
  by (simp_all add: answered_def List.map_filter_simps)

lemma attempts_run:
  assumes "\<forall>f \<in> set (answered replies). 2 \<le> length f"
  shows "\<exists>ports io'. attempts r replies io = Inr (ports, io') \<and>
     length (reg_sent io') + of_bool (send_reg io) =
       length (reg_sent io) + length (answered replies) + of_bool (send_reg io') \<and>
     ports = map (\<lambda>reply. case reply of None \<Rightarrow> - 1 | Some f \<Rightarrow> uint (ntohs (le_word (take 2 f)))) replies"
  using assms
proof (induction replies arbitrary: io)
  case (Cons reply replies)
  show ?case
  proof (cases reply)
    case None
    let ?io = "if \<not> send_reg io then io\<lparr>send_reg := True, reg_sent := reg_sent io @
      [enc_registration \<lparr>rg_signature = signature_pippo, rg_service = htonl (rgt_service r)\<rparr>]\<rparr> else io"
    have "registration r reply io = Inr (- 1, ?io)"
      by (simp add: registration_eq register_service_def None Let_def)
    with Cons.IH [of ?io] Cons.prems None show ?thesis by fastforce
  next
    case (Some f)
    let ?io = "(if \<not> send_reg io then io\<lparr>send_reg := True, reg_sent := reg_sent io @
      [enc_registration \<lparr>rg_signature = signature_pippo, rg_service = htonl (rgt_service r)\<rparr>]\<rparr> else io)\<lparr>send_reg := False\<rparr>"
    have "registration r reply io = Inr (uint (ntohs (le_word (take 2 f))), ?io)"
      using Cons.prems by (simp add: registration_eq register_service_def Some Let_def load_def)
    with Cons.IH [of ?io] Cons.prems Some show ?thesis by fastforce
  qed
qed simp

section \<open>Properties\<close>

lemma length_serialize_sum: "length (serialize [] xs) = sum_list (map (\<lambda>x. length (to_string x) + 1) xs)"
  unfolding serialize_concat by (induction xs) simp_all

text \<open>
  C21: A request is well formed exactly when its arguments fit. Each takes the length of its
  decimal text and one blank; while they stay below the size of the parameter array, what a
  receiver decodes is the requested service and a NUL-terminated string from which
  \<open>deserialize\<close> reads back exactly the arguments, whatever the array and the variables held
  before. Otherwise the copy overruns the array. Eight arguments always fit.
\<close>

theorem request_message_roundtrip:
  assumes "length junk_params = PARAM_SIZE" and "length olds = length args"
  shows "(sum_list (map (\<lambda>x. length (to_string x) + 1) args) < PARAM_SIZE \<longrightarrow>
      (\<exists>f rq str st. request_message junk_params service args = Inr f \<and> dec_request f = Inr rq \<and>
        ntohl (rq_service rq) = service \<and> cstring (rq_parameters rq) = Inr str \<and>
        deserialize \<lparr>unread = str, failed = False\<rparr> olds = (st, args) \<and> \<not> failed st)) \<and>
    (PARAM_SIZE \<le> sum_list (map (\<lambda>x. length (to_string x) + 1) args) \<longrightarrow>
      request_message junk_params service args = Inl Undefined_Behaviour) \<and>
    (length args \<le> 8 \<longrightarrow> sum_list (map (\<lambda>x. length (to_string x) + 1) args) < PARAM_SIZE)"
proof (intro conjI impI)
  let ?str = "serialize [] args"
  show "sum_list (map (\<lambda>x. length (to_string x) + 1) args) < PARAM_SIZE" if "length args \<le> 8"
    using that length_serialize [of args] by (simp add: length_serialize_sum)
  show "request_message junk_params service args = Inl Undefined_Behaviour"
    if "PARAM_SIZE \<le> sum_list (map (\<lambda>x. length (to_string x) + 1) args)"
    using that assms(1) unfolding length_serialize_sum [symmetric]
    by (simp add: request_message_def strcpy_def del: serialize.simps)
  assume "sum_list (map (\<lambda>x. length (to_string x) + 1) args) < PARAM_SIZE"
  then have "length ?str < length junk_params" unfolding length_serialize_sum using assms(1) by simp
  then obtain bs where bs: "strcpy junk_params ?str = Inr (c_str ?str @ bs)" "length (c_str ?str @ bs) = length junk_params"
    by (rule strcpy_Inr)
  let ?rq = "\<lparr>rq_service = htonl service, rq_parameters = c_str ?str @ bs\<rparr>"
  have "dec_request (enc_request ?rq) = Inr ?rq" using bs(2) assms(1) by (intro request_wire.dec_enc) simp
  moreover have "cstring (c_str ?str @ bs) = Inr ?str" using serialize_no_NUL by (blast intro: cstring_c_str)
  moreover obtain u where "deserialize \<lparr>unread = ?str, failed = False\<rparr> olds = (\<lparr>unread = u, failed = False\<rparr>, args)"
    using deserialize_concat [OF assms(2), of "[]"] by (auto simp: serialize_concat)
  ultimately show "\<exists>f rq str st. request_message junk_params service args = Inr f \<and> dec_request f = Inr rq \<and>
      ntohl (rq_service rq) = service \<and> cstring (rq_parameters rq) = Inr str \<and>
      deserialize \<lparr>unread = str, failed = False\<rparr> olds = (st, args) \<and> \<not> failed st"
    using bs(1) by (intro exI [of _ "enc_request ?rq"] exI [of _ ?rq] exI [of _ ?str]) (simp add: request_message_def)
qed

theorem request_message_roundtrip_witness:
  "(\<exists>f rq str st. request_message (replicate 100 255) 2 [21, - 4] = Inr f \<and> dec_request f = Inr rq \<and>
     ntohl (rq_service rq) = 2 \<and> cstring (rq_parameters rq) = Inr str \<and>
     deserialize \<lparr>unread = str, failed = False\<rparr> [0, 0] = (st, [21, - 4])) \<and>
   request_message (replicate 100 255) 2 (replicate 9 2147483648) = Inl Undefined_Behaviour"
proof
  show "\<exists>f rq str st. request_message (replicate 100 255) 2 [21, - 4] = Inr f \<and> dec_request f = Inr rq \<and>
     ntohl (rq_service rq) = 2 \<and> cstring (rq_parameters rq) = Inr str \<and>
     deserialize \<lparr>unread = str, failed = False\<rparr> [0, 0] = (st, [21, - 4])"
    using request_message_roundtrip [of "replicate 100 255" "[0, 0]" "[21, - 4]" 2] by auto
  have "length (to_string 2147483648) = 11" by (simp add: to_string_def show_nat.simps)
  then have "sum_list (map (\<lambda>x. length (to_string x) + 1) (replicate 9 (2147483648 :: int32))) = 108"
    by (simp add: numeral_eq_Suc)
  then show "request_message (replicate 100 255) 2 (replicate 9 2147483648) = Inl Undefined_Behaviour"
    using request_message_roundtrip [of "replicate 100 255" "replicate 9 0" "replicate 9 2147483648" 2] by simp
qed



end
