(* ===== verification/RSF_Routing.thy ===== *)
theory RSF_Routing
  imports RSF_Broker_Facts RSF_Api
begin

text \<open>
  Which dealer socket belongs to which service. A dealer socket is opened when the last copy of
  a service registers, but the index under which requests find it is handed out when the first
  copy registers. The lemmas describe one registration; the properties say that the sockets
  are opened on the right ports, and when a request reaches the right one.
\<close>

section \<open>One registration\<close>

definition registration_for :: "service_type_t \<Rightarrow> registration_module" where
  "registration_for s = \<lparr>rg_signature = signature_pippo, rg_service = htonl s\<rparr>"

definition registration_frames :: "frame \<Rightarrow> service_type_t \<Rightarrow> (frame \<times> bool) list" where
  "registration_frames f s = [(f, True), ([], True), (enc_registration (registration_for s), False)]"

definition registration_reply :: "frame \<Rightarrow> uint16 \<Rightarrow> broker_socket zsend list" where
  "registration_reply f port = [(Reg, f, True), (Reg, [], True), (Reg, le_bytes 2 (htons port), False)]"

definition dealer_conf :: "uint16 \<Rightarrow> socket_conf" where
  "dealer_conf port = \<lparr>skt_kind = ZMQ_DEALER, skt_dir = Bind,
     endpoint = (if port \<noteq> 0 then ''tcp://'' @ ''*'' @ '':'' @ show_nat (unat port) else ''ipc://'' @ ''*'')\<rparr>"

definition first_record :: "uint8 \<Rightarrow> uint16 \<Rightarrow> uint16 \<Rightarrow> service_record" where
  "first_record nmr port i = \<lparr>owner = ''pippo'', num_copies_registered = 1, num_copies_reliable = 1,
     dealer_socket = port, dealer_skt_index = i, seq_id_ping = - 1, seq_id_request = 0, request_records = [],
     new_pong = replicate (unat nmr) False, lost_pong = replicate (unat nmr) (- 1)\<rparr>"

definition one_more :: "service_record \<Rightarrow> service_record" where
  "one_more r = r\<lparr>num_copies_registered := num_copies_registered r + 1, num_copies_reliable := num_copies_reliable r + 1\<rparr>"

lemma dec_registration_for [simp]:
  "dec_registration (enc_registration (registration_for s)) = Inr (registration_for s)"
  by (rule registration_wire.dec_enc) (simp add: registration_for_def)

lemma get_registration_first:
  assumes "services_db (b_db b) s = None"
  shows "get_registration env (registration_frames f s) b =
    Inr (b\<lparr>sent := sent b @ registration_reply f (available_dealer_port b),
           b_db := (put_record (b_db b) s (first_record (db_nmr (b_db b)) (available_dealer_port b) (next_dealer_skt_index (b_db b))))
             \<lparr>next_dealer_skt_index := next_dealer_skt_index (b_db b) + 1\<rparr>,
           available_dealer_port := available_dealer_port b + 1\<rparr>)"
  using assms cstring_signature
  by (simp add: get_registration_def registration_frames_def registration_reply_def push_registration_def
      registration_for_def first_record_def Let_def)

lemma get_registration_more:
  assumes "services_db (b_db b) s = Some r" "num_copies_registered r < db_nmr (b_db b)"
    and "num_copies_registered r + 1 \<noteq> db_nmr (b_db b)"
  shows "get_registration env (registration_frames f s) b =
    Inr (b\<lparr>sent := sent b @ registration_reply f (dealer_socket r), b_db := put_record (b_db b) s (one_more r)\<rparr>)"
  using assms
  by (simp add: get_registration_def registration_frames_def registration_reply_def push_registration_def
      registration_for_def one_more_def Let_def)

lemma get_registration_last:
  assumes "services_db (b_db b) s = Some r" "num_copies_registered r < db_nmr (b_db b)"
    and "num_copies_registered r + 1 = db_nmr (b_db b)" "s \<notin> set (available_services b)"
  shows "get_registration env (registration_frames f s) b =
    Inr (b\<lparr>sent := sent b @ registration_reply f (dealer_socket r), b_db := put_record (b_db b) s (one_more r),
           available_services := available_services b @ [s],
           dealer := dealer b @ [dealer_conf (dealer_socket r)],
           poll_items := poll_items b @ [Dealer (length (dealer b))],
           timeouts := timeouts b @ [time_add_ms (clk env (ticks b)) HEARTBEAT_INTERVAL],
           ticks := Suc (ticks b)\<rparr>)"
  using assms
  by (simp add: get_registration_def registration_frames_def registration_reply_def push_registration_def
      registration_for_def one_more_def make_available_def add_dealer_def clock_gettime_def dealer_conf_def Let_def)

lemma get_registration_again:
  assumes "services_db (b_db b) s = Some r" "num_copies_registered r < db_nmr (b_db b)" "s \<in> set (available_services b)"
  shows "get_registration env (registration_frames f s) b =
    Inr (b\<lparr>sent := sent b @ registration_reply f (dealer_socket r), b_db := put_record (b_db b) s (one_more r)\<rparr>)"
  using assms
  by (simp add: get_registration_def registration_frames_def registration_reply_def push_registration_def
      registration_for_def one_more_def Let_def)

lemma get_registration_full:
  assumes "services_db (b_db b) s = Some r" "\<not> num_copies_registered r < db_nmr (b_db b)"
  shows "get_registration env (registration_frames f s) b = Inr (b\<lparr>sent := sent b @ registration_reply f 0\<rparr>)"
  using assms
  by (simp add: get_registration_def registration_frames_def registration_reply_def push_registration_def
      registration_for_def Let_def)

section \<open>What the other handlers leave alone\<close>

definition keeps_dealers :: "broker \<Rightarrow> broker \<Rightarrow> bool" where
  "keeps_dealers b b' \<longleftrightarrow> dealer b' = dealer b \<and> available_services b' = available_services b \<and>
     db_step\<^sup>*\<^sup>* (b_db b) (b_db b')"

named_theorems keeps \<open>handlers that leave the dealer sockets alone\<close>

lemma keeps_refl [intro]: "keeps_dealers b b"
  by (simp add: keeps_dealers_def)

lemma keeps_trans [trans]: "keeps_dealers a b \<Longrightarrow> keeps_dealers b c \<Longrightarrow> keeps_dealers a c"
  by (auto simp: keeps_dealers_def)

lemma keeps_db: "db_step (b_db b) db' \<Longrightarrow> keeps_dealers b (b\<lparr>b_db := db'\<rparr>)"
  by (auto simp: keeps_dealers_def)

lemma keeps_io [simp]:
  "keeps_dealers (b\<lparr>ticks := n\<rparr>) b' = keeps_dealers b b'" "keeps_dealers b (b'\<lparr>ticks := n\<rparr>) = keeps_dealers b b'"
  "keeps_dealers b (b'\<lparr>sent := es\<rparr>) = keeps_dealers b b'" "keeps_dealers b (b'\<lparr>timeouts := ts\<rparr>) = keeps_dealers b b'"
  "keeps_dealers b (b'\<lparr>b_now := t\<rparr>) = keeps_dealers b b'"
  by (simp_all add: keeps_dealers_def)

lemma router_send_keeps [keeps]: "router_send env msg b = Inr b' \<Longrightarrow> keeps_dealers b b'"
  by (auto simp: router_send_def rbind_Inr_iff split: if_splits)

lemma send_copies_keeps [keeps]: "send_copies n i msg b = Inr b' \<Longrightarrow> keeps_dealers b b'"
  by (auto dest!: send_copies_frame)

lemma update_timeout_keeps [keeps]: "update_timeout env s b = Inr b' \<Longrightarrow> keeps_dealers b b'"
  by (auto simp: update_timeout_def clock_gettime_def rbind_Inr_iff vec_set_Inr_iff)

lemma answer_client_keeps [keeps]:
  assumes "answer_client env f g st v s cid b = Inr b'"
  shows "keeps_dealers b b'"
proof -
  from assms obtain b1 db' where b1: "router_send env [f, g, enc_response \<lparr>rs_status = htonl (status_code st), rs_result = htonl v\<rparr>] b = Inr b1"
    "delete_request (b_db b1) s cid = Inr db'" "b' = b1\<lparr>b_db := db'\<rparr>"
    by (auto simp: answer_client_def rbind_Inr_iff)
  from b1(1) have "keeps_dealers b b1" by (rule router_send_keeps)
  also from b1 have "keeps_dealers b1 b'" by (auto intro: keeps_db db_step.delete)
  finally show ?thesis .
qed

lemma get_request_keeps [keeps]:
  assumes "get_request env fs b = Inr b'"
  shows "keeps_dealers b b'"
proof -
  obtain f g h where fs: "fs = (f, g, h)" by (cases fs)
  from assms obtain cid :: uint32 and rq where ret: "load 4 1 f = Inr cid" "dec_request h = Inr rq"
    by (auto simp: get_request_def fs rbind_Inr_iff)
  show ?thesis
  proof (cases "find_registration (b_db b) (ntohl (rq_service rq)) = - 1")
    case True
    with assms ret show ?thesis by (auto simp: get_request_def fs intro: router_send_keeps)
  next
    case False
    with assms ret obtain db1 rid msg copies i b1 db2 t rr
      where ids: "get_request_id (b_db b) (ntohl (rq_service rq)) = Inr (db1, rid)"
        and fwd: "send_copies copies i msg (b\<lparr>b_db := db1\<rparr>) = Inr b1"
        and push: "push_request (b_db b1) rr (ntohl (rq_service rq)) t = Inr db2"
        and upd: "update_timeout env (ntohl (rq_service rq)) (b1\<lparr>ticks := Suc (ticks b1), b_db := db2\<rparr>) = Inr b'"
      by (auto simp: get_request_def fs Let_def clock_gettime_def rbind_Inr_iff)
    have "keeps_dealers b (b\<lparr>b_db := db1\<rparr>)" using ids by (auto intro: keeps_db db_step.request_id)
    also have "keeps_dealers (b\<lparr>b_db := db1\<rparr>) b1" by (rule send_copies_keeps [OF fwd])
    also have "keeps_dealers b1 (b1\<lparr>ticks := Suc (ticks b1), b_db := db2\<rparr>)"
      using keeps_db [OF db_step.request [OF push]] by (simp add: keeps_dealers_def)
    also have "keeps_dealers (b1\<lparr>ticks := Suc (ticks b1), b_db := db2\<rparr>) b'" by (rule update_timeout_keeps [OF upd])
    finally show ?thesis .
  qed
qed

lemma get_response_keeps [keeps]:
  assumes "get_response env fs b = Inr b'"
  shows "keeps_dealers b b'"
proof -
  obtain f g h where fs: "fs = (f, g, h)" by (cases fs)
  from assms obtain cid :: uint32 and r0 where ret: "load 4 1 f = Inr cid" "dec_reply h = Inr r0"
    by (auto simp: get_response_def fs rbind_Inr_iff)
  have pong: "keeps_dealers b (b\<lparr>b_db := db'\<rparr>)" if "register_pong (b_db b) i s = Inr db'" for i s db'
    using that by (auto intro: keeps_db db_step.pong)
  have result: "keeps_dealers b (b\<lparr>b_db := db'\<rparr>)" if "push_result (b_db b) rep c = Inr (db', n)" for rep c n db'
    using that by (auto intro: keeps_db db_step.add_result)
  show ?thesis using assms ret
    by (auto simp: get_response_def fs Let_def rbind_Inr_iff split: if_splits prod.splits
        intro: pong result keeps_trans [OF result answer_client_keeps])
qed

lemma ping_server_keeps [keeps]: "ping_server env i s b = Inr b' \<Longrightarrow> keeps_dealers b b'"
  by (auto simp: ping_server_def Let_def rbind_Inr_iff intro: send_copies_keeps)

lemma pending_inner_keeps [keeps]: "pending_inner env now i qs result b = Inr (result', b') \<Longrightarrow> keeps_dealers b b'"
proof (induction qs arbitrary: result b)
  case (Cons q qs)
  then show ?case
    by (auto simp: rbind_Inr_iff split: if_splits intro: keeps_trans [OF answer_client_keeps])
qed auto

lemma pending_outer_keeps [keeps]: "pending_outer env now i ss result b = Inr b' \<Longrightarrow> keeps_dealers b b'"
proof (induction ss arbitrary: i result b)
  case (Cons s ss)
  then show ?case by (auto simp: rbind_Inr_iff intro: keeps_trans [OF pending_inner_keeps])
qed auto

lemma check_pending_requests_keeps [keeps]: "check_pending_requests env b = Inr b' \<Longrightarrow> keeps_dealers b b'"
  using pending_outer_keeps [of env "clk env (ticks b)" 0 "available_services b" "junk_result env" "b\<lparr>ticks := Suc (ticks b)\<rparr>" b']
  by (simp add: check_pending_requests_def clock_gettime_def)

lemma dealer_loop_keeps [keeps]: "dealer_loop env evs b = Inr b' \<Longrightarrow> keeps_dealers b b'"
  by (induction env evs b rule: dealer_loop.induct)
    (auto simp: rbind_Inr_iff intro: keeps_trans [OF get_response_keeps])

lemma heartbeat_loop_keeps [keeps]: "heartbeat_loop env n i b = Inr b' \<Longrightarrow> keeps_dealers b b'"
proof (induction n arbitrary: i b)
  case (Suc n)
  show ?case
  proof (cases "time_cmp (b_now b) (timeouts b ! i) = 1")
    case True
    with Suc.prems(1) obtain s db' b1 b2
      where steps: "check_pong (b_db b) s = Inr db'" "ping_server env (of_nat i) s (b\<lparr>b_db := db'\<rparr>) = Inr b1"
        "update_timeout env s b1 = Inr b2" "heartbeat_loop env n (Suc i) b2 = Inr b'"
      by (auto simp: rbind_Inr_iff vec_get_Inr_iff)
    have "keeps_dealers b (b\<lparr>b_db := db'\<rparr>)" using steps(1) by (auto intro: keeps_db db_step.check)
    also have "keeps_dealers (b\<lparr>b_db := db'\<rparr>) b1" by (rule ping_server_keeps [OF steps(2)])
    also have "keeps_dealers b1 b2" by (rule update_timeout_keeps [OF steps(3)])
    also have "keeps_dealers b2 b'" by (rule Suc.IH [OF steps(4)])
    finally show ?thesis .
  next
    case False
    with Suc show ?thesis by (auto simp: rbind_Inr_iff vec_get_Inr_iff)
  qed
qed auto

section \<open>Dealer sockets and ports\<close>

definition same_port :: "service_record \<Rightarrow> service_record \<Rightarrow> bool" where
  "same_port r r' \<longleftrightarrow> dealer_socket r' = dealer_socket r \<and> dealer_skt_index r' = dealer_skt_index r"

lemma check_pong_loop_port: "check_pong_loop n j r u = Inr (r', u') \<Longrightarrow> same_port r r'"
proof (induction n arbitrary: j r u)
  case (Suc n)
  then show ?case
    by (auto simp: rbind_Inr_iff same_port_def split: if_splits dest!: Suc.IH)
qed (simp add: same_port_def)

lemma checked_record_port: "checked_record nmr r = Inr r' \<Longrightarrow> same_port r r'"
  by (auto simp: checked_record_def rbind_Inr_iff same_port_def dest!: check_pong_loop_port)

lemma record_oper_port:
  assumes "record_operation oper upd e" "oper db t = Inr db'" "\<And>r r'. upd (db_nmr db) r = Inr r' \<Longrightarrow> same_port r r'"
    and "services_db db s = Some r"
  shows "\<exists>r'. services_db db' s = Some r' \<and> same_port r r'"
proof -
  from assms(1,2) obtain q q' where "services_db db t = Some q" "upd (db_nmr db) q = Inr q'" "db' = put_record db t q'"
    by (rule record_operation.operE)
  with assms(3,4) show ?thesis by (cases "s = t") (auto simp: same_port_def)
qed

lemma db_step_port:
  assumes "db_step db db'" "services_db db s = Some r"
  shows "\<exists>r'. services_db db' s = Some r' \<and> same_port r r'"
  using assms(1)
proof cases
  case (registration rm port port' ready ret)
  then show ?thesis using assms(2)
    by (auto simp: push_registration_def rbind_Inr_iff Let_def same_port_def split: option.splits if_splits)
next
  case (request rr t now)
  show ?thesis by (rule record_oper_port [OF push_request_op.record_operation_axioms request _ assms(2)]) (auto simp: same_port_def)
next
  case (delete t cid)
  show ?thesis by (rule record_oper_port [OF delete_request_op.record_operation_axioms delete _ assms(2)]) (auto simp: same_port_def)
next
  case (add_result reply cid ret)
  then show ?thesis using assms(2) by (auto simp: push_result_def same_port_def split: option.splits prod.splits)
next
  case (pong i t)
  show ?thesis by (rule record_oper_port [OF register_pong_op.record_operation_axioms pong _ assms(2)])
      (auto simp: same_port_def rbind_Inr_iff)
next
  case (check t)
  show ?thesis by (rule record_oper_port [OF check_pong_op.record_operation_axioms check _ assms(2)]) (rule checked_record_port)
next
  case (request_id t n)
  then show ?thesis using assms(2) by (auto simp: get_request_id_def same_port_def split: option.splits)
qed

lemma db_steps_port:
  assumes "db_step\<^sup>*\<^sup>* db db'" "services_db db s = Some r"
  shows "\<exists>r'. services_db db' s = Some r' \<and> same_port r r'"
  using assms
proof (induction rule: rtranclp_induct)
  case base
  then show ?case by (simp add: same_port_def)
next
  case (step y z)
  then obtain r1 where "services_db y s = Some r1" "same_port r r1" by blast
  with db_step_port [OF step.hyps(2)] show ?case by (fastforce simp: same_port_def)
qed

definition dealers_inv :: "broker \<Rightarrow> bool" where
  "dealers_inv b \<longleftrightarrow> length (dealer b) = length (available_services b) \<and>
     (\<forall>i < length (available_services b). \<exists>r. services_db (b_db b) (available_services b ! i) = Some r \<and>
        dealer b ! i = dealer_conf (dealer_socket r))"

lemma dealers_inv_io [simp]:
  "dealers_inv (b\<lparr>sent := es\<rparr>) = dealers_inv b" "dealers_inv (b\<lparr>available_dealer_port := p\<rparr>) = dealers_inv b"
  by (simp_all add: dealers_inv_def)

lemma dealers_inv_keeps:
  assumes "keeps_dealers b b'" "dealers_inv b"
  shows "dealers_inv b'"
proof -
  have "\<exists>r'. services_db (b_db b') s = Some r' \<and> dealer_socket r' = dealer_socket r"
    if "services_db (b_db b) s = Some r" for s r
    using db_steps_port [OF _ that, of "b_db b'"] assms(1) by (auto simp: keeps_dealers_def same_port_def)
  then show ?thesis using assms unfolding dealers_inv_def keeps_dealers_def by metis
qed

lemma make_available_dealers:
  assumes "make_available env s port b = Inr b'" "dealers_inv b"
    and "services_db (b_db b) s = Some r" "dealer_socket r = port"
  shows "dealers_inv b'"
proof -
  have "dealer b' = dealer b @ [dealer_conf port]" "available_services b' = available_services b @ [s]" "b_db b' = b_db b"
    using assms(1) by (auto simp: make_available_def add_dealer_def clock_gettime_def dealer_conf_def)
  with assms(2-4) show ?thesis by (auto simp: dealers_inv_def nth_append less_Suc_eq)
qed

lemma registration_loop_dealers:
  "registration_loop env fs already b = Inr b' \<Longrightarrow> dealers_inv b \<Longrightarrow> dealers_inv b'"
proof (induction fs arbitrary: already b)
  case (Cons fm fs)
  obtain f more_frames where fm: "fm = (f, more_frames)" by (cases fm)
  show ?case
  proof (cases more_frames)
    case True
    with Cons.prems show ?thesis by (auto simp: fm intro: Cons.IH)
  next
    case False
    with Cons.prems(1) obtain rm0 db' port' ready ret b2
      where push: "push_registration (b_db b) (rm0\<lparr>rg_service := ntohl (rg_service rm0)\<rparr>) (available_dealer_port b) =
            Inr (db', port', ready, ret)"
        and avail: "(if ready \<and> \<not> (already \<or> ntohl (rg_service rm0) \<in> set (available_services b))
          then make_available env (ntohl (rg_service rm0)) ret (b\<lparr>b_db := db', available_dealer_port := port'\<rparr>)
          else Inr (b\<lparr>b_db := db', available_dealer_port := port'\<rparr>)) = Inr b2"
        and rest: "registration_loop env fs (already \<or> ntohl (rg_service rm0) \<in> set (available_services b))
          (b2\<lparr>sent := sent b2 @ [(Reg, le_bytes 2 (htons ret), False)]\<rparr>) = Inr b'"
      by (auto simp: fm Let_def rbind_Inr_iff split: prod.splits)
    have "dealers_inv (b\<lparr>b_db := db'\<rparr>)"
      using push by (auto intro: dealers_inv_keeps [OF keeps_db [OF db_step.registration] Cons.prems(2)])
    then have b1: "dealers_inv (b\<lparr>b_db := db', available_dealer_port := port'\<rparr>)" by simp
    have "\<exists>r. services_db db' (ntohl (rg_service rm0)) = Some r \<and> dealer_socket r = ret" if ready
      using push that by (auto simp: push_registration_def Let_def rbind_Inr_iff split: option.splits if_splits)
    with b1 avail have "dealers_inv b2" by (auto split: if_splits intro: make_available_dealers)
    then show ?thesis by (intro Cons.IH [OF rest]) simp
  qed
qed simp

lemma broker_step_dealers:
  assumes "broker_step env ev b = Inr b'" "dealers_inv b"
  shows "dealers_inv b'"
proof -
  define b2 where "b2 = (let b1 = b\<lparr>ticks := Suc (ticks b), b_now := clk env (ticks b)\<rparr>
    in if ev_hc ev then pong_health_checker b1 else b1)"
  have b2: "dealers_inv b2" using assms(2) by (simp add: b2_def pong_health_checker_def Let_def dealers_inv_def)
  from broker_step_phases [OF assms(1)] obtain b3 b4 b5 b6
    where steps: "(case ev_reg ev of None \<Rightarrow> Inr b2 | Some fs \<Rightarrow> get_registration env fs b2) = Inr b3"
      "(case ev_router ev of None \<Rightarrow> Inr b3 | Some fs \<Rightarrow> get_request env fs b3) = Inr b4"
      "dealer_loop env (ev_dealer ev) b4 = Inr b5" "heartbeat_loop env (length (timeouts b5)) 0 b5 = Inr b6"
      "check_pending_requests env b6 = Inr b'"
    unfolding b2_def .
  from steps(1) b2 have "dealers_inv b3"
    by (auto simp: get_registration_def split: option.splits elim: registration_loop_dealers)
  moreover from steps(2) have "keeps_dealers b3 b4" by (auto split: option.splits intro: get_request_keeps)
  moreover have "keeps_dealers b4 b'"
    by (rule keeps_trans [OF dealer_loop_keeps [OF steps(3)]
          keeps_trans [OF heartbeat_loop_keeps [OF steps(4)] check_pending_requests_keeps [OF steps(5)]]])
  ultimately show ?thesis by (blast intro: dealers_inv_keeps)
qed

interpretation dealer_loop_system: step_system broker_iter dealers_inv
  by unfold_locales (auto elim!: broker_iter.cases intro: broker_step_dealers)

lemma new_broker_dealers: "new_broker nmr pr pg now = Inr b \<Longrightarrow> dealers_inv b"
  by (auto simp: new_broker_eq dealers_inv_def)

section \<open>Services registered one after another\<close>

fun registrations :: "broker_env \<Rightarrow> service_type_t list \<Rightarrow> broker \<Rightarrow> broker res" where
  "registrations env [] b = Inr b"
| "registrations env (s # ss) b = rbind (get_registration env (registration_frames [1] s) b) (registrations env ss)"

lemma registrations_append: "registrations env (ss @ ts) b = rbind (registrations env ss b) (registrations env ts)"
proof (induction ss arbitrary: b)
  case (Cons s ss)
  then have "registrations env (ss @ ts) = (\<lambda>b. rbind (registrations env ss b) (registrations env ts))"
    by (simp add: fun_eq_iff)
  then show ?case by (simp add: rbind_assoc)
qed simp

lemma registrations_inv: "registrations env ss b = Inr b' \<Longrightarrow> broker_inv b \<Longrightarrow> broker_inv b'"
  by (induction ss arbitrary: b) (auto simp: rbind_Inr_iff intro: get_registration_inv)

lemma uint8_Suc: "unat (a :: uint8) < unat (n :: uint8) \<Longrightarrow> unat (a + 1) = Suc (unat a)"
  by (rule unat_Suc_less [OF _ uint8_le])

text \<open>
  \<open>grows b s b'\<close>: nothing but the record of \<open>s\<close> and the log of sends has changed from \<open>b\<close>
  to \<open>b'\<close>, as far as registration and routing are concerned.
\<close>

definition grows :: "broker \<Rightarrow> service_type_t \<Rightarrow> broker \<Rightarrow> bool" where
  "grows b s b' \<longleftrightarrow> available_services b' = available_services b \<and> dealer b' = dealer b \<and>
     available_dealer_port b' = available_dealer_port b \<and>
     next_dealer_skt_index (b_db b') = next_dealer_skt_index (b_db b) \<and> db_nmr (b_db b') = db_nmr (b_db b) \<and>
     (\<forall>t. t \<noteq> s \<longrightarrow> services_db (b_db b') t = services_db (b_db b) t)"

definition more_copies :: "nat \<Rightarrow> service_record \<Rightarrow> service_record" where
  "more_copies k r = r\<lparr>num_copies_registered := num_copies_registered r + of_nat k,
     num_copies_reliable := num_copies_reliable r + of_nat k\<rparr>"

lemma more_copies_simps [simp]:
  "more_copies 0 r = r" "more_copies k (one_more r) = more_copies (Suc k) r" "one_more (more_copies k r) = more_copies (Suc k) r"
  "dealer_socket (more_copies k r) = dealer_socket r" "dealer_skt_index (more_copies k r) = dealer_skt_index r"
  "num_copies_registered (more_copies k r) = num_copies_registered r + of_nat k"
  "num_copies_reliable (more_copies k r) = num_copies_reliable r + of_nat k"
  by (simp_all add: more_copies_def one_more_def algebra_simps)

lemma registrations_more:
  assumes "services_db (b_db b) s = Some r" "unat (num_copies_registered r) + k < unat (db_nmr (b_db b))"
  shows "\<exists>b'. registrations env (replicate k s) b = Inr b' \<and> grows b s b' \<and>
     services_db (b_db b') s = Some (more_copies k r) \<and>
     sent b' = sent b @ concat (replicate k (registration_reply [1] (dealer_socket r)))"
  using assms
proof (induction k arbitrary: b r)
  case 0
  then show ?case by (auto simp: grows_def)
next
  case (Suc k)
  let ?b = "b\<lparr>sent := sent b @ registration_reply [1] (dealer_socket r), b_db := put_record (b_db b) s (one_more r)\<rparr>"
  have less: "unat (num_copies_registered r) < unat (db_nmr (b_db b))" using Suc.prems(2) by simp
  note u = uint8_Suc [OF less]
  have "num_copies_registered r + 1 \<noteq> db_nmr (b_db b)" using u Suc.prems(2) by auto
  with less Suc.prems(1) have "get_registration env (registration_frames [1] s) b = Inr ?b"
    by (intro get_registration_more) (simp_all add: word_less_nat_alt)
  moreover have "unat (num_copies_registered (one_more r)) + k < unat (db_nmr (b_db ?b))"
    using u Suc.prems(2) by (simp add: one_more_def)
  from Suc.IH [OF _ this] obtain b' where "registrations env (replicate k s) ?b = Inr b'" "grows ?b s b'"
    "services_db (b_db b') s = Some (more_copies k (one_more r))"
    "sent b' = sent ?b @ concat (replicate k (registration_reply [1] (dealer_socket (one_more r))))" by auto
  moreover have "dealer_socket (one_more r) = dealer_socket r" by (simp add: one_more_def)
  ultimately show ?case by (auto simp: grows_def)
qed

lemma replicate_snoc: "replicate (Suc k) x = replicate k x @ [x]"
  by (simp add: replicate_append_same)

text \<open>The copies that complete a service: all but the last only count, the last opens the dealer.\<close>

lemma registrations_complete:
  assumes "services_db (b_db b) s = Some r" "s \<notin> set (available_services b)"
    and "unat (num_copies_registered r) + Suc k = unat (db_nmr (b_db b))"
  shows "\<exists>b'. registrations env (replicate (Suc k) s) b = Inr b' \<and>
     available_services b' = available_services b @ [s] \<and> dealer b' = dealer b @ [dealer_conf (dealer_socket r)] \<and>
     available_dealer_port b' = available_dealer_port b \<and>
     next_dealer_skt_index (b_db b') = next_dealer_skt_index (b_db b) \<and> db_nmr (b_db b') = db_nmr (b_db b) \<and>
     (\<forall>t. t \<noteq> s \<longrightarrow> services_db (b_db b') t = services_db (b_db b) t) \<and>
     services_db (b_db b') s = Some (more_copies (Suc k) r) \<and>
     sent b' = sent b @ concat (replicate (Suc k) (registration_reply [1] (dealer_socket r)))"
proof -
  have "unat (num_copies_registered r) + k < unat (db_nmr (b_db b))" using assms(3) by simp
  from registrations_more [OF assms(1) this, of env] obtain b2
    where b2: "registrations env (replicate k s) b = Inr b2" "grows b s b2"
      "services_db (b_db b2) s = Some (more_copies k r)"
      "sent b2 = sent b @ concat (replicate k (registration_reply [1] (dealer_socket r)))" by blast
  have n: "db_nmr (b_db b) = num_copies_registered r + of_nat (Suc k)"
    using arg_cong [OF assms(3), of "of_nat :: nat \<Rightarrow> uint8"] by (simp add: algebra_simps)
  have num: "unat (num_copies_registered r + of_nat k :: uint8) = unat (num_copies_registered r) + k"
  proof -
    have "num_copies_registered r + of_nat k = (of_nat (unat (num_copies_registered r) + k) :: uint8)" by simp
    moreover have "unat (num_copies_registered r) + k < 256"
      using assms(3) uint8_le [of "db_nmr (b_db b)"] by simp
    ultimately show ?thesis by (simp only: unat_of_nat) simp
  qed
  from b2(2) have g: "available_services b2 = available_services b" "dealer b2 = dealer b"
    "available_dealer_port b2 = available_dealer_port b" "next_dealer_skt_index (b_db b2) = next_dealer_skt_index (b_db b)"
    "db_nmr (b_db b2) = db_nmr (b_db b)" "\<And>t. t \<noteq> s \<Longrightarrow> services_db (b_db b2) t = services_db (b_db b) t"
    by (simp_all add: grows_def)
  have "num_copies_registered (more_copies k r) < db_nmr (b_db b2)"
    using num assms(3) by (simp add: g word_less_nat_alt)
  moreover have "num_copies_registered (more_copies k r) + 1 = db_nmr (b_db b2)"
    unfolding g n by simp
  moreover have "s \<notin> set (available_services b2)" using assms(2) g by simp
  ultimately have last: "get_registration env (registration_frames [1] s) b2 =
    Inr (b2\<lparr>sent := sent b2 @ registration_reply [1] (dealer_socket r), b_db := put_record (b_db b2) s (more_copies (Suc k) r),
           available_services := available_services b2 @ [s],
           dealer := dealer b2 @ [dealer_conf (dealer_socket r)],
           poll_items := poll_items b2 @ [Dealer (length (dealer b2))],
           timeouts := timeouts b2 @ [time_add_ms (clk env (ticks b2)) HEARTBEAT_INTERVAL],
           ticks := Suc (ticks b2)\<rparr>)"
    using get_registration_last [OF b2(3), of env "[1]"] by simp
  have eq: "registrations env (replicate (Suc k) s) b = get_registration env (registration_frames [1] s) b2"
    unfolding replicate_snoc using b2(1)
    by (cases "get_registration env (registration_frames [1] s) b2") (simp_all add: registrations_append)
  have out: "sent b2 @ registration_reply [1] (dealer_socket r) =
      sent b @ concat (replicate (Suc k) (registration_reply [1] (dealer_socket r)))"
    unfolding replicate_snoc using b2(4) by simp
  show ?thesis
    by (rule exI, rule conjI [OF trans [OF eq last]], intro conjI allI impI) (use out in \<open>simp_all add: g\<close>)
qed

lemma registrations_group:
  assumes "services_db (b_db b) s = None" "s \<notin> set (available_services b)" "2 \<le> unat (db_nmr (b_db b))"
  shows "\<exists>b' r. registrations env (replicate (unat (db_nmr (b_db b))) s) b = Inr b' \<and>
     available_services b' = available_services b @ [s] \<and> dealer b' = dealer b @ [dealer_conf (available_dealer_port b)] \<and>
     available_dealer_port b' = available_dealer_port b + 1 \<and>
     next_dealer_skt_index (b_db b') = next_dealer_skt_index (b_db b) + 1 \<and> db_nmr (b_db b') = db_nmr (b_db b) \<and>
     (\<forall>t. t \<noteq> s \<longrightarrow> services_db (b_db b') t = services_db (b_db b) t) \<and>
     services_db (b_db b') s = Some r \<and> dealer_socket r = available_dealer_port b \<and>
     dealer_skt_index r = next_dealer_skt_index (b_db b) \<and> num_copies_registered r = db_nmr (b_db b) \<and>
     sent b' = sent b @ concat (replicate (unat (db_nmr (b_db b))) (registration_reply [1] (available_dealer_port b)))"
proof -
  let ?n = "db_nmr (b_db b)"
  let ?r = "first_record ?n (available_dealer_port b) (next_dealer_skt_index (b_db b))"
  let ?b1 = "b\<lparr>sent := sent b @ registration_reply [1] (available_dealer_port b),
      b_db := (put_record (b_db b) s ?r)\<lparr>next_dealer_skt_index := next_dealer_skt_index (b_db b) + 1\<rparr>,
      available_dealer_port := available_dealer_port b + 1\<rparr>"
  obtain k where k: "unat ?n = Suc (Suc k)" using assms(3) by (metis Suc_1 add_2_eq_Suc le_Suc_ex)
  have first: "get_registration env (registration_frames [1] s) b = Inr ?b1" by (rule get_registration_first [OF assms(1)])
  have "services_db (b_db ?b1) s = Some ?r" "s \<notin> set (available_services ?b1)"
    "unat (num_copies_registered ?r) + Suc k = unat (db_nmr (b_db ?b1))"
    using assms(2) k by (simp_all add: first_record_def)
  from registrations_complete [OF this, of env] obtain b2
    where b2: "registrations env (replicate (Suc k) s) ?b1 = Inr b2"
      "available_services b2 = available_services b @ [s]" "dealer b2 = dealer b @ [dealer_conf (available_dealer_port b)]"
      "available_dealer_port b2 = available_dealer_port b + 1"
      "next_dealer_skt_index (b_db b2) = next_dealer_skt_index (b_db b) + 1" "db_nmr (b_db b2) = ?n"
      "\<forall>t. t \<noteq> s \<longrightarrow> services_db (b_db b2) t = services_db (b_db b) t"
      "services_db (b_db b2) s = Some (more_copies (Suc k) ?r)"
      "sent b2 = sent b @ concat (replicate (Suc (Suc k)) (registration_reply [1] (available_dealer_port b)))"
    by (auto simp: first_record_def simp del: of_nat_Suc)
  have n: "1 + of_nat (Suc k) = ?n" using arg_cong [OF k, of "of_nat :: nat \<Rightarrow> uint8"] by simp
  have "registrations env (replicate (unat ?n) s) b = Inr b2" using first b2(1) k by simp
  with b2 k n show ?thesis
    by (intro exI [of _ b2] exI [of _ "more_copies (Suc k) ?r"]) (simp add: first_record_def del: of_nat_Suc replicate_Suc)
qed

definition routed :: "broker \<Rightarrow> bool" where
  "routed b \<longleftrightarrow> length (dealer b) = length (available_services b) \<and>
     dom (services_db (b_db b)) = set (available_services b) \<and>
     next_dealer_skt_index (b_db b) = of_nat (length (available_services b)) \<and>
     available_dealer_port b = DEALER_START_PORT + of_nat (length (available_services b)) \<and>
     sent b = concat (map (\<lambda>i. concat (replicate (unat (db_nmr (b_db b)))
       (registration_reply [1] (DEALER_START_PORT + of_nat i)))) [0..<length (available_services b)]) \<and>
     (\<forall>i < length (available_services b). \<exists>r. services_db (b_db b) (available_services b ! i) = Some r \<and>
        unat (dealer_skt_index r) = i \<and> dealer_socket r = DEALER_START_PORT + of_nat i \<and>
        dealer b ! i = dealer_conf (dealer_socket r) \<and> num_copies_registered r = db_nmr (b_db b))"

lemma registrations_groups:
  assumes "routed b" "distinct (available_services b @ ss)" "length (available_services b @ ss) < 65536"
    and "2 \<le> unat (db_nmr (b_db b))"
  shows "\<exists>b'. registrations env (concat (map (replicate (unat (db_nmr (b_db b)))) ss)) b = Inr b' \<and> routed b' \<and>
     available_services b' = available_services b @ ss \<and> db_nmr (b_db b') = db_nmr (b_db b)"
  using assms
proof (induction ss arbitrary: b)
  case Nil
  then show ?case by auto
next
  case (Cons s ss)
  let ?n = "db_nmr (b_db b)" and ?a = "available_services b"
  have "services_db (b_db b) s = None" "s \<notin> set ?a"
    using Cons.prems(1,2) by (auto simp: routed_def)
  from registrations_group [OF this Cons.prems(4), of env] obtain b1 r
    where b1: "registrations env (replicate (unat ?n) s) b = Inr b1"
      "available_services b1 = ?a @ [s]" "dealer b1 = dealer b @ [dealer_conf (available_dealer_port b)]"
      "available_dealer_port b1 = available_dealer_port b + 1"
      "next_dealer_skt_index (b_db b1) = next_dealer_skt_index (b_db b) + 1" "db_nmr (b_db b1) = ?n"
      "\<forall>t. t \<noteq> s \<longrightarrow> services_db (b_db b1) t = services_db (b_db b) t"
      "services_db (b_db b1) s = Some r" "dealer_socket r = available_dealer_port b"
      "dealer_skt_index r = next_dealer_skt_index (b_db b)" "num_copies_registered r = ?n"
      "sent b1 = sent b @ concat (replicate (unat ?n) (registration_reply [1] (available_dealer_port b)))" by blast
  have idx: "unat (dealer_skt_index r) = length ?a"
    using Cons.prems(1,3) b1(10) by (simp add: routed_def unat_of_nat)
  have "routed b1"
    unfolding routed_def
  proof (intro conjI allI impI)
    show "dom (services_db (b_db b1)) = set (available_services b1)"
    proof -
      have "t \<in> dom (services_db (b_db b1)) \<longleftrightarrow> t = s \<or> t \<in> dom (services_db (b_db b))" for t
        using b1(7,8) by (cases "t = s") (simp_all add: domIff)
      moreover have "dom (services_db (b_db b)) = set ?a" using Cons.prems(1) by (simp add: routed_def)
      ultimately show ?thesis using b1(2) by auto
    qed
    fix i assume "i < length (available_services b1)"
    then consider "i < length ?a" | "i = length ?a" using b1(2) by fastforce
    then show "\<exists>r. services_db (b_db b1) (available_services b1 ! i) = Some r \<and>
        unat (dealer_skt_index r) = i \<and> dealer_socket r = DEALER_START_PORT + of_nat i \<and>
        dealer b1 ! i = dealer_conf (dealer_socket r) \<and> num_copies_registered r = db_nmr (b_db b1)"
    proof cases
      case 1
      then have "?a ! i \<noteq> s" using Cons.prems(2) by (metis distinct_append disjoint_iff list.set_intros(1) nth_mem)
      with 1 b1 Cons.prems(1) show ?thesis by (simp add: routed_def nth_append)
    next
      case 2
      with b1 idx Cons.prems(1) show ?thesis by (simp add: routed_def nth_append)
    qed
  qed (use b1 Cons.prems(1) in \<open>simp_all add: routed_def algebra_simps\<close>)
  moreover have "distinct (available_services b1 @ ss)" "length (available_services b1 @ ss) < 65536"
    using Cons.prems(2,3) b1(2) by auto
  ultimately obtain b' where "registrations env (concat (map (replicate (unat ?n)) ss)) b1 = Inr b'" "routed b'"
    "available_services b' = available_services b1 @ ss" "db_nmr (b_db b') = ?n"
    using Cons.IH [of b1] Cons.prems(4) b1(6) by auto
  then show ?case using b1(1,2) by (simp add: registrations_append)
qed

section \<open>Properties\<close>

text \<open>
  C17: Pings reach the copies they are meant for: in every state the broker reaches there is
  one dealer socket per offered service, at the same position, bound on the port that the
  record of this service stores, and this is the port that is announced: any further
  registration for the service is answered with it while copies are missing, and with
  \<open>REG_FAIL\<close> otherwise, and moves no dealer socket.
\<close>

theorem dealers_on_announced_ports:
  assumes "new_broker nmr p_router p_reg now = Inr b0" and "broker_iter\<^sup>*\<^sup>* b0 b"
    and "i < length (available_services b)" and "available_services b ! i = s"
  shows "length (dealer b) = length (available_services b) \<and>
     (\<exists>r b'. services_db (b_db b) s = Some r \<and> dealer b ! i = dealer_conf (dealer_socket r) \<and>
        get_registration env (registration_frames f s) b = Inr b' \<and> dealer b' = dealer b \<and>
        sent b' = sent b @ registration_reply f
          (if num_copies_registered r < db_nmr (b_db b) then dealer_socket r else REG_FAIL))"
proof -
  have inv: "dealers_inv b" by (rule dealer_loop_system.steps_inv [OF assms(2) new_broker_dealers [OF assms(1)]])
  with assms(3,4) obtain r where r: "services_db (b_db b) s = Some r" "dealer b ! i = dealer_conf (dealer_socket r)"
    by (auto simp: dealers_inv_def)
  have "s \<in> set (available_services b)" using assms(3,4) by auto
  with r inv get_registration_again [OF r(1), of env f] get_registration_full [OF r(1), of env f] show ?thesis
    by (cases "num_copies_registered r < db_nmr (b_db b)") (simp_all add: dealers_inv_def)
qed

text \<open>
  C16: Services deployed one after another are routed correctly. When the \<open>nmr\<close> copies of each
  service register before the first copy of the next one, every service becomes available, in
  order, and there is one dealer socket per service. The \<open>i\<close>-th service gets the \<open>i\<close>-th port
  from \<open>DEALER_START_PORT\<close> on: all its \<open>nmr\<close> copies are answered this port, nothing else is
  sent, the \<open>i\<close>-th dealer socket is bound on it, and \<open>i\<close> is the index a request for the
  service is sent to.
\<close>

theorem sequential_deployment_routes:
  assumes "new_broker nmr p_router p_reg now = Inr b0" and "distinct ss" and "length ss \<le> 59536" and "2 \<le> unat nmr"
  shows "\<exists>b. registrations env (concat (map (replicate (unat nmr)) ss)) b0 = Inr b \<and> available_services b = ss \<and>
     length (dealer b) = length ss \<and>
     sent b = concat (map (\<lambda>i. concat (replicate (unat nmr) (registration_reply [1] (DEALER_START_PORT + of_nat i))))
       [0..<length ss]) \<and>
     (\<forall>i < length ss. \<exists>r. services_db (b_db b) (ss ! i) = Some r \<and> find_registration (b_db b) (ss ! i) = int i \<and>
        unat (dealer_socket r) = 6000 + i \<and> dealer b ! i = dealer_conf (dealer_socket r) \<and> num_copies_registered r = nmr)"
proof -
  from assms(1) have b0: "routed b0" "available_services b0 = []" "db_nmr (b_db b0) = nmr"
    by (auto simp: new_broker_eq routed_def init_db_def)
  from registrations_groups [OF b0(1), of ss env] assms(2-4) b0(2,3) obtain b
    where b: "registrations env (concat (map (replicate (unat nmr)) ss)) b0 = Inr b" "routed b" "available_services b = ss"
      and nmr: "db_nmr (b_db b) = nmr"
    by auto
  have "\<exists>r. services_db (b_db b) (ss ! i) = Some r \<and> find_registration (b_db b) (ss ! i) = int i \<and>
        unat (dealer_socket r) = 6000 + i \<and> dealer b ! i = dealer_conf (dealer_socket r) \<and> num_copies_registered r = nmr"
    if "i < length ss" for i
  proof -
    from b(2) that obtain r where r: "services_db (b_db b) (ss ! i) = Some r" "unat (dealer_skt_index r) = i"
      "dealer_socket r = DEALER_START_PORT + of_nat i"
      "dealer b ! i = dealer_conf (dealer_socket r)" "num_copies_registered r = nmr"
      by (auto simp: routed_def b(3) nmr)
    have "dealer_socket r = of_nat (6000 + i)" using r(3) by simp
    then have "unat (dealer_socket r) = 6000 + i" using that assms(3) by (simp only: unat_of_nat) simp
    moreover have "int (unat (dealer_skt_index r)) = uint (dealer_skt_index r)" by simp
    with r(2) have "uint (dealer_skt_index r) = int i" by metis
    with r(1) have "find_registration (b_db b) (ss ! i) = int i" by (simp add: find_registration_def)
    ultimately show ?thesis using r by blast
  qed
  moreover from b(2) have "length (dealer b) = length ss"
    "sent b = concat (map (\<lambda>i. concat (replicate (unat nmr) (registration_reply [1] (DEALER_START_PORT + of_nat i))))
       [0..<length ss])" by (simp_all add: routed_def b(3) nmr)
  ultimately show ?thesis using b(1,3) by blast
qed

theorem sequential_deployment_routes_witness:
  "\<exists>b0 b. new_broker 3 5559 5555 \<lparr>tv_sec = 0, tv_nsec = 0\<rparr> = Inr b0 \<and>
     registrations example_env (concat (map (replicate 3) [2, 0])) b0 = Inr b \<and> available_services b = [2, 0] \<and>
     find_registration (b_db b) 0 = 1"
proof -
  obtain b0 where b0: "new_broker 3 5559 5555 \<lparr>tv_sec = 0, tv_nsec = 0\<rparr> = Inr b0" by (simp add: new_broker_eq)
  have "distinct [2, 0 :: service_type_t]" "length [2, 0 :: service_type_t] \<le> 59536" "2 \<le> unat (3 :: uint8)" by simp_all
  from sequential_deployment_routes [OF b0 this, of example_env] b0 show ?thesis by fastforce
qed

definition reg_event :: "service_type_t \<Rightarrow> poll_result" where
  "reg_event s = \<lparr>ev_hc = False, ev_reg = Some (registration_frames [1] s), ev_router = None, ev_dealer = []\<rparr>"

theorem dealers_on_announced_ports_witness:
  "\<exists>b0 b r. new_broker 2 5559 5555 \<lparr>tv_sec = 0, tv_nsec = 0\<rparr> = Inr b0 \<and> broker_iter\<^sup>*\<^sup>* b0 b \<and>
     available_services b = [7] \<and> services_db (b_db b) 7 = Some r \<and> dealer b ! 0 = dealer_conf (dealer_socket r)"
proof -
  obtain b0 where b0: "new_broker 2 5559 5555 \<lparr>tv_sec = 0, tv_nsec = 0\<rparr> = Inr b0" "ticks b0 = 0" "dealer b0 = []"
    "available_services b0 = []" "timeouts b0 = []" "b_db b0 = init_db 2"
    by (simp add: new_broker_eq)
  obtain b1 r1 where b1: "broker_step example_env (reg_event 7) b0 = Inr b1" "timeouts b1 = []" "available_services b1 = []"
    "services_db (b_db b1) 7 = Some r1" "num_copies_registered r1 = 1" "db_nmr (b_db b1) = 2" "ticks b1 = 2"
    "request_records r1 = []"
    using b0 by (simp add: broker_step_def clock_gettime_def reg_event_def get_registration_first init_db_def
        check_pending_requests_def first_record_def)
  obtain b2 r2 where b2: "broker_step example_env (reg_event 7) b1 = Inr b2" "available_services b2 = [7]"
    "services_db (b_db b2) 7 = Some r2"
    using b1 by (simp add: broker_step_def clock_gettime_def reg_event_def get_registration_last one_more_def
        check_pending_requests_def time_cmp_def time_add_ms_def get_pending_requests_def)
  have "broker_iter b0 b1" "broker_iter b1 b2" using b1(1) b2(1) by (auto intro: broker_iter.iterate)
  then have steps: "broker_iter\<^sup>*\<^sup>* b0 b2" by (meson converse_rtranclp_into_rtranclp r_into_rtranclp)
  from dealers_on_announced_ports [OF b0(1) steps, of 0] b0(1) b2 steps show ?thesis by auto
qed

text \<open>
  C33: Services whose copies register interleaved are misrouted. Let the first copy of a service
  \<open>s\<close> register at a new broker before those of \<open>t\<close>, and the other copies of \<open>s\<close> after them.
  Then \<open>s\<close> has the index 0, but the dealer socket 0 is the one of \<open>t\<close>: every request for \<open>s\<close>
  is put there, on the port that was announced to the copies of \<open>t\<close>, while the copies of \<open>s\<close>
  wait at another port.
\<close>

theorem interleaved_deployment_misroutes:
  fixes c :: uint32
  assumes "new_broker nmr p_router p_reg now = Inr b0" and "s \<noteq> t" and "2 \<le> unat nmr"
    and "load 4 1 f = Inr c" and "length params = PARAM_SIZE"
  shows "\<exists>b rs rt b' sm. registrations env (s # replicate (unat nmr) t @ replicate (unat nmr - 1) s) b0 = Inr b \<and>
     available_services b = [t, s] \<and>
     services_db (b_db b) s = Some rs \<and> dealer_socket rs = 6000 \<and>
     services_db (b_db b) t = Some rt \<and> dealer_socket rt = 6001 \<and>
     dealer b = [dealer_conf (dealer_socket rt), dealer_conf (dealer_socket rs)] \<and>
     get_request env (f, e, enc_request (request_for s params)) b = Inr b' \<and>
     sent b' = sent b @ concat (replicate (unat nmr) (send_frames (Dealer 0) [f, e, enc_service sm]))"
proof -
  let ?r = "first_record nmr 6000 0"
  obtain k where k: "unat nmr = Suc (Suc k)" using assms(3) by (metis Suc_1 add_2_eq_Suc le_Suc_ex)
  let ?b1 = "b0\<lparr>sent := sent b0 @ registration_reply [1] 6000,
      b_db := (put_record (b_db b0) s ?r)\<lparr>next_dealer_skt_index := 1\<rparr>, available_dealer_port := 6001\<rparr>"
  have b1: "get_registration env (registration_frames [1] s) b0 = Inr ?b1" "services_db (b_db ?b1) t = None"
    "services_db (b_db ?b1) s = Some ?r" "available_services ?b1 = []" "dealer ?b1 = []" "db_nmr (b_db ?b1) = nmr"
    using assms(1,2) get_registration_first [of b0 s env "[1]"] by (auto simp: new_broker_eq init_db_def)
  from registrations_group [OF b1(2), of env] b1(4,5,6) assms(2,3) obtain b2 rt
    where b2: "registrations env (replicate (unat nmr) t) ?b1 = Inr b2" "available_services b2 = [t]"
      "dealer b2 = [dealer_conf 6001]" "db_nmr (b_db b2) = nmr" "services_db (b_db b2) s = Some ?r"
      "services_db (b_db b2) t = Some rt" "dealer_socket rt = 6001" using b1(3) by auto
  have "s \<notin> set (available_services b2)" "unat (num_copies_registered ?r) + Suc k = unat (db_nmr (b_db b2))"
    using assms(2) b2(2,4) k by (simp_all add: first_record_def)
  from registrations_complete [OF b2(5) this, of env] assms(2) b2 obtain b
    where b: "registrations env (replicate (Suc k) s) b2 = Inr b" "available_services b = [t, s]"
      "dealer b = [dealer_conf 6001, dealer_conf 6000]" "services_db (b_db b) s = Some (more_copies (Suc k) ?r)"
      "services_db (b_db b) t = Some rt" by (auto simp: first_record_def simp del: of_nat_Suc)
  have all: "registrations env (s # replicate (unat nmr) t @ replicate (unat nmr - 1) s) b0 = Inr b"
    using b1(1) b2(1) b(1) by (simp add: registrations_append k del: replicate_Suc)
  have "1 + of_nat (Suc k) = nmr" using arg_cong [OF k, of "of_nat :: nat \<Rightarrow> uint8"] by simp
  then have copies: "num_copies_reliable (more_copies (Suc k) ?r) = nmr" "dealer_skt_index (more_copies (Suc k) ?r) = 0"
    "dealer_socket (more_copies (Suc k) ?r) = 6000"
    by (simp_all add: first_record_def del: of_nat_Suc)
  have "broker_inv b" by (rule registrations_inv [OF all new_broker_inv [OF assms(1)]])
  then have "length (timeouts b) = length (available_services b)" by (simp add: broker_inv_def)
  with b(2,3) copies have req: "unat (dealer_skt_index (more_copies (Suc k) ?r)) < length (dealer b)"
    "s \<in> set (available_services b)" "length (timeouts b) = length (available_services b)" by simp_all
  have "\<exists>b' sm. get_request env (f, e, enc_request (request_for s params)) b = Inr b' \<and>
     sent b' = sent b @ concat (replicate (unat nmr) (send_frames (Dealer 0) [f, e, enc_service sm]))"
    by (rule exI, rule exI [of _ "forwarded env (more_copies (Suc k) ?r) params"],
        rule conjI [OF get_request_eq [OF assms(4,5) b(4) req]])
      (simp only: copies unat_0 simp_thms broker.simps, simp)
  moreover have "dealer b = [dealer_conf (dealer_socket rt), dealer_conf (dealer_socket (more_copies (Suc k) ?r))]"
    using b(3) copies(3) b2(7) by simp
  ultimately show ?thesis using all b(2,4,5) copies(3) b2(7) by blast
qed

theorem interleaved_deployment_misroutes_witness:
  "\<exists>b0 b b' sm. new_broker 2 5559 5555 \<lparr>tv_sec = 0, tv_nsec = 0\<rparr> = Inr b0 \<and>
     registrations example_env [0, 1, 1, 0] b0 = Inr b \<and> dealer b = [dealer_conf 6001, dealer_conf 6000] \<and>
     get_request example_env (client_frame 9, [], enc_request (request_for 0 (replicate 100 53))) b = Inr b' \<and>
     sent b' = sent b @ concat (replicate 2 (send_frames (Dealer 0) [client_frame 9, [], enc_service sm]))"
proof -
  obtain b0 where b0: "new_broker 2 5559 5555 \<lparr>tv_sec = 0, tv_nsec = 0\<rparr> = Inr b0" by (simp add: new_broker_eq)
  have "(0 :: service_type_t) \<noteq> 1" "2 \<le> unat (2 :: uint8)" "load 4 1 (client_frame 9) = Inr (9 :: uint32)"
    "length (replicate 100 (53 :: byte)) = 100" by simp_all
  note misrouted = interleaved_deployment_misroutes [OF b0 this, of example_env "[]"]
  have u: "unat (2 :: uint8) = 2" by simp
  have l: "0 # replicate 2 1 @ replicate (2 - 1) 0 = [0, 1, 1, 0 :: service_type_t]" by (simp add: numeral_2_eq_2)
  from misrouted [unfolded u, unfolded l] b0 show ?thesis
    by (elim exE conjE, intro exI conjI) simp_all
qed

end
