(* ===== verification/RSF_Typing.thy ===== *)
theory RSF_Typing
  imports RSF_Broker_Run RSF_Routing
begin

text \<open>
  The types of the messages a broker sends. Frames are untyped byte arrays that the receiver
  casts to a structure, so the sender must put a structure of the right size on the right
  socket. \<open>well_typed\<close> is the typing of one message; it is an invariant of the main loop.
\<close>

section \<open>Typing\<close>

fun well_typed :: "nat \<Rightarrow> broker_socket \<times> frame list \<Rightarrow> bool" where
  "well_typed n (Router, [f, e, d]) \<longleftrightarrow> 5 \<le> length f \<and> length d = 8"
| "well_typed n (Dealer i, [f, e, d]) \<longleftrightarrow> i < n \<and> 5 \<le> length f \<and> length d = 8 + PARAM_SIZE"
| "well_typed n (Reg, fs) \<longleftrightarrow> fs \<noteq> [] \<and> length (last fs) = 2"
| "well_typed n (Hc, fs) \<longleftrightarrow> fs = [[]]"
| "well_typed n m \<longleftrightarrow> False"

definition typed_log :: "broker \<Rightarrow> bool" where
  "typed_log b \<longleftrightarrow> whole (sent b) \<and> (\<forall>m \<in> set (messages (sent b)). well_typed (length (dealer b)) m)"

text \<open>A local variable of type \<open>service_module\<close> has the size of the structure.\<close>

definition sized_locals :: "broker_env \<Rightarrow> bool" where
  "sized_locals env \<longleftrightarrow> length (sm_parameters (junk_service env)) = PARAM_SIZE"

lemma well_typed_mono: "well_typed n m \<Longrightarrow> n \<le> n' \<Longrightarrow> well_typed n' m"
  by (induction n m rule: well_typed.induct) auto

lemma length_sized [simp]:
  "length (enc_response rs) = 8"
  "length (sm_parameters sm) = PARAM_SIZE \<Longrightarrow> length (enc_service sm) = 8 + PARAM_SIZE"
  by (simp_all add: response_wire.length_enc service_wire.length_enc)

lemma load_length: "load 4 (Suc 0) f = Inr (c :: uint32) \<Longrightarrow> 5 \<le> length f"
  by (simp add: load_Inr_iff)

lemma registration_typed:
  assumes "typed_log b" "whole_registration fs" "get_registration env fs b = Inr b'"
  shows "typed_log b'"
proof -
  from assms(2,3) obtain gs d rm s db' port' ready ret b2
    where b2: "if ready \<and> s \<notin> set (available_services b)
        then make_available env s ret (b\<lparr>b_db := db', available_dealer_port := port'\<rparr>) = Inr b2
        else b2 = b\<lparr>b_db := db', available_dealer_port := port'\<rparr>"
      and b': "b' = b2\<lparr>sent := sent b @ send_frames Reg (gs @ [le_bytes 2 (htons ret)])\<rparr>"
    by (rule registration_message)
  from b2 have "length (dealer b) \<le> length (dealer b2)"
    by (auto simp: make_available_def add_dealer_def clock_gettime_def split: if_splits)
  with assms(1) show ?thesis by (auto simp: b' typed_log_def intro: well_typed_mono)
qed

interpretation typed: broker_invariant env "\<lambda>b. sized_locals env \<longrightarrow> typed_log b" "\<lambda>q. True"
  "\<lambda>(f, e, d). True" "\<lambda>(f, e, d). True" whole_registration for env
proof (unfold_locales, goal_cases)
  case (5 b fs b')
  then show ?case using registration_typed by blast
next
  case (7 b f e d c rq s r n i q t)
  then have "length (rq_parameters rq) = PARAM_SIZE" by (simp add: request_wire.dec_wf)
  with 7 show ?case by (auto simp: typed_log_def load_length simp del: send_frames.simps)
qed (auto simp: typed_log_def sized_locals_def load_length simp del: send_frames.simps)

text \<open>One iteration on complete messages.\<close>

inductive wired_iter :: "broker \<Rightarrow> broker \<Rightarrow> bool" where
  iterate: "broker_step env ev b = Inr b' \<Longrightarrow> sized_locals env \<Longrightarrow>
    (\<forall>fs. ev_reg ev = Some fs \<longrightarrow> whole_registration fs) \<Longrightarrow> wired_iter b b'"

inductive_cases wired_iterE: "wired_iter b b'"

interpretation typed_loop: step_system wired_iter typed_log
proof
  fix b b' assume "wired_iter b b'" "typed_log b"
  then show "typed_log b'"
    by (elim wired_iterE) (use typed.broker_step_P in \<open>force simp: events_ok_def\<close>)
qed

lemma new_broker_typed: "new_broker nmr pr pg now = Inr b \<Longrightarrow> typed_log b"
  by (auto simp: new_broker_eq typed_log_def)

lemma well_typed_casts:
  assumes "well_typed n (k, fs)"
  shows "case k of
      Router \<Rightarrow> \<exists>f e d rs. fs = [f, e, d] \<and> dec_response d = Inr rs
    | Dealer i \<Rightarrow> i < n \<and> (\<exists>f e d sm. fs = [f, e, d] \<and> dec_service d = Inr sm)
    | Reg \<Rightarrow> \<exists>gs p port. fs = gs @ [p] \<and> load 2 0 p = Inr (port :: uint16)
    | Hc \<Rightarrow> fs = [[]]"
  using assms
proof (induction n "(k, fs)" arbitrary: k fs rule: well_typed.induct)
  case (1 n f e d)
  then show ?case using response_wire.dec_Inr_iff_length [of d] by simp
next
  case (2 n i f e d)
  then show ?case using service_wire.dec_Inr_iff_length [of d] by simp
next
  case (3 n fs)
  then have "fs = butlast fs @ [last fs]" "\<exists>port. load 2 0 (last fs) = Inr (port :: uint16)" by (simp_all add: load_def)
  then show ?case unfolding broker_socket.case by blast
qed simp_all

section \<open>Properties\<close>

text \<open>
  C7: Type safety of what a broker sends: in every state its main loop reaches, the log of sends
  consists of whole messages, and each of them is of the type its receiver casts it to: on the
  router an envelope and a \<open>response_module\<close>, on an existing dealer socket an envelope and a
  \<open>service_module\<close>, on the registration socket the frames of the request and a port, and on
  the health checker's socket an empty frame. No cast at a receiver reads past its frame.
\<close>

theorem reachable_messages_typed:
  assumes "new_broker nmr p_router p_reg now = Inr b0" and "wired_iter\<^sup>*\<^sup>* b0 b"
  shows "whole (sent b) \<and> (\<forall>(k, fs) \<in> set (messages (sent b)). case k of
      Router \<Rightarrow> \<exists>f e d rs. fs = [f, e, d] \<and> dec_response d = Inr rs
    | Dealer i \<Rightarrow> i < length (dealer b) \<and> (\<exists>f e d sm. fs = [f, e, d] \<and> dec_service d = Inr sm)
    | Reg \<Rightarrow> \<exists>gs p port. fs = gs @ [p] \<and> load 2 0 p = Inr (port :: uint16)
    | Hc \<Rightarrow> fs = [[]])"
proof -
  have "typed_log b" by (rule typed_loop.steps_inv [OF assms(2) new_broker_typed [OF assms(1)]])
  then show ?thesis using well_typed_casts unfolding typed_log_def by blast
qed

theorem reachable_messages_typed_witness:
  "\<exists>b0 b gs p port. new_broker 2 5559 5555 \<lparr>tv_sec = 0, tv_nsec = 0\<rparr> = Inr b0 \<and> wired_iter\<^sup>*\<^sup>* b0 b \<and>
     (Reg, gs @ [p]) \<in> set (messages (sent b)) \<and> load 2 0 p = Inr (port :: uint16)"
proof -
  obtain b0 where b0: "new_broker 2 5559 5555 \<lparr>tv_sec = 0, tv_nsec = 0\<rparr> = Inr b0" "ticks b0 = 0" "dealer b0 = []"
    "available_services b0 = []" "timeouts b0 = []" "b_db b0 = init_db 2" "sent b0 = []"
    by (simp add: new_broker_eq)
  obtain b1 where b1: "broker_step example_env (reg_event 7) b0 = Inr b1"
    "sent b1 = registration_reply [1] (available_dealer_port b0)"
    using b0 by (simp add: broker_step_def clock_gettime_def reg_event_def get_registration_first init_db_def
        check_pending_requests_def first_record_def)
  have "wired_iter b0 b1"
    by (rule wired_iter.iterate [OF b1(1)])
      (simp_all add: sized_locals_def example_env_def reg_event_def registration_frames_def whole_registration_def)
  then have steps: "wired_iter\<^sup>*\<^sup>* b0 b1" by blast
  have mem: "(Reg, [[1], [], le_bytes 2 (htons (available_dealer_port b0))]) \<in> set (messages (sent b1))"
    by (simp add: b1(2) registration_reply_def)
  with reachable_messages_typed [OF b0(1) steps] have
    "\<exists>gs p port. [[1], [], le_bytes 2 (htons (available_dealer_port b0))] = gs @ [p] \<and> load 2 0 p = Inr (port :: uint16)"
    by fastforce
  then obtain gs p and port :: uint16 where "[[1], [], le_bytes 2 (htons (available_dealer_port b0))] = gs @ [p]"
    "load 2 0 p = Inr port" by blast
  with mem b0(1) steps show ?thesis by metis
qed

end
