(* ===== verification/RSF_Timeouts.thy ===== *)
theory RSF_Timeouts
  imports RSF_Broker_Facts
begin

text \<open>
  The time-driven part of the broker: expired requests (\<open>check_pending_requests\<close>) and the
  heartbeat of the server copies. A request that is still pending has no majority, so an
  expired one is reported as unreliable. The index of a service in the list of available
  services is used as its code when the request is deleted; the first property shows what the
  routine does when the two agree, the second what happens when they do not.
\<close>

section \<open>Expired requests\<close>

definition expired :: "timespec \<Rightarrow> request_record_t \<Rightarrow> bool" where
  "expired now q \<longleftrightarrow> time_cmp now (rr_timeout q) = 1"

definition timeout_responses :: "timespec \<Rightarrow> int32 \<Rightarrow> request_record_t list \<Rightarrow> broker_socket zsend list" where
  "timeout_responses now result qs =
     concat (map (\<lambda>q. response_frames (client_frame (client_id q)) [] SERVICE_NOT_RELIABLE result)
       (filter (expired now) qs))"

definition drop_expired :: "timespec \<Rightarrow> service_record \<Rightarrow> service_record" where
  "drop_expired now r = r\<lparr>request_records := filter (\<lambda>q. \<not> expired now q) (request_records r)\<rparr>"

definition undecided :: "nat \<Rightarrow> request_record_t \<Rightarrow> bool" where
  "undecided n q \<longleftrightarrow> length (results q) \<le> n \<and> (\<forall>v. \<not> majority n (results q) v)"

lemma lookup_request_mem:
  "distinct (map client_id qs) \<Longrightarrow> q \<in> set qs \<Longrightarrow> lookup_request qs (client_id q) = Some (results q)"
  by (induction qs) (auto simp: lookup_request_def image_iff)

lemma in_session_undecided:
  assumes "in_session b s" "services_db (b_db b) s = Some r" "q \<in> set (request_records r)"
  shows "undecided (unat (b_nmr b)) q"
proof -
  from assms(1,2) have "distinct (map client_id (request_records r))"
    "table_open (unat (b_nmr b)) (lookup_request (request_records r))"
    by (auto elim: in_sessionE)
  with assms(3) show ?thesis
    by (auto simp: undecided_def the_majority_None_iff dest: table_openD lookup_request_mem)
qed

lemma pending_inner_eq:
  assumes "services_db (b_db b) (of_nat i) = Some r" "distinct (map client_id (request_records r))"
    and "\<forall>q \<in> set qs. undecided (unat (b_nmr b)) q"
    and "\<forall>q \<in> set qs. expired now q \<longrightarrow> routable env (client_frame (client_id q))"
  shows "pending_inner env now i qs result b =
    Inr (result, b\<lparr>sent := sent b @ timeout_responses now result qs,
      b_db := put_record (b_db b) (of_nat i)
        (r\<lparr>request_records := filter (\<lambda>p. client_id p \<notin> client_id ` set (filter (expired now) qs)) (request_records r)\<rparr>)\<rparr>)"
  using assms
proof (induction qs arbitrary: b r)
  case Nil
  then show ?case by (simp add: timeout_responses_def fun_upd_idem)
next
  case (Cons q qs)
  show ?case
  proof (cases "expired now q")
    case False
    with Cons show ?thesis by (simp add: timeout_responses_def expired_def)
  next
    case True
    let ?r = "r\<lparr>request_records := filter (\<lambda>p. client_id p \<noteq> client_id q) (request_records r)\<rparr>"
    let ?b = "b\<lparr>sent := sent b @ response_frames (client_frame (client_id q)) [] SERVICE_NOT_RELIABLE result,
                b_db := put_record (b_db b) (of_nat i) ?r\<rparr>"
    from Cons.prems(3) have "vote (b_nmr b) (results q) result = Some (- 1, result)"
      by (auto simp: undecided_def intro: nmr_voter.reject)
    moreover have "answer_client env (client_frame (client_id q)) [] SERVICE_NOT_RELIABLE result (of_nat i) (client_id q) b = Inr ?b"
      using Cons.prems True by (subst answer_client_eq) (auto simp: erase_loop_distinct)
    ultimately have "pending_inner env now i (q # qs) result b = pending_inner env now i qs result ?b"
      using True by (simp add: expired_def client_frame_def)
    also have "\<dots> = Inr (result, ?b\<lparr>sent := sent ?b @ timeout_responses now result qs,
      b_db := put_record (b_db ?b) (of_nat i)
        (?r\<lparr>request_records := filter (\<lambda>p. client_id p \<notin> client_id ` set (filter (expired now) qs)) (request_records ?r)\<rparr>)\<rparr>)"
      using Cons.prems by (intro Cons.IH) (auto simp: distinct_map_filter)
    finally have run: "pending_inner env now i (q # qs) result b = Inr (result, ?b\<lparr>sent := sent ?b @ timeout_responses now result qs,
      b_db := put_record (b_db ?b) (of_nat i)
        (?r\<lparr>request_records := filter (\<lambda>p. client_id p \<notin> client_id ` set (filter (expired now) qs)) (request_records ?r)\<rparr>)\<rparr>)" .
    have "timeout_responses now result (q # qs) =
        response_frames (client_frame (client_id q)) [] SERVICE_NOT_RELIABLE result @ timeout_responses now result qs"
      "filter (\<lambda>p. client_id p \<notin> client_id ` set (filter (expired now) (q # qs))) (request_records r) =
        filter (\<lambda>p. client_id p \<notin> client_id ` set (filter (expired now) qs)) (request_records ?r)"
      using True by (simp_all add: timeout_responses_def conj_commute)
    then show ?thesis unfolding run by (simp, simp add: fun_upd_def)
  qed
qed

lemma filter_expired_clients:
  "distinct (map client_id qs) \<Longrightarrow>
   filter (\<lambda>p. client_id p \<notin> client_id ` set (filter (expired now) qs)) qs = filter (\<lambda>q. \<not> expired now q) qs"
  by (rule filter_cong) (auto simp: distinct_map inj_on_def)

definition session_ready :: "broker_env \<Rightarrow> timespec \<Rightarrow> broker \<Rightarrow> service_type_t \<Rightarrow> bool" where
  "session_ready env now b s \<longleftrightarrow> in_session b s \<and>
     (\<forall>r q. services_db (b_db b) s = Some r \<and> q \<in> set (request_records r) \<and> expired now q \<longrightarrow>
        routable env (client_frame (client_id q)))"

lemma pending_service_eq:
  assumes "session_ready env now b (of_nat i)"
  obtains r where "services_db (b_db b) (of_nat i) = Some r"
    "pending_inner env now i (request_records r) result b =
       Inr (result, b\<lparr>sent := sent b @ timeout_responses now result (request_records r),
                      b_db := put_record (b_db b) (of_nat i) (drop_expired now r)\<rparr>)"
proof -
  have "in_session b (of_nat i)" using assms by (simp add: session_ready_def)
  then obtain r where r: "services_db (b_db b) (of_nat i) = Some r" "distinct (map client_id (request_records r))"
    by (rule in_sessionE)
  with assms have "\<forall>q \<in> set (request_records r). undecided (unat (b_nmr b)) q"
    "\<forall>q \<in> set (request_records r). expired now q \<longrightarrow> routable env (client_frame (client_id q))"
    by (auto simp: session_ready_def intro: in_session_undecided)
  from pending_inner_eq [OF r this, of result] show ?thesis
    unfolding filter_expired_clients [OF r(2)] drop_expired_def [symmetric] by (rule that [OF r(1)])
qed

lemma session_ready_frame:
  "services_db (b_db b') s = services_db (b_db b) s \<Longrightarrow> b_nmr b' = b_nmr b \<Longrightarrow>
   session_ready env now b' s = session_ready env now b s"
  by (simp add: session_ready_def in_session_def pending_of_def)

lemma pending_outer_eq:
  assumes "\<forall>k < length ss. ss ! k = of_nat (i + k)" "distinct ss" "\<forall>s \<in> set ss. session_ready env now b s"
  shows "\<exists>b'. pending_outer env now i ss result b = Inr b' \<and>
     sent b' = sent b @ concat (map (\<lambda>s. timeout_responses now result (request_records (the (services_db (b_db b) s)))) ss) \<and>
     (\<forall>s. services_db (b_db b') s =
        (if s \<in> set ss then map_option (drop_expired now) (services_db (b_db b) s) else services_db (b_db b) s))"
  using assms
proof (induction ss arbitrary: i b)
  case (Cons s ss)
  have s: "s = of_nat i" using Cons.prems(1) by (metis add_0_right length_Cons nth_Cons_0 zero_less_Suc)
  from Cons.prems(3) s have "session_ready env now b (of_nat i)" by simp
  then obtain r where r: "services_db (b_db b) s = Some r"
    "pending_inner env now i (request_records r) result b =
       Inr (result, b\<lparr>sent := sent b @ timeout_responses now result (request_records r),
                      b_db := put_record (b_db b) s (drop_expired now r)\<rparr>)"
    unfolding s by (rule pending_service_eq)
  let ?b = "b\<lparr>sent := sent b @ timeout_responses now result (request_records r),
              b_db := put_record (b_db b) s (drop_expired now r)\<rparr>"
  have "\<forall>k < length ss. ss ! k = of_nat (Suc i + k)" using Cons.prems(1)
    by (metis Suc_less_eq add_Suc add_Suc_right length_Cons nth_Cons_Suc)
  moreover have "distinct ss" using Cons.prems(2) by simp
  moreover have ready: "\<forall>t \<in> set ss. session_ready env now ?b t"
  proof
    fix t assume "t \<in> set ss"
    with Cons.prems have "session_ready env now b t" "services_db (b_db ?b) t = services_db (b_db b) t" by auto
    then show "session_ready env now ?b t" by (subst session_ready_frame) simp_all
  qed
  ultimately obtain b' where b': "pending_outer env now (Suc i) ss result ?b = Inr b'"
    "sent b' = sent ?b @ concat (map (\<lambda>s. timeout_responses now result (request_records (the (services_db (b_db ?b) s)))) ss)"
    "\<forall>t. services_db (b_db b') t =
        (if t \<in> set ss then map_option (drop_expired now) (services_db (b_db ?b) t) else services_db (b_db ?b) t)"
    using Cons.IH by blast
  have "pending_outer env now i (s # ss) result b = Inr b'"
    using r b'(1) by (simp add: get_pending_requests_def)
  moreover have same: "map (\<lambda>s. timeout_responses now result (request_records (the (services_db (b_db ?b) s)))) ss =
      map (\<lambda>s. timeout_responses now result (request_records (the (services_db (b_db b) s)))) ss"
    using Cons.prems(2) by (intro map_cong) auto
  have "sent b' = sent b @
      concat (map (\<lambda>s. timeout_responses now result (request_records (the (services_db (b_db b) s)))) (s # ss))"
    unfolding b'(2) same using r(1) by simp
  moreover have "services_db (b_db b') t =
      (if t \<in> set (s # ss) then map_option (drop_expired now) (services_db (b_db b) t) else services_db (b_db b) t)" for t
    using b'(3) r(1) Cons.prems(2) by auto
  ultimately show ?case by blast
qed simp

section \<open>Properties\<close>

text \<open>
  C12: Expired requests: when the services are offered in the order of their codes, no complete
  vote is pending, client identifiers are distinct and the clients with expired requests are
  connected, every request whose deadline has passed is answered with one \<open>SERVICE_NOT_RELIABLE\<close> message to its
  client, service by service in order of arrival, and exactly these requests are removed.
  Requests that have not expired, and all other services, stay as they are.
\<close>

theorem check_pending_answers_expired:
  assumes "broker_inv b" and "\<forall>i < length (available_services b). available_services b ! i = of_nat i"
    and "\<forall>s \<in> set (available_services b). session_ready env (clk env (ticks b)) b s"
  shows "\<exists>b'. check_pending_requests env b = Inr b' \<and>
     sent b' = sent b @ concat (map (\<lambda>s. timeout_responses (clk env (ticks b)) (junk_result env)
       (request_records (the (services_db (b_db b) s)))) (available_services b)) \<and>
     (\<forall>s. services_db (b_db b') s =
        (if s \<in> set (available_services b) then map_option (drop_expired (clk env (ticks b))) (services_db (b_db b) s)
         else services_db (b_db b) s))"
proof -
  let ?b = "b\<lparr>ticks := Suc (ticks b)\<rparr>"
  have "\<forall>k < length (available_services ?b). available_services ?b ! k = of_nat (0 + k)"
    using assms(2) by simp
  moreover have "distinct (available_services ?b)" using assms(1) by (simp add: broker_inv_def)
  moreover have "\<forall>s \<in> set (available_services ?b). session_ready env (clk env (ticks b)) ?b s"
    using assms(3) session_ready_frame [of ?b _ b] by simp
  ultimately obtain b'
    where "pending_outer env (clk env (ticks b)) 0 (available_services ?b) (junk_result env) ?b = Inr b'"
      "sent b' = sent ?b @ concat (map (\<lambda>s. timeout_responses (clk env (ticks b)) (junk_result env)
         (request_records (the (services_db (b_db ?b) s)))) (available_services ?b))"
      "\<forall>s. services_db (b_db b') s =
         (if s \<in> set (available_services ?b) then map_option (drop_expired (clk env (ticks b))) (services_db (b_db ?b) s)
          else services_db (b_db ?b) s)"
    using pending_outer_eq by blast
  then show ?thesis by (intro exI [of _ b']) (auto simp: check_pending_requests_def clock_gettime_def)
qed

theorem check_pending_answers_expired_witness:
  "\<exists>b'. check_pending_requests example_env (example_broker [example_request 5 [7], example_request 6 []]) = Inr b' \<and>
     sent b' = response_frames (client_frame 5) [] SERVICE_NOT_RELIABLE 0 @
       response_frames (client_frame 6) [] SERVICE_NOT_RELIABLE 0 \<and>
     services_db (b_db b') 0 = Some (example_record\<lparr>request_records := []\<rparr>)"
proof -
  let ?qs = "[example_request 5 [7], example_request 6 []]"
  have "\<forall>i < length (available_services (example_broker ?qs)). available_services (example_broker ?qs) ! i = of_nat i"
    "\<forall>s \<in> set (available_services (example_broker ?qs)).
       session_ready example_env (clk example_env (ticks (example_broker ?qs))) (example_broker ?qs) s"
    using example_in_session by (simp_all add: session_ready_def)
  from check_pending_answers_expired [OF example_broker_inv this] show ?thesis
    by (auto simp: timeout_responses_def drop_expired_def expired_def time_cmp_def example_request_def)
qed

text \<open>
  The pass without any order of the services. A pending request is answerable when its client is
  connected and the vote on its results returns. Answering under the code \<open>of_nat i\<close> either
  fails because no service has that code, or only takes requests from this service.
\<close>

definition answerable :: "broker_env \<Rightarrow> request_record_t \<Rightarrow> bool" where
  "answerable env q \<longleftrightarrow> routable env (client_frame (client_id q)) \<and> length (results q) \<le> 255"

definition all_answerable :: "broker_env \<Rightarrow> broker \<Rightarrow> bool" where
  "all_answerable env b \<longleftrightarrow> (\<forall>s r. services_db (b_db b) s = Some r \<longrightarrow> (\<forall>q \<in> set (request_records r). answerable env q))"

definition only_touches :: "service_type_t \<Rightarrow> broker \<Rightarrow> broker \<Rightarrow> bool" where
  "only_touches t b b' \<longleftrightarrow> dom (services_db (b_db b')) = dom (services_db (b_db b)) \<and>
     (\<forall>s. s \<noteq> t \<longrightarrow> services_db (b_db b') s = services_db (b_db b) s)"

lemma only_touches_refl [simp]: "only_touches t b b"
  by (simp add: only_touches_def)

lemma only_touches_trans: "only_touches t a b \<Longrightarrow> only_touches t b c \<Longrightarrow> only_touches t a c"
  by (simp add: only_touches_def)

lemma vote_returns: "length values \<le> 255 \<Longrightarrow> \<exists>ret result'. vote nmr values result = Some (ret, result')"
  using vote_by_max [of "values" nmr result] by (cases "values = []") (auto simp: vote_Nil)

lemma answer_client_unknown:
  "routable env f \<Longrightarrow> services_db (b_db b) t = None \<Longrightarrow> answer_client env f e st v t c b = Inl Exit_Failure"
  by (simp add: answer_client_def router_send_eq delete_request_def)

lemma answer_client_known:
  assumes "routable env f" "services_db (b_db b) t = Some r" "all_answerable env b"
  obtains b' where "answer_client env f e st v t c b = Inr b'" "all_answerable env b'" "only_touches t b b'"
proof -
  have "q \<in> set (erase_loop c 0 (request_records r)) \<Longrightarrow> answerable env q" for q
    using assms(2,3) set_erase_loop [of c "request_records r"] by (auto simp: all_answerable_def)
  with assms(2,3) have "all_answerable env (b\<lparr>sent := sent b @ response_frames f e st v,
      b_db := put_record (b_db b) t (r\<lparr>request_records := erase_loop c 0 (request_records r)\<rparr>)\<rparr>)"
    by (auto simp: all_answerable_def)
  moreover have "only_touches t b (b\<lparr>sent := sent b @ response_frames f e st v,
      b_db := put_record (b_db b) t (r\<lparr>request_records := erase_loop c 0 (request_records r)\<rparr>)\<rparr>)"
    using assms(2) by (auto simp: only_touches_def)
  ultimately show thesis by (rule that [OF answer_client_eq [OF assms(1,2)]])
qed

lemma pending_inner_code:
  assumes "\<forall>q \<in> set qs. answerable env q" "all_answerable env b"
  shows "pending_inner env now i qs result b = Inl Exit_Failure \<or>
     (\<exists>result' b'. pending_inner env now i qs result b = Inr (result', b') \<and> all_answerable env b' \<and> only_touches (of_nat i) b b')"
    and "services_db (b_db b) (of_nat i) = None \<Longrightarrow> \<exists>q \<in> set qs. expired now q \<Longrightarrow>
      pending_inner env now i qs result b = Inl Exit_Failure"
proof -
  have "(pending_inner env now i qs result b = Inl Exit_Failure \<or>
     (\<exists>result' b'. pending_inner env now i qs result b = Inr (result', b') \<and> all_answerable env b' \<and> only_touches (of_nat i) b b')) \<and>
    (services_db (b_db b) (of_nat i) = None \<and> (\<exists>q \<in> set qs. expired now q) \<longrightarrow>
      pending_inner env now i qs result b = Inl Exit_Failure)"
    using assms
  proof (induction qs arbitrary: result b)
    case (Cons q qs)
    show ?case
    proof (cases "expired now q")
      case False
      with Cons show ?thesis by (simp add: expired_def)
    next
      case True
      from Cons.prems(1) obtain ret result' where vote: "vote (b_nmr b) (results q) result = Some (ret, result')"
        using vote_returns by (fastforce simp: answerable_def)
      let ?answer = "answer_client env (client_frame (client_id q)) []
        (if ret \<ge> 0 then SERVICE_AVAILABLE else SERVICE_NOT_RELIABLE) result' (of_nat i) (client_id q) b"
      have step: "pending_inner env now i (q # qs) result b = rbind ?answer (\<lambda>b1. pending_inner env now i qs result' b1)"
        using True vote by (simp add: expired_def client_frame_def)
      have "routable env (client_frame (client_id q))" using Cons.prems(1) by (simp add: answerable_def)
      note route = this
      show ?thesis
      proof (cases "services_db (b_db b) (of_nat i)")
        case None
        with route show ?thesis by (simp add: step answer_client_unknown del: pending_inner.simps)
      next
        case (Some r)
        obtain b1 where b1: "?answer = Inr b1" "all_answerable env b1" "only_touches (of_nat i) b b1"
          by (rule answer_client_known [OF route Some Cons.prems(2)])
        have "\<forall>q \<in> set qs. answerable env q" using Cons.prems(1) by simp
        from Cons.IH [OF this b1(2), of result'] b1 Some show ?thesis
          by (auto simp: step intro: only_touches_trans simp del: pending_inner.simps)
      qed
    qed
  qed simp
  then show "pending_inner env now i qs result b = Inl Exit_Failure \<or>
     (\<exists>result' b'. pending_inner env now i qs result b = Inr (result', b') \<and> all_answerable env b' \<and> only_touches (of_nat i) b b')"
    "services_db (b_db b) (of_nat i) = None \<Longrightarrow> \<exists>q \<in> set qs. expired now q \<Longrightarrow>
      pending_inner env now i qs result b = Inl Exit_Failure" by blast+
qed

lemma pending_outer_code:
  assumes "all_answerable env b" "i < length ss" "services_db (b_db b) (of_nat (k + i)) = None"
    and "services_db (b_db b) (ss ! i) = Some r" "\<exists>q \<in> set (request_records r). expired now q"
    and "\<forall>j < i. of_nat (k + j) \<noteq> ss ! i"
  shows "pending_outer env now k ss result b = Inl Exit_Failure"
  using assms
proof (induction ss arbitrary: k i result b)
  case (Cons s ss)
  show ?case
  proof (cases "services_db (b_db b) s")
    case None
    then show ?thesis by (simp add: get_pending_requests_def)
  next
    case (Some r1)
    then have qs: "\<forall>q \<in> set (request_records r1). answerable env q" using Cons.prems(1) by (auto simp: all_answerable_def)
    show ?thesis
    proof (cases i)
      case 0
      with Cons.prems Some pending_inner_code(2) [OF qs Cons.prems(1), of k now result]
      show ?thesis by (simp add: get_pending_requests_def)
    next
      case (Suc i')
      from pending_inner_code(1) [OF qs Cons.prems(1), of now k result] show ?thesis
      proof (elim disjE exE conjE)
        fix result' b'
        assume run: "pending_inner env now k (request_records r1) result b = Inr (result', b')"
          and b': "all_answerable env b'" "only_touches (of_nat k) b b'"
        have "services_db (b_db b') (of_nat (Suc k + i')) = None"
          using b'(2) Cons.prems(3) Suc by (auto simp: only_touches_def domIff simp del: of_nat_add of_nat_Suc)
        moreover have "services_db (b_db b') (ss ! i') = Some r"
          using b'(2) Cons.prems(4,6) Suc by (auto simp: only_touches_def)
        moreover have "\<forall>j < i'. of_nat (Suc k + j) \<noteq> ss ! i'"
          using Cons.prems(6) Suc by (metis Suc_less_eq add_Suc_shift nth_Cons_Suc)
        ultimately have "pending_outer env now (Suc k) ss result' b' = Inl Exit_Failure"
          using Cons.prems(2,5) Suc b'(1) by (intro Cons.IH [of b' i' "Suc k" result']) auto
        with Some run show ?thesis by (simp add: get_pending_requests_def)
      qed (use Some in \<open>simp add: get_pending_requests_def\<close>)
    qed
  qed
qed simp

text \<open>
  C37: The timeout of a request can stop the broker, whatever the other services do: when a
  request for the service offered at position \<open>i\<close> has expired and no service is registered
  under the code \<open>i\<close>, the broker looks the request up under that code and exits. The clients of
  pending requests are connected, no request has more than 255 results, and the code of the
  service is not an earlier position, since then the request may have been deleted before.
\<close>

theorem pending_timeout_stops_broker:
  assumes "i < length (available_services b)" and "services_db (b_db b) (available_services b ! i) = Some r"
    and "\<exists>q \<in> set (request_records r). expired (clk env (ticks b)) q"
    and "services_db (b_db b) (of_nat i) = None" and "\<forall>j < i. of_nat j \<noteq> available_services b ! i"
    and "\<forall>s r. services_db (b_db b) s = Some r \<longrightarrow>
      (\<forall>q \<in> set (request_records r). routable env (client_frame (client_id q)) \<and> length (results q) \<le> 255)"
  shows "check_pending_requests env b = Inl Exit_Failure"
proof -
  let ?b = "b\<lparr>ticks := Suc (ticks b)\<rparr>"
  have "all_answerable env ?b" using assms(6) by (simp add: all_answerable_def answerable_def)
  then have "pending_outer env (clk env (ticks b)) 0 (available_services b) (junk_result env) ?b = Inl Exit_Failure"
    using assms(1-5) by (intro pending_outer_code [of env ?b i]) simp_all
  then show ?thesis by (simp add: check_pending_requests_def clock_gettime_def)
qed

theorem pending_timeout_stops_broker_witness:
  "check_pending_requests example_env ((example_broker [])\<lparr>available_services := [0, 2],
     b_db := \<lparr>db_nmr = 3, services_db = [0 \<mapsto> example_record, 2 \<mapsto> example_record\<lparr>request_records := [example_request 5 [7]]\<rparr>],
              next_dealer_skt_index = 2\<rparr>\<rparr>) = Inl Exit_Failure"
  by (rule pending_timeout_stops_broker [of 1 _ "example_record\<lparr>request_records := [example_request 5 [7]]\<rparr>"])
    (auto simp: expired_def time_cmp_def example_request_def example_record_def split: if_splits)

section \<open>Heartbeats\<close>

lemma checked_record_inv_eq:
  assumes "broker_inv b" "services_db (b_db b) s = Some r"
  shows "checked_record (db_nmr (b_db b)) r =
    Inr (r\<lparr>new_pong := replicate (unat (b_nmr b)) False, lost_pong := map2 age_pong (new_pong r) (lost_pong r),
           num_copies_reliable := num_copies_reliable r - of_nat (num_dying r),
           num_copies_registered := num_copies_registered r - of_nat (num_dying r),
           seq_id_ping := seq_id_ping r + 1\<rparr>)"
proof -
  have "record_inv (unat (b_nmr b)) r" "db_nmr (b_db b) = b_nmr b"
    using assms unfolding broker_inv_def by (metis db_invD)+
  then show ?thesis by (simp add: checked_record_eq record_inv_def)
qed

definition ping_frames :: "broker_env \<Rightarrow> nat \<Rightarrow> uint32 \<Rightarrow> broker_socket zsend list" where
  "ping_frames env i n = send_frames (Dealer i) [[0, 97, 97, 97, 97], [],
     enc_service ((junk_service env)\<lparr>sm_heartbeat := True, sm_seq_id := htonl n\<rparr>)]"

text \<open>What one expired heartbeat deadline makes the broker do.\<close>

lemma heartbeat_once:
  assumes inv: "broker_inv b" and i: "i < length (available_services b)" "i < 256"
    and r: "services_db (b_db b) (available_services b ! i) = Some r"
    and r': "checked_record (db_nmr (b_db b)) r = Inr r'"
  shows "rbind (check_pong (b_db b) (available_services b ! i)) (\<lambda>db'.
         rbind (ping_server env (of_nat i) (available_services b ! i) (b\<lparr>b_db := db'\<rparr>))
           (update_timeout env (available_services b ! i))) =
    Inr (b\<lparr>b_db := put_record (b_db b) (available_services b ! i) r',
           sent := sent b @ concat (replicate (unat (num_copies_reliable r')) (ping_frames env i (seq_id_ping r'))),
           ticks := Suc (ticks b),
           timeouts := (timeouts b)[i := time_add_ms (clk env (ticks b)) HEARTBEAT_INTERVAL]\<rparr>)"
proof -
  have u: "unat (of_nat i :: uint8) = i" using i(2) by (simp add: unat_of_nat)
  have len: "length (dealer b) = length (available_services b)" "length (timeouts b) = length (available_services b)"
    "distinct (available_services b)" using inv by (auto simp: broker_inv_def)
  show ?thesis
    using check_pong_op.oper_found [OF r r'] i len u
    by (simp add: ping_server_def get_ping_id_def get_reliable_copies_def send_copies_eq update_timeout_eq
        ping_frames_def index_of_nth)
qed

lemma available_record:
  assumes "broker_inv b" "i < length (available_services b)"
  obtains r r' where "services_db (b_db b) (available_services b ! i) = Some r"
    "checked_record (db_nmr (b_db b)) r = Inr r'"
proof -
  from assms have "available_services b ! i \<in> dom (services_db (b_db b))"
    unfolding broker_inv_def by (metis nth_mem subsetD)
  then obtain r where "services_db (b_db b) (available_services b ! i) = Some r" by blast
  with checked_record_inv_eq [OF assms(1) this] that show ?thesis by blast
qed

lemma heartbeat_loop_total:
  "broker_inv b \<Longrightarrow> i + n \<le> length (available_services b) \<Longrightarrow> i + n \<le> 256 \<Longrightarrow>
   \<exists>b'. heartbeat_loop env n i b = Inr b'"
proof (induction n arbitrary: i b)
  case (Suc n)
  have len: "length (timeouts b) = length (available_services b)" using Suc.prems(1) by (simp add: broker_inv_def)
  show ?case
  proof (cases "time_cmp (b_now b) (timeouts b ! i) = 1")
    case False
    with Suc len show ?thesis by simp
  next
    case True
    have "i < length (available_services b)" using Suc.prems(2) by simp
    with Suc.prems(1) obtain r r' where r: "services_db (b_db b) (available_services b ! i) = Some r"
      "checked_record (db_nmr (b_db b)) r = Inr r'" by (rule available_record)
    from heartbeat_once [OF Suc.prems(1) _ _ r, of env] Suc.prems obtain db1 b1 b2
      where steps: "check_pong (b_db b) (available_services b ! i) = Inr db1"
        "ping_server env (of_nat i) (available_services b ! i) (b\<lparr>b_db := db1\<rparr>) = Inr b1"
        "update_timeout env (available_services b ! i) b1 = Inr b2"
        "available_services b2 = available_services b"
      by (auto simp: rbind_Inr_iff)
    have "heartbeat_loop env (Suc n) i b = heartbeat_loop env n (Suc i) b2"
      using True steps len Suc.prems by simp
    moreover have "broker_inv b2"
      by (rule update_timeout_inv [OF steps(3) ping_server_inv [OF steps(2)
            broker_inv_db_step [OF Suc.prems(1) db_step.check [OF steps(1)]]]])
    ultimately show ?thesis using Suc.IH [of b2 "Suc i"] Suc.prems(2,3) steps(4) by simp
  qed
qed simp

text \<open>
  The heartbeat phase of the main loop never fails with at most 256 offered services: no
  record is missing and no dealer, deadline or pong entry is out of range, and it keeps the
  invariant of the broker.
\<close>

theorem heartbeat_phase_total:
  assumes "broker_inv b" and "length (available_services b) \<le> 256"
  shows "\<exists>b'. heartbeat_loop env (length (timeouts b)) 0 b = Inr b' \<and> broker_inv b'"
proof -
  have "length (timeouts b) = length (available_services b)" using assms(1) by (simp add: broker_inv_def)
  with heartbeat_loop_total [OF assms(1), of 0 "length (timeouts b)" env] assms(2)
  show ?thesis by (auto intro: heartbeat_loop_inv [OF _ assms(1)])
qed

theorem heartbeat_phase_total_witness:
  "\<exists>b'. heartbeat_loop example_env (length (timeouts (example_broker []))) 0 (example_broker []) = Inr b' \<and> broker_inv b'"
  by (rule heartbeat_phase_total [OF example_broker_inv]) simp

text \<open>
  C25: When the heartbeat deadline of an offered service has passed, the broker first counts
  the losses, then sends one ping per copy still considered reliable on the dealer socket of
  that service, all with the new ping number, and sets the next deadline two seconds after the
  clock reading; the pending requests of the service are not touched.
\<close>

theorem heartbeat_pings_reliable_copies:
  assumes "broker_inv b" and "i < length (available_services b)" and "i < 256"
    and "time_cmp (b_now b) (timeouts b ! i) = 1"
    and "services_db (b_db b) (available_services b ! i) = Some r"
  shows "\<exists>b' r'. heartbeat_loop env 1 i b = Inr b' \<and> services_db (b_db b') (available_services b ! i) = Some r' \<and>
     num_copies_reliable r' = num_copies_reliable r - of_nat (num_dying r) \<and>
     seq_id_ping r' = seq_id_ping r + 1 \<and> request_records r' = request_records r \<and>
     sent b' = sent b @ concat (replicate (unat (num_copies_reliable r')) (ping_frames env i (seq_id_ping r'))) \<and>
     to_ns (timeouts b' ! i) = to_ns (clk env (ticks b)) + 2000000000"
proof -
  note r' = checked_record_inv_eq [OF assms(1,5)]
  have len: "length (timeouts b) = length (available_services b)" using assms(1) by (simp add: broker_inv_def)
  have "heartbeat_loop env 1 i b =
      rbind (check_pong (b_db b) (available_services b ! i)) (\<lambda>db'.
      rbind (ping_server env (of_nat i) (available_services b ! i) (b\<lparr>b_db := db'\<rparr>))
        (update_timeout env (available_services b ! i)))"
  proof -
    have "rbind m (heartbeat_loop env 0 (Suc i)) = m" for m by (cases m) simp_all
    then show ?thesis using assms(2,4) len by simp
  qed
  also note heartbeat_once [OF assms(1-3,5) r', of env]
  finally show ?thesis
    using assms(2) len by (auto simp: to_ns_time_add_ms)
qed

theorem heartbeat_pings_reliable_copies_witness:
  "\<exists>b' r'. heartbeat_loop example_env 1 0 ((example_broker [])\<lparr>b_now := \<lparr>tv_sec = 103, tv_nsec = 0\<rparr>\<rparr>) = Inr b' \<and>
     services_db (b_db b') 0 = Some r' \<and> seq_id_ping r' = 0 \<and>
     sent b' = concat (replicate 3 (ping_frames example_env 0 0))"
proof -
  let ?b = "(example_broker [])\<lparr>b_now := \<lparr>tv_sec = 103, tv_nsec = 0\<rparr>\<rparr>"
  have "broker_inv ?b" "(0 :: nat) < length (available_services ?b)" "(0 :: nat) < 256"
    "time_cmp (b_now ?b) (timeouts ?b ! 0) = 1" "services_db (b_db ?b) (available_services ?b ! 0) = Some example_record"
    using example_broker_inv
    by (simp_all add: time_cmp_def example_record_def) (simp add: example_broker_def)
  from heartbeat_pings_reliable_copies [OF this, of example_env] obtain b' r'
    where "heartbeat_loop example_env 1 0 ?b = Inr b'" "services_db (b_db b') 0 = Some r'"
      "num_copies_reliable r' = 3" "seq_id_ping r' = 0"
      "sent b' = concat (replicate (unat (num_copies_reliable r')) (ping_frames example_env 0 (seq_id_ping r')))"
    by (auto simp: example_record_def num_dying_def dying_def simp del: heartbeat_loop.simps)
  then show ?thesis by (intro exI [of _ b'] exI [of _ r']) simp
qed

end
