(* ===== verification/RSF_Progress.thy ===== *)
theory RSF_Progress
  imports RSF_Timeouts RSF_Routing
begin

text \<open>
  Progress of the broker: under which conditions no iteration of the main loop runs into a
  fault. A broker is \<open>serving\<close> when its services are complete and offered in the order of their
  codes and every waiting request is still undecided; messages are well formed when they are
  what clients and registered copies send. Both conditions together exclude the undefined
  behaviour, the exits and the endless loops of the handlers, and they are kept.
\<close>

section \<open>Serving brokers and well-formed messages\<close>

definition serving :: "broker \<Rightarrow> bool" where
  "serving b \<longleftrightarrow> broker_inv b \<and> 0 < unat (b_nmr b) \<and> length (available_services b) \<le> 256 \<and>
     (\<forall>i < length (available_services b). available_services b ! i = of_nat i) \<and>
     dom (services_db (b_db b)) = set (available_services b) \<and>
     (\<forall>s \<in> set (available_services b). in_session b s) \<and>
     (\<forall>s r. services_db (b_db b) s = Some r \<longrightarrow> unat (dealer_skt_index r) < length (dealer b))"

definition request_wf :: "broker \<Rightarrow> envelope \<Rightarrow> bool" where
  "request_wf b fs \<longleftrightarrow> (\<exists>c e s params. fs = (client_frame c, e, enc_request (request_for s params)) \<and>
     length params = PARAM_SIZE \<and> pending_of b s c = None)"

definition reply_wf :: "broker \<Rightarrow> envelope \<Rightarrow> bool" where
  "reply_wf b fs \<longleftrightarrow> (\<exists>c e rep. fs = (client_frame c, e, enc_reply rep) \<and>
     ntohl (sr_service rep) \<in> dom (services_db (b_db b)) \<and> (sr_heartbeat rep \<longrightarrow> unat (sr_id rep) < unat (b_nmr b)))"

definition reg_wf :: "broker \<Rightarrow> (frame \<times> bool) list \<Rightarrow> bool" where
  "reg_wf b fs \<longleftrightarrow> (\<exists>f s. fs = registration_frames f s \<and> s \<in> dom (services_db (b_db b)))"

definition messages_wf :: "broker \<Rightarrow> poll_result \<Rightarrow> bool" where
  "messages_wf b ev \<longleftrightarrow> (\<forall>fs. ev_reg ev = Some fs \<longrightarrow> reg_wf b fs) \<and> (\<forall>fs. ev_router ev = Some fs \<longrightarrow> request_wf b fs) \<and>
     (\<forall>fs. Some fs \<in> set (ev_dealer ev) \<longrightarrow> reply_wf b fs)"

section \<open>Sessions\<close>

text \<open>After a request of a client that is not waiting, the service is in session with an empty result list.\<close>

lemma get_request_opens_session:
  fixes c :: uint32
  assumes "in_session b s" "pending_of b s c = None" "0 < unat (b_nmr b)"
    and r: "services_db (b_db b) s = Some r"
    and b': "services_db (b_db b') s = Some (r\<lparr>seq_id_request := n, request_records := request_records r @ [q]\<rparr>)"
      "b_nmr b' = b_nmr b" "client_id q = c" "results q = []"
  shows "in_session b' s" "pending_of b' s = (pending_of b s)(c \<mapsto> [])"
proof -
  have q: "q\<lparr>client_id := c, results := []\<rparr> = q" using b'(3,4) by simp
  from assms(1) r have ok: "distinct (map client_id (request_records r))"
    "pending_of b s = lookup_request (request_records r)" "table_open (unat (b_nmr b)) (pending_of b s)"
    by (auto simp: in_session_def pending_of_def)
  have "lookup_request (request_records r @ [q]) = (lookup_request (request_records r))(c \<mapsto> [])"
    "distinct (map client_id (request_records r @ [q]))"
    using pending.lookup_open [OF ok(1), of c q] pending.ok_open [OF ok(1), of c q] assms(2) unfolding ok(2) q by simp_all
  then show p: "pending_of b' s = (pending_of b s)(c \<mapsto> [])" using b'(1) ok(2) by (simp add: pending_of_def)
  have "the_majority (unat (b_nmr b)) [] = None" by (simp add: the_majority_def)
  with ok(3) assms(3) have "table_open (unat (b_nmr b)) ((pending_of b s)(c \<mapsto> []))" by (simp add: table_open_def)
  with p b'(1,2) \<open>distinct (map client_id (request_records r @ [q]))\<close> show "in_session b' s" by (simp add: in_session_def)
qed

lemma in_session_cong:
  "b_nmr b' = b_nmr b \<Longrightarrow> map_option request_records (services_db (b_db b') s) = map_option request_records (services_db (b_db b) s) \<Longrightarrow>
   in_session b' s = in_session b s \<and> pending_of b' s = pending_of b s"
  by (auto simp: in_session_def pending_of_def split: option.splits)

lemma lookup_request_SomeD: "lookup_request qs c = Some xs \<Longrightarrow> \<exists>q \<in> set qs. client_id q = c \<and> results q = xs"
  by (induction qs) (auto simp: lookup_request_def split: if_splits)

lemma drop_expired_session:
  assumes "in_session b s" "services_db (b_db b') s = map_option (drop_expired now) (services_db (b_db b) s)" "b_nmr b' = b_nmr b"
  shows "in_session b' s"
proof -
  from assms(1) obtain r where r: "services_db (b_db b) s = Some r" "distinct (map client_id (request_records r))"
    "table_open (unat (b_nmr b)) (lookup_request (request_records r))" by (rule in_sessionE)
  let ?qs = "filter (\<lambda>q. \<not> expired now q) (request_records r)"
  have r': "services_db (b_db b') s = Some (r\<lparr>request_records := ?qs\<rparr>)" using assms(2) r(1) by (simp add: drop_expired_def)
  have dist: "distinct (map client_id ?qs)" using r(2) by (rule distinct_map_filter)
  have "lookup_request (request_records r) c = Some xs" if "lookup_request ?qs c = Some xs" for c xs
  proof -
    from lookup_request_SomeD [OF that] obtain q where "q \<in> set ?qs" "client_id q = c" "results q = xs" by blast
    with lookup_request_mem [OF r(2), of q] show ?thesis by auto
  qed
  with r(3) have "table_open (unat (b_nmr b)) (lookup_request ?qs)" by (auto simp: table_open_def)
  with r' dist assms(3) show ?thesis by (simp add: in_session_def pending_of_def)
qed

section \<open>What keeps a broker serving\<close>

text \<open>
  \<open>same_requests b b'\<close>: the handler has left the offered services, the dealer sockets and the
  pending requests alone.
\<close>

definition same_requests :: "broker \<Rightarrow> broker \<Rightarrow> bool" where
  "same_requests b b' \<longleftrightarrow> available_services b' = available_services b \<and> dealer b' = dealer b \<and> b_nmr b' = b_nmr b \<and>
     (\<forall>s. map_option (\<lambda>r. (request_records r, dealer_skt_index r)) (services_db (b_db b') s) =
          map_option (\<lambda>r. (request_records r, dealer_skt_index r)) (services_db (b_db b) s))"

lemma same_requests_refl [intro, simp]: "same_requests b b"
  by (simp add: same_requests_def)

lemma same_requests_trans [trans]: "same_requests a b \<Longrightarrow> same_requests b c \<Longrightarrow> same_requests a c"
  by (simp add: same_requests_def)

lemma same_requests_io [simp]:
  "same_requests b (b'\<lparr>sent := es\<rparr>) = same_requests b b'" "same_requests b (b'\<lparr>ticks := n\<rparr>) = same_requests b b'"
  "same_requests b (b'\<lparr>timeouts := ts\<rparr>) = same_requests b b'" "same_requests b (b'\<lparr>b_now := t\<rparr>) = same_requests b b'"
  by (simp_all add: same_requests_def)

lemma same_requestsD:
  assumes "same_requests b b'"
  shows "map_option request_records (services_db (b_db b') s) = map_option request_records (services_db (b_db b) s)"
    "map_option dealer_skt_index (services_db (b_db b') s) = map_option dealer_skt_index (services_db (b_db b) s)"
    "services_db (b_db b') s = None \<longleftrightarrow> services_db (b_db b) s = None"
proof -
  have "map_option (\<lambda>r. (request_records r, dealer_skt_index r)) (services_db (b_db b') s) =
      map_option (\<lambda>r. (request_records r, dealer_skt_index r)) (services_db (b_db b) s)"
    using assms by (simp add: same_requests_def)
  then show "map_option request_records (services_db (b_db b') s) = map_option request_records (services_db (b_db b) s)"
    "map_option dealer_skt_index (services_db (b_db b') s) = map_option dealer_skt_index (services_db (b_db b) s)"
    "services_db (b_db b') s = None \<longleftrightarrow> services_db (b_db b) s = None"
    by (cases "services_db (b_db b') s"; cases "services_db (b_db b) s"; simp)+
qed

lemma same_requests_dom: "same_requests b b' \<Longrightarrow> dom (services_db (b_db b')) = dom (services_db (b_db b))"
  by (simp add: dom_def same_requestsD(3))

lemma same_requests_pending: "same_requests b b' \<Longrightarrow> in_session b' s = in_session b s \<and> pending_of b' s = pending_of b s"
  by (rule in_session_cong) (auto simp: same_requestsD(1), simp add: same_requests_def)

lemma serving_same:
  assumes "serving b" "same_requests b b'" "broker_inv b'"
  shows "serving b'"
proof -
  have "unat (dealer_skt_index r) < length (dealer b')" if "services_db (b_db b') s = Some r" for s r
  proof -
    from same_requestsD(2) [OF assms(2), of s] that obtain r0 where "services_db (b_db b) s = Some r0"
      "dealer_skt_index r = dealer_skt_index r0"
      by (cases "services_db (b_db b) s") auto
    with assms(1,2) show ?thesis by (auto simp: serving_def same_requests_def)
  qed
  moreover have "in_session b' s" if "in_session b s" for s using same_requests_pending [OF assms(2)] that by blast
  moreover have "available_services b' = available_services b" "b_nmr b' = b_nmr b" using assms(2) by (simp_all add: same_requests_def)
  ultimately show ?thesis using assms(1,3) same_requests_dom [OF assms(2)] by (simp add: serving_def)
qed

lemma messages_wf_same:
  assumes "same_requests b b'"
  shows "request_wf b' fs = request_wf b fs" "reply_wf b' fs = reply_wf b fs"
  using same_requests_pending [OF assms] same_requests_dom [OF assms] assms
  by (auto simp: request_wf_def reply_wf_def same_requests_def)

section \<open>Every handler succeeds\<close>

lemma serving_registration:
  assumes "serving b" "reg_wf b fs"
  shows "\<exists>b'. get_registration env fs b = Inr b' \<and> serving b' \<and> same_requests b b'"
proof -
  from assms(2) obtain f s r where fs: "fs = registration_frames f s" and r: "services_db (b_db b) s = Some r"
    by (auto simp: reg_wf_def)
  then have avail: "s \<in> set (available_services b)" using assms(1) by (auto simp: serving_def)
  let ?db = "if num_copies_registered r < db_nmr (b_db b) then put_record (b_db b) s (one_more r) else b_db b"
  let ?p = "if num_copies_registered r < db_nmr (b_db b) then dealer_socket r else 0"
  have "get_registration env fs b = Inr (b\<lparr>sent := sent b @ registration_reply f ?p, b_db := ?db\<rparr>)"
    using r avail unfolding fs
    by (simp add: get_registration_def registration_frames_def registration_reply_def push_registration_def
        registration_for_def one_more_def Let_def)
  moreover have "same_requests b (b\<lparr>sent := sent b @ registration_reply f ?p, b_db := ?db\<rparr>)"
    using r by (auto simp: same_requests_def one_more_def)
  ultimately show ?thesis using assms(1) serving_same get_registration_inv by (metis serving_def)
qed

lemma serving_request:
  assumes "serving b" "request_wf b fs" "\<forall>f. routable env f"
  shows "\<exists>b'. get_request env fs b = Inr b' \<and> serving b' \<and> dom (services_db (b_db b')) = dom (services_db (b_db b)) \<and>
     b_nmr b' = b_nmr b"
proof -
  from assms(2) obtain c e s params where fs: "fs = (client_frame c, e, enc_request (request_for s params))"
    "length params = PARAM_SIZE" "pending_of b s c = None" by (auto simp: request_wf_def)
  show ?thesis
  proof (cases "services_db (b_db b) s")
    case None
    have service: "ntohl (rq_service (request_for s params)) = s" by (simp add: request_for_def)
    have "\<exists>es. get_request env fs b = Inr (b\<lparr>sent := es\<rparr>)"
      using None assms(3) fs by (auto simp: get_request_def find_registration_def service router_send_eq)
    then obtain es where eq: "get_request env fs b = Inr (b\<lparr>sent := es\<rparr>)" by blast
    moreover have "serving (b\<lparr>sent := es\<rparr>)"
      by (rule serving_same [OF assms(1)]) (use assms(1) in \<open>simp_all add: serving_def\<close>)
    ultimately show ?thesis by simp
  next
    case (Some r)
    with assms(1) have avail: "s \<in> set (available_services b)" "unat (dealer_skt_index r) < length (dealer b)"
      "length (timeouts b) = length (available_services b)" "in_session b s" "0 < unat (b_nmr b)"
      by (auto simp: serving_def broker_inv_def)
    let ?q = "(junk_request env)\<lparr>client_id := c, results := [], rr_timeout := time_add_ms (clk env (ticks b)) REQUEST_TIMEOUT\<rparr>"
    from get_request_eq [of "client_frame c" c params b s r env e] Some fs avail obtain b'
      where b': "get_request env fs b = Inr b'" "b_nmr b' = b_nmr b" "available_services b' = available_services b"
        "dealer b' = dealer b" "services_db (b_db b') = (services_db (b_db b))(s \<mapsto>
          r\<lparr>seq_id_request := seq_id_request r + 1, request_records := request_records r @ [?q]\<rparr>)" by simp
    have inv: "broker_inv b'" using b'(1) assms(1) by (auto simp: serving_def intro: get_request_inv)
    have "in_session b' t" if "t \<in> set (available_services b)" for t
    proof (cases "t = s")
      case True
      with get_request_opens_session(1) [OF avail(4) fs(3) avail(5) Some _ b'(2), of ?q "seq_id_request r + 1"] b'(5)
      show ?thesis by simp
    next
      case False
      with in_session_cong [OF b'(2), of t] b'(5) assms(1) that show ?thesis by (simp add: serving_def)
    qed
    moreover have dom: "dom (services_db (b_db b')) = dom (services_db (b_db b))" using b'(5) Some by auto
    moreover have "unat (dealer_skt_index r') < length (dealer b')" if "services_db (b_db b') t = Some r'" for t r'
      using that b'(4,5) assms(1) avail(2) by (auto simp: serving_def split: if_splits)
    ultimately have "serving b'" using assms(1) b' inv by (simp add: serving_def)
    with b' dom show ?thesis by blast
  qed
qed

lemma serving_response:
  assumes "serving b" "reply_wf b fs" "\<forall>f. routable env f"
  shows "\<exists>b'. get_response env fs b = Inr b' \<and> serving b' \<and> dom (services_db (b_db b')) = dom (services_db (b_db b)) \<and>
     b_nmr b' = b_nmr b"
proof -
  from assms(2) obtain c e rep where fs: "fs = (client_frame c, e, enc_reply rep)"
    and dom: "ntohl (sr_service rep) \<in> dom (services_db (b_db b))" and copy: "sr_heartbeat rep \<longrightarrow> unat (sr_id rep) < unat (b_nmr b)"
    by (auto simp: reply_wf_def)
  let ?s = "ntohl (sr_service rep)"
  from dom obtain r where r: "services_db (b_db b) ?s = Some r" by blast
  have inv: "broker_inv b" "db_nmr (b_db b) = b_nmr b" "db_inv (b_db b)" using assms(1) by (simp_all add: serving_def broker_inv_def)
  consider (heartbeat) "sr_heartbeat rep" | (notice) "\<not> sr_heartbeat rep" "sr_duplicated rep"
    | (vote_cast) "\<not> sr_heartbeat rep" "\<not> sr_duplicated rep" by blast
  then show ?thesis
  proof cases
    case heartbeat
    have "length (new_pong r) = unat (b_nmr b)" using inv r by (auto simp: db_inv_def record_inv_def)
    with heartbeat copy r have eq: "get_response env fs b =
        Inr (b\<lparr>b_db := put_record (b_db b) ?s (r\<lparr>new_pong := (new_pong r)[unat (sr_id rep) := True]\<rparr>)\<rparr>)"
      by (simp add: get_response_def fs register_pong_def)
    moreover have "same_requests b (b\<lparr>b_db := put_record (b_db b) ?s (r\<lparr>new_pong := (new_pong r)[unat (sr_id rep) := True]\<rparr>)\<rparr>)"
      using r by (auto simp: same_requests_def)
    ultimately show ?thesis
      using serving_same [OF assms(1)] get_response_inv [OF eq inv(1)] r by auto
  next
    case notice
    with assms(1) show ?thesis by (simp add: fs get_response_duplicated)
  next
    case vote_cast
    have "in_session b ?s" using assms(1) dom by (auto simp: serving_def)
    then obtain r1 where r1: "services_db (b_db b) ?s = Some r1" "distinct (map client_id (request_records r1))"
      "table_open (unat (b_nmr b)) (lookup_request (request_records r1))" by (rule in_sessionE)
    have sender: "load 4 1 (client_frame c) = Inr c" "routable env (client_frame c)" "sr_service rep = htonl ?s"
      using assms(3) by simp_all
    from get_response_vote [OF r1 sender(1,2) vote_cast sender(3), of e]
    obtain qs es where b': "get_response env fs b = Inr (b\<lparr>sent := es, b_db := put_record (b_db b) ?s (r1\<lparr>request_records := qs\<rparr>)\<rparr>)"
      and qs: "distinct (map client_id qs)"
        "lookup_request qs = fst (vote_step (unat (b_nmr b)) (lookup_request (request_records r1)) c (ntohl (sr_result rep)))"
      unfolding fs by blast
    let ?b = "b\<lparr>sent := es, b_db := put_record (b_db b) ?s (r1\<lparr>request_records := qs\<rparr>)\<rparr>"
    have "in_session ?b t" if "t \<in> set (available_services b)" for t
    proof (cases "t = ?s")
      case True
      with qs table_open_vote_step [OF r1(3)] show ?thesis by (simp add: in_session_def pending_of_def)
    next
      case False
      with in_session_cong [of ?b b t] assms(1) that show ?thesis by (simp add: serving_def)
    qed
    moreover have "broker_inv ?b" using b' inv(1) by (auto intro: get_response_inv)
    moreover have "dom (services_db (b_db ?b)) = dom (services_db (b_db b))" using r1(1) by auto
    ultimately have "serving ?b" using assms(1) r1(1) by (auto simp: serving_def split: if_splits)
    with b' r1(1) show ?thesis by auto
  qed
qed

lemma serving_dealer_loop:
  assumes "serving b" "\<forall>fs. Some fs \<in> set evs \<longrightarrow> reply_wf b fs" "\<forall>f. routable env f"
  shows "\<exists>b'. dealer_loop env evs b = Inr b' \<and> serving b'"
  using assms(1,2)
proof (induction evs arbitrary: b)
  case (Cons ev evs)
  show ?case
  proof (cases ev)
    case None
    with Cons show ?thesis by simp
  next
    case (Some fs)
    with Cons.prems(2) have "reply_wf b fs" by (metis list.set_intros(1))
    from serving_response [OF Cons.prems(1) this assms(3)] obtain b1
      where b1: "get_response env fs b = Inr b1" "serving b1" "dom (services_db (b_db b1)) = dom (services_db (b_db b))"
        "b_nmr b1 = b_nmr b" by blast
    then have "\<forall>fs. Some fs \<in> set evs \<longrightarrow> reply_wf b1 fs" using Cons.prems(2) by (simp add: reply_wf_def)
    with Cons.IH [OF b1(2)] b1(1) Some show ?thesis by simp
  qed
qed simp

lemma check_pong_loop_requests: "check_pong_loop n j r u = Inr (r', u') \<Longrightarrow> request_records r' = request_records r"
proof (induction n arbitrary: j r u)
  case (Suc n)
  then show ?case by (fastforce simp: rbind_Inr_iff split: if_splits)
qed simp

lemma checked_record_requests:
  assumes "checked_record nmr r = Inr r'"
  shows "request_records r' = request_records r \<and> dealer_skt_index r' = dealer_skt_index r"
  using assms checked_record_port [OF assms]
  by (auto simp: checked_record_def rbind_Inr_iff same_port_def dest: check_pong_loop_requests)

lemma heartbeat_same: "heartbeat_loop env n i b = Inr b' \<Longrightarrow> same_requests b b'"
proof (induction n arbitrary: i b)
  case (Suc n)
  show ?case
  proof (cases "time_cmp (b_now b) (timeouts b ! i) = 1")
    case True
    with Suc.prems(1) obtain s db' b1 b2
      where steps: "check_pong (b_db b) s = Inr db'" "ping_server env (of_nat i) s (b\<lparr>b_db := db'\<rparr>) = Inr b1"
        "update_timeout env s b1 = Inr b2" "heartbeat_loop env n (Suc i) b2 = Inr b'"
      by (auto simp: rbind_Inr_iff vec_get_Inr_iff)
    have "same_requests b (b\<lparr>b_db := db'\<rparr>)"
      using steps(1) by (elim check_pong_op.operE) (auto simp: same_requests_def dest: checked_record_requests)
    also have "same_requests (b\<lparr>b_db := db'\<rparr>) b1"
      using steps(2) by (auto simp: ping_server_def Let_def rbind_Inr_iff dest!: send_copies_frame)
    also have "same_requests b1 b2"
      using steps(3) by (auto simp: update_timeout_def clock_gettime_def rbind_Inr_iff vec_set_Inr_iff)
    also have "same_requests b2 b'" by (rule Suc.IH [OF steps(4)])
    finally show ?thesis .
  next
    case False
    with Suc show ?thesis by (auto simp: rbind_Inr_iff vec_get_Inr_iff)
  qed
qed simp

lemma serving_heartbeat:
  assumes "serving b"
  shows "\<exists>b'. heartbeat_loop env (length (timeouts b)) 0 b = Inr b' \<and> serving b'"
proof -
  have inv: "broker_inv b" "length (timeouts b) = length (available_services b)" "length (available_services b) \<le> 256"
    using assms by (simp_all add: serving_def broker_inv_def)
  from heartbeat_loop_total [OF inv(1), of 0 "length (timeouts b)" env] inv obtain b'
    where b': "heartbeat_loop env (length (timeouts b)) 0 b = Inr b'" by auto
  with serving_same [OF assms heartbeat_same [OF b'] heartbeat_loop_inv [OF b' inv(1)]] show ?thesis by blast
qed

lemma serving_check:
  assumes "serving b" "\<forall>f. routable env f"
  shows "\<exists>b'. check_pending_requests env b = Inr b' \<and> serving b'"
proof -
  let ?now = "clk env (ticks b)" and ?b = "b\<lparr>ticks := Suc (ticks b)\<rparr>"
  have "\<forall>k < length (available_services ?b). available_services ?b ! k = of_nat (0 + k)" "distinct (available_services ?b)"
    using assms(1) by (simp_all add: serving_def broker_inv_def)
  moreover have "\<forall>s \<in> set (available_services ?b). session_ready env ?now ?b s"
    using assms in_session_cong [of ?b b] by (simp add: session_ready_def serving_def)
  ultimately obtain b' where outer: "pending_outer env ?now 0 (available_services ?b) (junk_result env) ?b = Inr b'"
    and db: "\<forall>s. services_db (b_db b') s = (if s \<in> set (available_services ?b)
      then map_option (drop_expired ?now) (services_db (b_db ?b) s) else services_db (b_db ?b) s)"
    using pending_outer_eq by blast
  have check: "check_pending_requests env b = Inr b'" using outer by (simp add: check_pending_requests_def clock_gettime_def)
  note keeps = check_pending_requests_keeps [OF check]
  have inv: "broker_inv b" "broker_inv b'" using assms(1) check by (auto simp: serving_def intro: check_pending_requests_inv)
  have same: "available_services b' = available_services b" "dealer b' = dealer b" using keeps by (simp_all add: keeps_dealers_def)
  have "db_nmr (b_db b') = b_nmr b"
    using db_steps.steps_inv [of "b_db b" "b_db b'" "b_nmr b"] keeps inv(1) by (simp add: keeps_dealers_def broker_inv_def)
  then have nmr: "b_nmr b' = b_nmr b" using inv(2) by (simp add: broker_inv_def)
  have "in_session b' s" if "s \<in> set (available_services b)" for s
    by (rule drop_expired_session [of b]) (use assms(1) that db nmr in \<open>simp_all add: serving_def\<close>)
  moreover have "dom (services_db (b_db b')) = dom (services_db (b_db b))" using db by (auto simp: dom_def split: if_splits)
  moreover have "unat (dealer_skt_index r) < length (dealer b')" if "services_db (b_db b') s = Some r" for s r
    using that db assms(1) same by (auto simp: serving_def drop_expired_def split: if_splits)
  ultimately have "serving b'" using assms(1) inv(2) same nmr by (simp add: serving_def)
  with check show ?thesis by blast
qed

lemma serving_step:
  assumes "serving b" and "messages_wf b ev" and "\<forall>f. routable env f"
  shows "\<exists>b'. broker_step env ev b = Inr b' \<and> serving b'"
proof -
  let ?b1 = "b\<lparr>ticks := Suc (ticks b), b_now := clk env (ticks b)\<rparr>"
  define b2 where "b2 = (if ev_hc ev then pong_health_checker ?b1 else ?b1)"
  have inv: "broker_inv b" using assms(1) by (simp add: serving_def)
  have same2: "same_requests b b2" by (simp add: b2_def pong_health_checker_def)
  have "broker_inv b2" using inv by (simp add: b2_def pong_health_checker_def)
  with serving_same [OF assms(1) same2] have serving2: "serving b2" .
  obtain b3 where b3: "(case ev_reg ev of None \<Rightarrow> Inr b2 | Some fs \<Rightarrow> get_registration env fs b2) = Inr b3" "serving b3"
    "same_requests b b3"
  proof (cases "ev_reg ev")
    case None
    then show ?thesis using that [of b2] serving2 same2 by simp
  next
    case (Some fs)
    with assms(2) have "reg_wf b2 fs" using same_requests_dom [OF same2] by (auto simp: messages_wf_def reg_wf_def)
    from serving_registration [OF serving2 this, of env] obtain b3 where "get_registration env fs b2 = Inr b3" "serving b3"
      "same_requests b2 b3" by blast
    with Some that [of b3] same_requests_trans [OF same2] show ?thesis by simp
  qed
  obtain b4 where b4: "(case ev_router ev of None \<Rightarrow> Inr b3 | Some fs \<Rightarrow> get_request env fs b3) = Inr b4" "serving b4"
    "dom (services_db (b_db b4)) = dom (services_db (b_db b3))" "b_nmr b4 = b_nmr b3"
  proof (cases "ev_router ev")
    case None
    then show ?thesis using that [of b3] b3(2) by simp
  next
    case (Some fs)
    with assms(2) have "request_wf b3 fs" by (simp add: messages_wf_def messages_wf_same [OF b3(3)])
    from serving_request [OF b3(2) this assms(3)] Some that show ?thesis by auto
  qed
  have "\<forall>fs. Some fs \<in> set (ev_dealer ev) \<longrightarrow> reply_wf b4 fs"
  proof (intro allI impI)
    fix fs assume "Some fs \<in> set (ev_dealer ev)"
    with assms(2) have "reply_wf b3 fs" unfolding messages_wf_same [OF b3(3)] by (simp only: messages_wf_def)
    with b4(3,4) show "reply_wf b4 fs" by (simp add: reply_wf_def)
  qed
  from serving_dealer_loop [OF b4(2) this assms(3)] obtain b5 where b5: "dealer_loop env (ev_dealer ev) b4 = Inr b5" "serving b5"
    by blast
  from serving_heartbeat [OF b5(2), of env] obtain b6
    where b6: "heartbeat_loop env (length (timeouts b5)) 0 b5 = Inr b6" "serving b6" by blast
  from serving_check [OF b6(2) assms(3)] obtain b' where b': "check_pending_requests env b6 = Inr b'" "serving b'" by blast
  have "broker_step env ev b = Inr b'"
    unfolding broker_step_def clock_gettime_def Let_def prod.case b2_def [symmetric] b3(1) rbind_simps b4(1) b5(1) b6(1) b'(1) ..
  with b'(2) show ?thesis by blast
qed

section \<open>Properties\<close>

text \<open>
  C4: The broker makes progress. A serving broker is one whose registered services are all
  offered, at most 256 of them, each at the position equal to its code, with no complete vote
  pending, a dealer socket for each record and \<open>nmr\<close> positive. Given whole registrations of
  services it knows, requests of clients that do not wait for the same service yet, and replies
  of known services whose pongs carry a copy number below \<open>nmr\<close>, with every client reachable,
  it completes the iteration without any fault and is serving again.
\<close>

theorem serving_broker_progresses:
  assumes "serving b" and "messages_wf b ev" and "\<forall>f. routable env f"
  shows "\<exists>b'. broker_step env ev b = Inr b' \<and> serving b'"
  using assms by (rule serving_step)

lemma example_serving: "serving (example_broker [])"
proof -
  have "in_session (example_broker []) 0"
    by (simp add: in_session_def pending_of_def table_open_def lookup_request_def)
  moreover have "dom (services_db (b_db (example_broker []))) = {0}" by (auto simp: dom_def)
  ultimately show ?thesis
    using example_broker_inv [of "[]"] by (simp add: serving_def example_record_def)
qed

theorem serving_broker_progresses_witness:
  "\<exists>b'. broker_step example_env \<lparr>ev_hc = True, ev_reg = Some (registration_frames [1] 0),
       ev_router = Some (client_frame 9, [], enc_request (request_for 0 (replicate 100 53))),
       ev_dealer = [Some (client_frame 9, [], enc_reply (example_reply (htonl 0) 7)), None]\<rparr> (example_broker []) = Inr b' \<and>
     serving b'"
proof (rule serving_broker_progresses [OF example_serving])
  let ?b = "example_broker []"
  have "reg_wf ?b (registration_frames [1] 0)" unfolding reg_wf_def by (rule exI [of _ "[1]"], rule exI [of _ 0]) (simp add: dom_def)
  moreover have "request_wf ?b (client_frame 9, [], enc_request (request_for 0 (replicate 100 53)))"
    unfolding request_wf_def
    by (rule exI [of _ 9], rule exI [of _ "[]"], rule exI [of _ 0], rule exI [of _ "replicate 100 53"])
      (simp add: pending_of_def lookup_request_def)
  moreover have "reply_wf ?b (client_frame 9, [], enc_reply (example_reply (htonl 0) 7))"
    unfolding reply_wf_def
    by (rule exI [of _ 9], rule exI [of _ "[]"], rule exI [of _ "example_reply (htonl 0) 7"])
      (simp add: example_reply_def dom_def)
  ultimately show "messages_wf ?b \<lparr>ev_hc = True, ev_reg = Some (registration_frames [1] 0),
       ev_router = Some (client_frame 9, [], enc_request (request_for 0 (replicate 100 53))),
       ev_dealer = [Some (client_frame 9, [], enc_reply (example_reply (htonl 0) 7)), None]\<rparr>"
    by (auto simp: messages_wf_def)
qed simp

end
