(* ===== verification/RSF_Liveness.thy ===== *)
theory RSF_Liveness
  imports RSF_Typing RSF_Progress
begin

text \<open>
  Liveness of the broker: a client that waits is answered. Either the copies reply, or the
  deadline of the request passes and the check at the end of an iteration answers it. The
  proof uses the invariant scheme of the main loop twice: an answer stays in the log, and a request
  keeps waiting until its client is answered while the clock is read on and on.
\<close>

section \<open>Waiting and answered clients\<close>

definition answered_since :: "broker_socket zsend list \<Rightarrow> uint32 \<Rightarrow> broker \<Rightarrow> bool" where
  "answered_since log c b \<longleftrightarrow> (\<exists>xs ys f e rs. load 4 1 f = Inr c \<and>
     sent b = log @ xs @ send_frames Router [f, e, enc_response rs] @ ys)"

definition waits :: "service_type_t \<Rightarrow> uint32 \<Rightarrow> timespec \<Rightarrow> broker \<Rightarrow> bool" where
  "waits s c t b \<longleftrightarrow> s \<in> set (available_services b) \<and>
     (\<exists>r q. services_db (b_db b) s = Some r \<and> q \<in> set (request_records r) \<and> client_id q = c \<and> rr_timeout q = t)"

definition sends_since :: "broker_socket zsend list \<Rightarrow> broker \<Rightarrow> bool" where
  "sends_since log b \<longleftrightarrow> (\<exists>xs. sent b = log @ xs)"

lemma answered_since_append: "answered_since log c b \<Longrightarrow> sent b' = sent b @ es \<Longrightarrow> answered_since log c b'"
  unfolding answered_since_def by (elim exE conjE) (metis append_assoc)

lemma answered_since_answer:
  "sends_since log b \<Longrightarrow> load 4 1 f = Inr c \<Longrightarrow> sent b' = sent b @ send_frames Router [f, e, enc_response rs] \<Longrightarrow>
   answered_since log c b'"
  unfolding answered_since_def sends_since_def by (metis append_Nil2 append_assoc)

lemma sends_since_append: "sends_since log b \<Longrightarrow> sent b' = sent b @ es \<Longrightarrow> sends_since log b'"
  unfolding sends_since_def by (metis append_assoc)

lemma log_frame [simp]:
  "answered_since log c (b\<lparr>ticks := n\<rparr>) = answered_since log c b" "answered_since log c (b\<lparr>b_now := u\<rparr>) = answered_since log c b"
  "answered_since log c (b\<lparr>timeouts := ts\<rparr>) = answered_since log c b" "answered_since log c (b\<lparr>b_db := db\<rparr>) = answered_since log c b"
  "sends_since log (b\<lparr>ticks := n\<rparr>) = sends_since log b" "sends_since log (b\<lparr>b_now := u\<rparr>) = sends_since log b"
  "sends_since log (b\<lparr>timeouts := ts\<rparr>) = sends_since log b" "sends_since log (b\<lparr>b_db := db\<rparr>) = sends_since log b"
  "waits s c t (b\<lparr>ticks := n\<rparr>) = waits s c t b" "waits s c t (b\<lparr>b_now := u\<rparr>) = waits s c t b"
  "waits s c t (b\<lparr>timeouts := ts\<rparr>) = waits s c t b" "waits s c t (b\<lparr>sent := es\<rparr>) = waits s c t b"
  "waits s c t (b\<lparr>sent := es, b_db := db\<rparr>) = waits s c t (b\<lparr>b_db := db\<rparr>)"
  by (simp_all add: answered_since_def sends_since_def waits_def)

lemma log_grows:
  "answered_since log c b \<Longrightarrow> answered_since log c (b\<lparr>sent := sent b @ es\<rparr>)"
  "sends_since log b \<Longrightarrow> sends_since log (b\<lparr>sent := sent b @ es\<rparr>)"
  by (auto elim: answered_since_append sends_since_append)

lemma registration_effect:
  assumes "whole_registration fs" "get_registration env fs b = Inr b'"
  shows "\<exists>es. sent b' = sent b @ es" "set (available_services b) \<subseteq> set (available_services b')" "ticks b \<le> ticks b'"
    "services_db (b_db b) s = Some r \<Longrightarrow> \<exists>r'. services_db (b_db b') s = Some r' \<and> request_records r' = request_records r"
proof -
  from assms(1,2) obtain gs d rm t db' port' ready ret b2
    where push: "push_registration (b_db b) (rm\<lparr>rg_service := t\<rparr>) (available_dealer_port b) = Inr (db', port', ready, ret)"
      and b2: "if ready \<and> t \<notin> set (available_services b)
        then make_available env t ret (b\<lparr>b_db := db', available_dealer_port := port'\<rparr>) = Inr b2
        else b2 = b\<lparr>b_db := db', available_dealer_port := port'\<rparr>"
      and b': "b' = b2\<lparr>sent := sent b @ send_frames Reg (gs @ [le_bytes 2 (htons ret)])\<rparr>"
    by (rule registration_message)
  show "\<exists>es. sent b' = sent b @ es" by (simp add: b')
  show "set (available_services b) \<subseteq> set (available_services b')" "ticks b \<le> ticks b'"
    using b2 by (auto simp: b' make_available_def add_dealer_def clock_gettime_def split: if_splits)
  have db: "b_db b' = db'"
    using b2 by (auto simp: b' make_available_def add_dealer_def clock_gettime_def split: if_splits)
  show "\<exists>r'. services_db (b_db b') s = Some r' \<and> request_records r' = request_records r"
    if "services_db (b_db b) s = Some r"
    using push that unfolding db
    by (auto simp: push_registration_def Let_def rbind_Inr_iff split: option.splits if_splits)
qed

lemma push_loop_keys:
  "map (\<lambda>q. (client_id q, rr_timeout q)) (fst (push_loop c v qs n)) = map (\<lambda>q. (client_id q, rr_timeout q)) qs"
proof (induction qs arbitrary: n)
  case (Cons q qs)
  obtain qs1 n1 qs2 n2 where "push_loop c v qs (int (length (results q)) + 1) = (qs1, n1)" "push_loop c v qs n = (qs2, n2)"
    by (metis surj_pair)
  with Cons.IH [of "int (length (results q)) + 1"] Cons.IH [of n] show ?case by (simp add: Let_def add.commute)
qed simp

lemma erase_skip_other: "q \<in> set qs \<Longrightarrow> client_id q \<noteq> c \<Longrightarrow> q \<in> set (erase_skip c qs)"
  by (induction c qs rule: erase_skip.induct) auto

lemma check_pong_requests:
  assumes "check_pong db s = Inr db'" "services_db db t = Some r"
  shows "\<exists>r'. services_db db' t = Some r' \<and> request_records r' = request_records r"
  using assms by (auto elim!: check_pong_op.operE dest!: checked_record_requests)

lemma register_pong_requests:
  assumes "register_pong db j s = Inr db'" "services_db db t = Some r"
  shows "\<exists>r'. services_db db' t = Some r' \<and> request_records r' = request_records r"
  using assms by (auto elim!: register_pong_op.operE simp: rbind_Inr_iff)

section \<open>Two invariants\<close>

interpretation told: broker_invariant env "answered_since log c" "\<lambda>q. True" "\<lambda>fs. True" "\<lambda>fs. True" whole_registration
  for env log c
proof (unfold_locales, goal_cases)
  case (5 b fs b')
  then show ?case by (metis answered_since_append registration_effect(1))
qed (auto intro: log_grows simp del: send_frames.simps)

lemma waits_step:
  assumes "waits s c t b" "set (available_services b) \<subseteq> set (available_services b')"
    and "\<And>r q. services_db (b_db b) s = Some r \<Longrightarrow> q \<in> set (request_records r) \<Longrightarrow> client_id q = c \<Longrightarrow>
      \<exists>r' q'. services_db (b_db b') s = Some r' \<and> q' \<in> set (request_records r') \<and> client_id q' = c \<and> rr_timeout q' = rr_timeout q"
  shows "waits s c t b'"
proof -
  from assms(1) obtain r q where r: "services_db (b_db b) s = Some r" "q \<in> set (request_records r)" "client_id q = c"
    "rr_timeout q = t" "s \<in> set (available_services b)" by (auto simp: waits_def)
  from assms(3) [OF r(1-3)] r(4,5) assms(2) show ?thesis by (auto simp: waits_def)
qed

lemma waits_requests:
  assumes "waits s c t b"
    and "\<And>r. services_db (b_db b) s = Some r \<Longrightarrow> \<exists>r'. services_db db' s = Some r' \<and> request_records r' = request_records r"
  shows "waits s c t (b\<lparr>b_db := db'\<rparr>)"
  by (rule waits_step [OF assms(1)]) (use assms(2) in \<open>simp, fastforce\<close>)

lemma waits_result:
  assumes "waits s c t b" "push_result (b_db b) rep d = Inr (db', num)"
  shows "waits s c t (b\<lparr>b_db := db'\<rparr>)"
proof -
  from assms(1) obtain r q where r: "services_db (b_db b) s = Some r" "q \<in> set (request_records r)" "client_id q = c"
    "rr_timeout q = t" "s \<in> set (available_services b)" by (auto simp: waits_def)
  show ?thesis
  proof (cases "s = sr_service rep")
    case False
    with assms(2) r show ?thesis by (auto simp: waits_def push_result_def split: option.splits prod.splits)
  next
    case True
    let ?qs = "fst (push_loop d (sr_result rep) (request_records r) (- 1))"
    have "(c, t) \<in> set (map (\<lambda>q. (client_id q, rr_timeout q)) ?qs)"
      unfolding push_loop_keys using r(2-4) by auto
    then obtain q' where "q' \<in> set ?qs" "client_id q' = c" "rr_timeout q' = t" by auto
    moreover have "services_db db' s = Some (r\<lparr>request_records := ?qs\<rparr>)"
      using assms(2) r(1) True by (auto simp: push_result_def split: prod.splits)
    ultimately show ?thesis using r(5) by (auto simp: waits_def)
  qed
qed

lemma waits_forward:
  assumes "waits s c t b" "services_db (b_db b) u = Some r"
  shows "waits s c t (b\<lparr>b_db := put_record (b_db b) u (r\<lparr>seq_id_request := n, request_records := request_records r @ [q]\<rparr>)\<rparr>)"
  by (rule waits_step [OF assms(1)]) (use assms(2) in \<open>auto split: if_splits\<close>)

lemma waits_erase:
  assumes "waits s c t b" "services_db (b_db b) u = Some r" "d \<noteq> c"
  shows "waits s c t (b\<lparr>b_db := put_record (b_db b) u (r\<lparr>request_records := erase_loop d 0 (request_records r)\<rparr>)\<rparr>)"
proof (rule waits_step [OF assms(1)])
  fix r' q assume "services_db (b_db b) s = Some r'" "q \<in> set (request_records r')" "client_id q = c"
  with assms(2,3) show "\<exists>r' q'. services_db (b_db (b\<lparr>b_db := put_record (b_db b) u
      (r\<lparr>request_records := erase_loop d 0 (request_records r)\<rparr>)\<rparr>)) s = Some r' \<and> q' \<in> set (request_records r') \<and>
      client_id q' = c \<and> rr_timeout q' = rr_timeout q"
    by (cases "s = u") (auto simp: erase_loop_eq intro!: exI [of _ q] erase_skip_other)
qed simp

definition unserved :: "broker_socket zsend list \<Rightarrow> service_type_t \<Rightarrow> uint32 \<Rightarrow> timespec \<Rightarrow> nat \<Rightarrow> broker \<Rightarrow> bool" where
  "unserved log s c t k b \<longleftrightarrow> k \<le> ticks b \<and> sends_since log b \<and> (answered_since log c b \<or> waits s c t b)"

interpretation waiting: broker_invariant env "unserved log s c t k"
  "\<lambda>q. True" "\<lambda>fs. True" "\<lambda>fs. True" whole_registration for env log s c t k
  unfolding unserved_def
proof (unfold_locales, goal_cases)
  case (5 b fs b')
  have "waits s c t b'" if "waits s c t b"
    by (rule waits_step [OF that registration_effect(2) [OF 5(2,3)]]) (use registration_effect(4) [OF 5(2,3)] in fastforce)
  moreover obtain es where "sent b' = sent b @ es" using registration_effect(1) [OF 5(2,3)] by blast
  ultimately show ?case using 5(1) registration_effect(3) [OF 5(2,3)] answered_since_append sends_since_append
    by (meson order_trans)
next
  case (7 b f e d d' rq s' r n i q t')
  from 7(1) 7(6) show ?case
    by (auto intro: log_grows waits_forward simp del: send_frames.simps)
next
  case (9 b j s' db')
  from 9(1) register_pong_requests [OF 9(2)] show ?case by (auto intro: waits_requests)
next
  case (10 b s' db')
  from 10(1) check_pong_requests [OF 10(2)] show ?case by (auto intro: waits_requests)
next
  case (13 b f e d d' rep db' num)
  from 13(1) waits_result [OF _ 13(7)] show ?case by auto
next
  case (12 b f d' e d s' r st w)
  show ?case
  proof (cases "d' = c")
    case True
    with 12 show ?thesis by (auto intro: log_grows answered_since_answer simp del: send_frames.simps)
  next
    case False
    with 12(1,4) show ?thesis by (auto intro: log_grows waits_erase simp del: send_frames.simps)
  qed
qed (auto intro: log_grows simp del: send_frames.simps)

section \<open>The deadline answers\<close>

lemma answer_client_sent:
  assumes "answer_client env f e st w s c b = Inr b'"
  shows "sent b' = sent b @ send_frames Router [f, e, enc_response \<lparr>rs_status = htonl (status_code st), rs_result = htonl w\<rparr>]"
  using assms by (auto simp: answer_client_def router_send_def rbind_Inr_iff split: if_splits)

lemma pending_inner_answers:
  "pending_inner env now i qs res b = Inr (res', b') \<Longrightarrow> q \<in> set qs \<Longrightarrow> client_id q = c \<Longrightarrow> expired now q \<Longrightarrow>
   sends_since log b \<Longrightarrow> answered_since log c b'"
proof (induction qs arbitrary: res b)
  case (Cons p qs)
  show ?case
  proof (cases "expired now p")
    case False
    with Cons show ?thesis by (auto simp: expired_def)
  next
    case True
    with Cons.prems(1) obtain st w b1
      where ans: "answer_client env (client_frame (client_id p)) [] st w (of_nat i) (client_id p) b = Inr b1"
        and rest: "pending_inner env now i qs w b1 = Inr (res', b')"
      by (auto simp: expired_def rbind_Inr_iff client_frame_def)
    note grown = answer_client_sent [OF ans]
    show ?thesis
    proof (cases "client_id p = c")
      case True
      with answered_since_answer [OF Cons.prems(5) _ grown, of c] have "answered_since log c b1" by simp
      with rest show ?thesis by (auto elim: told.pending_inner_P)
    next
      case False
      with Cons.prems rest show ?thesis
        by (intro Cons.IH [OF rest]) (auto intro: sends_since_append [OF _ grown])
    qed
  qed
qed simp

lemma pending_outer_answers:
  "pending_outer env now i ss res b = Inr b' \<Longrightarrow> s \<in> set ss \<Longrightarrow> time_cmp now t = 1 \<Longrightarrow>
   unserved log s c t k b \<Longrightarrow> answered_since log c b'"
proof (induction ss arbitrary: i res b)
  case (Cons u ss)
  from Cons.prems(1) obtain qs res1 b1 where steps: "get_pending_requests (b_db b) u = Inr qs"
    "pending_inner env now i qs res b = Inr (res1, b1)" "pending_outer env now (Suc i) ss res1 b1 = Inr b'"
    by (auto simp: rbind_Inr_iff)
  consider (told) "answered_since log c b" | (due) "waits s c t b" "u = s" | (later) "u \<noteq> s"
    using Cons.prems(4) by (auto simp: unserved_def)
  then show ?case
  proof cases
    case told
    then have "answered_since log c b1" using steps(2) by (auto elim: told.pending_inner_P)
    with steps(3) show ?thesis by (auto elim: told.pending_outer_P)
  next
    case due
    then obtain r q where q: "services_db (b_db b) s = Some r" "q \<in> set (request_records r)" "client_id q = c" "rr_timeout q = t"
      by (auto simp: waits_def)
    with steps(1) due(2) have "q \<in> set qs" by (auto simp: get_pending_requests_def)
    with steps(2) q Cons.prems(3,4) have "answered_since log c b1"
      by (auto simp: expired_def unserved_def elim: pending_inner_answers)
    with steps(3) show ?thesis by (auto elim: told.pending_outer_P)
  next
    case later
    have "unserved log s c t k b1" using steps(2) Cons.prems(4) by (auto elim: waiting.pending_inner_P)
    with Cons later steps(3) show ?thesis by auto
  qed
qed simp

lemma check_answers:
  assumes "check_pending_requests env b = Inr b'" "time_cmp (clk env (ticks b)) t = 1"
    and "unserved log s c t k b"
  shows "answered_since log c b'"
proof -
  have outer: "pending_outer env (clk env (ticks b)) 0 (available_services b) (junk_result env) (b\<lparr>ticks := Suc (ticks b)\<rparr>) = Inr b'"
    using assms(1) by (simp add: check_pending_requests_def clock_gettime_def)
  show ?thesis
  proof (cases "waits s c t b")
    case True
    then have "s \<in> set (available_services b)" by (simp add: waits_def)
    moreover have "unserved log s c t k (b\<lparr>ticks := Suc (ticks b)\<rparr>)" using assms(3) by (simp add: unserved_def)
    ultimately show ?thesis using outer assms(2) by (auto intro: pending_outer_answers)
  next
    case False
    with assms(3) have "answered_since log c (b\<lparr>ticks := Suc (ticks b)\<rparr>)" by (simp add: unserved_def)
    with outer show ?thesis by (rule told.pending_outer_P)
  qed
qed

section \<open>Properties\<close>

lemma whole_events: "(\<forall>fs. ev_reg ev = Some fs \<longrightarrow> whole_registration fs) \<Longrightarrow>
    events_ok (\<lambda>fs. True) (\<lambda>fs. True) whole_registration ev"
  by (simp add: events_ok_def)

text \<open>
  C3: No client waits for ever: in every infinite run of the broker, whatever arrives in it, on
  a clock that does not go backwards and passes every bound, a client with a pending request
  for an offered service is sent a response that carries its identity.
\<close>

theorem waiting_client_answered:
  fixes run :: "nat \<Rightarrow> broker" and c :: uint32
  assumes "\<forall>n. broker_step env (ev n) (run n) = Inr (run (Suc n))"
    and "\<forall>n fs. ev_reg (ev n) = Some fs \<longrightarrow> whole_registration fs"
    and "\<forall>i j. i \<le> j \<longrightarrow> tv_sec (clk env i) \<le> tv_sec (clk env j)" and "\<forall>m. \<exists>k. m < tv_sec (clk env k)"
    and "s \<in> set (available_services (run 0))" and "services_db (b_db (run 0)) s = Some r"
    and "q \<in> set (request_records r)" and "client_id q = c"
  shows "\<exists>n xs ys f e rs. load 4 1 f = Inr c \<and>
     sent (run n) = sent (run 0) @ xs @ send_frames Router [f, e, enc_response rs] @ ys"
proof -
  let ?log = "sent (run 0)" and ?t = "rr_timeout q"
  have events: "events_ok (\<lambda>fs. True) (\<lambda>fs. True) whole_registration (ev n)" for n
    by (rule whole_events) (use assms(2) in blast)
  have step: "broker_step env (ev n) (run n) = Inr (run (Suc n))" for n using assms(1) by blast
  have unserved: "unserved ?log s c ?t n (run n)" for n
  proof (induction n)
    case 0
    show ?case using assms(5-8) by (auto simp: unserved_def sends_since_def waits_def)
  next
    case (Suc n)
    from waiting.broker_step_before_check [OF step events Suc] obtain b
      where b: "unserved ?log s c ?t n b" "check_pending_requests env b = Inr (run (Suc n))" .
    then have "unserved ?log s c ?t (Suc n) (b\<lparr>ticks := Suc (ticks b)\<rparr>)" by (simp add: unserved_def)
    moreover have "pending_outer env (clk env (ticks b)) 0 (available_services b) (junk_result env)
        (b\<lparr>ticks := Suc (ticks b)\<rparr>) = Inr (run (Suc n))"
      using b(2) by (simp add: check_pending_requests_def clock_gettime_def)
    ultimately show ?case by (auto elim: waiting.pending_outer_P)
  qed
  obtain k where k: "tv_sec ?t < tv_sec (clk env k)" using assms(4) by blast
  from waiting.broker_step_before_check [OF step events unserved, of k] obtain b
    where b: "unserved ?log s c ?t k b" "check_pending_requests env b = Inr (run (Suc k))" .
  from b(1) have "tv_sec (clk env k) \<le> tv_sec (clk env (ticks b))" using assms(3) by (simp add: unserved_def)
  with k have "time_cmp (clk env (ticks b)) ?t = 1" by (simp add: time_cmp_def)
  from check_answers [OF b(2) this b(1)] show ?thesis unfolding answered_since_def by blast
qed

text \<open>A run of the example broker on which only time passes.\<close>

abbreviation idle_event :: poll_result where
  "idle_event \<equiv> \<lparr>ev_hc = False, ev_reg = None, ev_router = None, ev_dealer = []\<rparr>"

fun idle_run :: "broker \<Rightarrow> nat \<Rightarrow> broker" where
  "idle_run b 0 = b"
| "idle_run b (Suc n) = (case broker_step example_env idle_event (idle_run b n) of Inr b' \<Rightarrow> b' | Inl _ \<Rightarrow> idle_run b n)"

lemma idle_run_steps:
  assumes "serving b"
  shows "broker_step example_env idle_event (idle_run b n) = Inr (idle_run b (Suc n))"
proof -
  have step: "\<exists>b'. broker_step example_env idle_event a = Inr b' \<and> serving b'" if "serving a" for a
  proof -
    have "messages_wf a idle_event" by (simp add: messages_wf_def)
    from serving_step [OF that this, of example_env] show ?thesis by simp
  qed
  have "serving (idle_run b n)"
  proof (induction n)
    case (Suc n)
    from step [OF this] show ?case by auto
  qed (use assms in simp)
  from step [OF this] show ?thesis by auto
qed

theorem waiting_client_answered_witness:
  "\<exists>n xs ys f e rs. load 4 1 f = Inr (5 :: uint32) \<and>
     sent (idle_run (example_broker [example_request 5 []]) n) = xs @ send_frames Router [f, e, enc_response rs] @ ys"
proof -
  let ?b = "example_broker [example_request 5 []]"
  let ?r = "example_record\<lparr>request_records := [example_request 5 []]\<rparr>"
  have "in_session ?b 0"
    by (auto simp: in_session_def pending_of_def table_open_def lookup_request_def example_request_def the_majority_def
        split: if_splits)
  moreover have "dom (services_db (b_db ?b)) = {0}" by (auto simp: dom_def)
  ultimately have serving: "serving ?b"
    using example_broker_inv [of "[example_request 5 []]"] by (simp add: serving_def example_record_def)
  have clock: "\<forall>i j. i \<le> j \<longrightarrow> tv_sec (clk example_env i) \<le> tv_sec (clk example_env j)" by simp
  have unbounded: "\<forall>m. \<exists>k. m < tv_sec (clk example_env k)"
  proof
    fix m :: int
    show "\<exists>k. m < tv_sec (clk example_env k)" by (rule exI [of _ "nat m"]) simp
  qed
  from waiting_client_answered [where run = "idle_run ?b" and ev = "\<lambda>_. idle_event", OF _ _ clock unbounded,
      of 0 ?r "example_request 5 []" 5] idle_run_steps [OF serving]
  show ?thesis by (simp add: example_request_def)
qed

end
