(* ===== verification/RSF_Server.thy ===== *)
theory RSF_Server
  imports RSF_Api RSF_Time
begin

text \<open>
  A server copy (\<^verbatim>\<open>include/server_class.hpp\<close>, \<^verbatim>\<open>src/server/server_class.cpp\<close>): its state
  with the local variables of its main loop, one definition per member function, one iteration
  of the loop, and the detached thread that computes a request. The pointer \<open>reply\<close> is not
  initialised by the constructor and deleted at every registration; sockets are numbered so
  that a thread that holds a deleted one is recognised. The environment \<open>server_env\<close> holds
  the clock and the contents of uninitialised memory. Log output is left out.
\<close>

section \<open>State\<close>

datatype server_socket = HcPong | Reply nat

datatype socket_ptr = Indeterminate | Socket nat

record service_thread_t =
  st_parameters :: string
  st_service :: service_body
  st_service_type :: service_type_t
  st_id :: uint8
  st_skt :: nat

record server_env =
  s_clk :: "nat \<Rightarrow> timespec"
  junk_ptr_null :: bool
  junk_reply :: server_reply_t
  junk_par :: int32

record server =
  srv_id :: uint8
  service_type :: service_type_t
  srv_service :: service_body
  ping_id :: uint32
  request_id :: uint32
  broker_address :: string
  broker_port :: int
  reply_ptr :: socket_ptr
  next_socket :: nat
  hc_pong :: socket_conf
  srv_registrator :: registrator
  srv_reg_io :: reg_io
  srv_items :: "server_socket list"
  srv_val :: "byte list"
  received_id :: uint32
  ping_loss :: int
  time_t :: timespec
  reg_ok :: bool
  threads :: "service_thread_t list"
  srv_sent :: "server_socket zsend list"
  srv_ticks :: nat

record server_poll =
  ev_request :: "frame option"
  ev_ping :: bool
  ev_reg_reply :: "frame option"

section \<open>Operations\<close>

definition pong_port :: "uint8 \<Rightarrow> uint8 \<Rightarrow> uint16" where
  "pong_port copy svc = of_nat (SERVER_PONG_PORT + unat copy + unat svc * MAX_NMR)"

text \<open>
  What \<open>step\<close> does before its loop: the health checker's socket joins the poll set, no ping is
  lost and the server is not registered; the other local variables hold what the stack held.
\<close>

definition start_step :: "byte list \<Rightarrow> timespec \<Rightarrow> uint32 \<Rightarrow> server \<Rightarrow> server" where
  "start_step junk_val junk_time junk_id s =
     s\<lparr>srv_items := srv_items s @ [HcPong], srv_val := junk_val, received_id := junk_id, ping_loss := 0,
       time_t := junk_time, reg_ok := False\<rparr>"

declare start_step_def [simp]

text \<open>The constructor, followed by the call of \<open>step\<close>, which every program makes at once.\<close>

definition new_server :: "uint8 \<Rightarrow> uint8 \<Rightarrow> string \<Rightarrow> uint16 \<Rightarrow> byte list \<Rightarrow> timespec \<Rightarrow> uint32 \<Rightarrow> server res" where
  "new_server copy svc address port junk_val junk_time junk_id =
     rbind (get_service_body (ucast svc)) (\<lambda>body.
     rbind (new_registrator address (ucast svc) port) (\<lambda>rgt.
     rbind (add_socket ''*'' (pong_port copy svc) ZMQ_REP Bind) (\<lambda>hc.
       Inr (start_step junk_val junk_time junk_id
           \<lparr>srv_id = copy, service_type = ucast svc, srv_service = body, ping_id = 0, request_id = 0,
            broker_address = address, broker_port = 0, reply_ptr = Indeterminate, next_socket = 0,
            hc_pong = hc, srv_registrator = rgt, srv_reg_io = \<lparr>send_reg = False, reg_sent = []\<rparr>,
            srv_items = [], srv_val = junk_val, received_id = junk_id, ping_loss = 0,
            time_t = junk_time, reg_ok = False, threads = [], srv_sent = [], srv_ticks = 0\<rparr>))))"

definition srv_clock :: "server_env \<Rightarrow> server \<Rightarrow> timespec \<times> server" where
  "srv_clock env s = (s_clk env (srv_ticks s), s\<lparr>srv_ticks := Suc (srv_ticks s)\<rparr>)"

definition postpone :: "server_env \<Rightarrow> server \<Rightarrow> server" where
  "postpone env s =
     (let (t, s1) = srv_clock env s in s1\<lparr>time_t := time_add_ms t (HEARTBEAT_INTERVAL + WCDPING)\<rparr>)"

definition reply_send :: "frame \<Rightarrow> server \<Rightarrow> server res" where
  "reply_send f s =
     (case reply_ptr s of
        Indeterminate \<Rightarrow> Inl Undefined_Behaviour
      | Socket k \<Rightarrow> Inr (s\<lparr>srv_sent := srv_sent s @ [(Reply k, f, False)]\<rparr>))"

definition receive_request :: "frame \<Rightarrow> server \<Rightarrow> (bool \<times> server) res" where
  "receive_request msg s =
     rbind (dec_service msg) (\<lambda>sm.
     rbind (if \<not> sm_heartbeat sm
            then rbind (cstring (sm_parameters sm)) (\<lambda>str. Inr (s\<lparr>srv_val := sm_parameters sm\<rparr>))
            else Inr s) (\<lambda>s1.
       Inr (sm_heartbeat sm, s1\<lparr>received_id := ntohl (sm_seq_id sm)\<rparr>)))"

definition create_thread :: "server \<Rightarrow> server res" where
  "create_thread s =
     rbind (cstring (srv_val s)) (\<lambda>parameters.
       case reply_ptr s of
         Indeterminate \<Rightarrow> Inl Undefined_Behaviour
       | Socket k \<Rightarrow>
           Inr (s\<lparr>threads := threads s @
             [\<lparr>st_parameters = parameters, st_service = srv_service s, st_service_type = service_type s,
               st_id = srv_id s, st_skt = k\<rparr>]\<rparr>))"

definition pong_broker :: "server_env \<Rightarrow> server \<Rightarrow> server res" where
  "pong_broker env s =
     reply_send (enc_reply ((junk_reply env)\<lparr>sr_id := srv_id s, sr_service := htonl (service_type s),
       sr_heartbeat := True\<rparr>)) s"

definition srv_pong_health_checker :: "server \<Rightarrow> server" where
  "srv_pong_health_checker s = s\<lparr>srv_sent := srv_sent s @ [(HcPong, [], False)]\<rparr>"

definition serve_request :: "server_env \<Rightarrow> frame \<Rightarrow> server \<Rightarrow> server res" where
  "serve_request env msg s =
     rbind (receive_request msg s) (\<lambda>(heartbeat, s1).
     let s2 = postpone env s1
     in if \<not> heartbeat
        then let s3 = (if request_id s2 = 0 then s2\<lparr>request_id := received_id s2\<rparr> else s2)
             in if received_id s3 = request_id s3
                then create_thread (s3\<lparr>request_id := request_id s3 + 1\<rparr>)
                else reply_send (enc_reply ((junk_reply env)\<lparr>sr_id := srv_id s3, sr_heartbeat := False,
                       sr_service := htonl (service_type s3), sr_duplicated := True\<rparr>)) s3
        else let s3 = (if ping_id s2 = 0 then s2\<lparr>ping_id := received_id s2\<rparr> else s2);
                 s4 = (if received_id s3 = ping_id s3 then s3\<lparr>ping_id := ping_id s3 + 1\<rparr> else s3)
             in pong_broker env s4)"

definition delete_reply :: "server_env \<Rightarrow> server \<Rightarrow> server res" where
  "delete_reply env s =
     (if reply_ptr s = Indeterminate \<and> \<not> junk_ptr_null env then Inl Undefined_Behaviour else Inr s)"

definition try_register :: "server_env \<Rightarrow> frame option \<Rightarrow> server \<Rightarrow> server res" where
  "try_register env reply s =
     rbind (registration (srv_registrator s) reply (srv_reg_io s)) (\<lambda>(port, io).
     let s1 = s\<lparr>broker_port := port, srv_reg_io := io\<rparr>
     in if 0 < port \<and> port \<le> 65535
        then rbind (delete_reply env s1) (\<lambda>s2.
             rbind (add_socket (broker_address s2) (word_of_int port) ZMQ_REP Connect) (\<lambda>skt.
               Inr (postpone env (s2\<lparr>reply_ptr := Socket (next_socket s2), next_socket := Suc (next_socket s2),
                 srv_items := srv_items s2 @ [Reply (next_socket s2)], reg_ok := True, ping_loss := 0\<rparr>))))
        else if port = 0 then Inl Exit_Failure
        else Inr s1)"

definition check_broker :: "server_env \<Rightarrow> timespec \<Rightarrow> server \<Rightarrow> server" where
  "check_broker env now s =
     (if time_cmp now (time_t s) = 1 \<and> reg_ok s
      then let s1 = postpone env s;
               s2 = s1\<lparr>ping_loss := ping_loss s1 + 1\<rparr>
           in if ping_loss s2 = LIVENESS then s2\<lparr>srv_items := butlast (srv_items s2), reg_ok := False\<rparr> else s2
      else s)"

definition server_iter :: "server_env \<Rightarrow> server_poll \<Rightarrow> server \<Rightarrow> server res" where
  "server_iter env ev s =
     (let (now, s0) = srv_clock env s
      in rbind (if reg_ok s0
                then (case ev_request ev of None \<Rightarrow> Inr s0 | Some msg \<Rightarrow> serve_request env msg s0)
                else Inr s0) (\<lambda>s1.
         let s2 = (if ev_ping ev then srv_pong_health_checker s1 else s1)
         in rbind (if \<not> reg_ok s2 then try_register env (ev_reg_reply ev) s2 else Inr s2) (\<lambda>s3.
              Inr (check_broker env now s3))))"

text \<open>
  The thread: it waits half a second, reads one parameter, calls the service and replies on the
  socket it was given, which must still be the server's. Threads finish in any order and run
  beside the main loop: \<open>start\<close> is the clock reading at which the wait of the thread begins,
  and its readings are not those of the loop.
\<close>

definition task_reply :: "server_env \<Rightarrow> service_thread_t \<Rightarrow> server_reply_t res" where
  "task_reply env st =
     (case deserialize \<lparr>unread = st_parameters st, failed = False\<rparr> [junk_par env] of
        (_, pars) \<Rightarrow>
          rbind (st_service st (hd pars)) (\<lambda>val_elab.
            Inr ((junk_reply env)\<lparr>sr_id := st_id st, sr_heartbeat := False, sr_result := htonl val_elab,
              sr_service := htonl (st_service_type st), sr_duplicated := False\<rparr>)))"

definition task :: "server_env \<Rightarrow> nat \<Rightarrow> nat \<Rightarrow> server \<Rightarrow> server res" where
  "task env start i s =
     rbind (vec_get (threads s) i) (\<lambda>st.
     rbind (of_option Diverges (busy_wait (s_clk env) start 500)) (\<lambda>_.
     rbind (task_reply env st) (\<lambda>reply.
       if reply_ptr s = Socket (st_skt st)
       then Inr (s\<lparr>threads := take i (threads s) @ drop (Suc i) (threads s),
                   srv_sent := srv_sent s @ [(Reply (st_skt st), enc_reply reply, False)]\<rparr>)
       else Inl Undefined_Behaviour)))"

inductive server_step :: "server_env \<Rightarrow> server \<Rightarrow> server \<Rightarrow> bool" for env where
  iterate: "server_iter env ev s = Inr s' \<Longrightarrow> server_step env s s'"
| finish: "task env start i s = Inr s' \<Longrightarrow> server_step env s s'"

end
