(* ===== verification/RSF_Server_Facts.thy ===== *)
theory RSF_Server_Facts
  imports "HOL-Library.Sublist" RSF_Server
begin

text \<open>
  Properties of a server copy: the invariant of its main loop, which requests it executes, what
  its threads reply, and when it gives the broker up.
\<close>

section \<open>Invariant\<close>

definition server_inv :: "server \<Rightarrow> bool" where
  "server_inv s \<longleftrightarrow>
     srv_items s = (if reg_ok s then (case reply_ptr s of Socket k \<Rightarrow> [HcPong, Reply k] | Indeterminate \<Rightarrow> [])
                    else [HcPong]) \<and>
     (reg_ok s \<longrightarrow> reply_ptr s \<noteq> Indeterminate) \<and>
     0 \<le> ping_loss s \<and> ping_loss s \<le> LIVENESS \<and> (reg_ok s \<longrightarrow> ping_loss s < LIVENESS) \<and>
     (\<forall>k. reply_ptr s = Socket k \<longrightarrow> k < next_socket s) \<and>
     (\<forall>st \<in> set (threads s). st_skt st < next_socket s \<and> st_service st = srv_service s \<and>
        st_service_type st = service_type s \<and> st_id st = srv_id s)"

lemma server_inv_frame [simp]:
  "server_inv (s\<lparr>srv_ticks := n\<rparr>) = server_inv s" "server_inv (s\<lparr>time_t := t\<rparr>) = server_inv s"
  "server_inv (s\<lparr>srv_sent := es\<rparr>) = server_inv s" "server_inv (s\<lparr>request_id := r\<rparr>) = server_inv s"
  "server_inv (s\<lparr>ping_id := r\<rparr>) = server_inv s" "server_inv (s\<lparr>received_id := r\<rparr>) = server_inv s"
  "server_inv (s\<lparr>srv_val := v\<rparr>) = server_inv s" "server_inv (s\<lparr>broker_port := p\<rparr>) = server_inv s"
  "server_inv (s\<lparr>srv_reg_io := io\<rparr>) = server_inv s"
  by (simp_all add: server_inv_def)

lemma postpone_eq:
  "postpone env s = s\<lparr>srv_ticks := Suc (srv_ticks s),
     time_t := time_add_ms (s_clk env (srv_ticks s)) (HEARTBEAT_INTERVAL + WCDPING)\<rparr>"
  by (simp add: postpone_def srv_clock_def)

lemma postpone_inv [simp]: "server_inv (postpone env s) = server_inv s"
  by (simp add: postpone_eq)

lemma reply_send_inv [inv_intros]: "reply_send f s = Inr s' \<Longrightarrow> server_inv s \<Longrightarrow> server_inv s'"
  by (auto simp: reply_send_def split: socket_ptr.splits)

lemma create_thread_inv [inv_intros]: "create_thread s = Inr s' \<Longrightarrow> server_inv s \<Longrightarrow> server_inv s'"
  by (auto simp: create_thread_def rbind_Inr_iff server_inv_def split: socket_ptr.splits)

lemma receive_request_inv [inv_intros]:
  assumes "receive_request msg s = Inr (hb, s')" "server_inv s"
  shows "server_inv s'"
proof -
  from assms(1) obtain sm where sm: "dec_service msg = Inr sm" by (auto simp: receive_request_def rbind_Inr_iff)
  show ?thesis
  proof (cases "sm_heartbeat sm")
    case True
    with assms sm show ?thesis by (auto simp: receive_request_def)
  next
    case False
    with assms sm show ?thesis
      by (cases "cstring (sm_parameters sm)") (auto simp: receive_request_def)
  qed
qed

lemma serve_request_inv [inv_intros]:
  assumes "serve_request env msg s = Inr s'" "server_inv s"
  shows "server_inv s'"
proof -
  from assms(1) obtain hb s1 where "receive_request msg s = Inr (hb, s1)"
    by (auto simp: serve_request_def rbind_Inr_iff)
  moreover from this assms(2) have "server_inv s1" by (rule receive_request_inv)
  ultimately show ?thesis using assms(1)
    by (auto simp: serve_request_def pong_broker_def Let_def split: if_splits
        elim!: reply_send_inv create_thread_inv)
qed

lemma try_register_inv [inv_intros]:
  assumes "try_register env reply s = Inr s'" "server_inv s" "\<not> reg_ok s"
  shows "server_inv s'"
proof -
  from assms(1) obtain port io where reg: "registration (srv_registrator s) reply (srv_reg_io s) = Inr (port, io)"
    by (auto simp: try_register_def rbind_Inr_iff)
  let ?s1 = "s\<lparr>broker_port := port, srv_reg_io := io\<rparr>"
  show ?thesis
  proof (cases "0 < port \<and> port \<le> 65535")
    case False
    with assms reg show ?thesis by (auto simp: try_register_def split: if_splits)
  next
    case True
    with assms(1) reg have s': "s' = postpone env (?s1\<lparr>reply_ptr := Socket (next_socket s), next_socket := Suc (next_socket s),
        srv_items := srv_items s @ [Reply (next_socket s)], reg_ok := True, ping_loss := 0\<rparr>)"
      by (auto simp: try_register_def delete_reply_def split: if_splits)
    from assms(2,3) show ?thesis unfolding s' postpone_inv by (auto simp: server_inv_def less_Suc_eq)
  qed
qed

lemma check_broker_inv [inv_intros]: "server_inv s \<Longrightarrow> server_inv (check_broker env now s)"
  by (auto simp: check_broker_def Let_def postpone_eq server_inv_def split: socket_ptr.splits if_splits)

lemma server_iter_inv [inv_intros]:
  assumes "server_iter env ev s = Inr s'" "server_inv s"
  shows "server_inv s'"
proof -
  let ?s0 = "s\<lparr>srv_ticks := Suc (srv_ticks s)\<rparr>"
  from assms(1) obtain s1 s3
    where s1: "(if reg_ok s then (case ev_request ev of None \<Rightarrow> Inr ?s0 | Some msg \<Rightarrow> serve_request env msg ?s0)
        else Inr ?s0) = Inr s1"
      and s3: "(let s2 = (if ev_ping ev then srv_pong_health_checker s1 else s1)
        in if \<not> reg_ok s2 then try_register env (ev_reg_reply ev) s2 else Inr s2) = Inr s3"
      and s': "s' = check_broker env (s_clk env (srv_ticks s)) s3"
    by (auto simp: server_iter_def srv_clock_def rbind_Inr_iff Let_def)
  from s1 assms(2) have "server_inv s1" by (auto split: if_splits option.splits elim!: serve_request_inv)
  then have "server_inv (if ev_ping ev then srv_pong_health_checker s1 else s1)"
    by (simp add: srv_pong_health_checker_def)
  with s3 have "server_inv s3" by (auto simp: Let_def split: if_splits elim!: try_register_inv)
  then show ?thesis unfolding s' by (rule check_broker_inv)
qed

lemma task_inv [inv_intros]: "task env start i s = Inr s' \<Longrightarrow> server_inv s \<Longrightarrow> server_inv s'"
  by (auto simp: task_def rbind_Inr_iff server_inv_def split: if_splits dest!: in_set_takeD in_set_dropD)

interpretation server_loop: step_system "server_step env" server_inv for env
  by unfold_locales (auto elim!: server_step.cases intro: server_iter_inv task_inv)

lemma new_server_inv: "new_server copy svc address port v t i = Inr s \<Longrightarrow> server_inv s"
  by (auto simp: new_server_def rbind_Inr_iff server_inv_def)

section \<open>Requests in sequence\<close>

definition well_formed_request :: "service_module \<Rightarrow> bool" where
  "well_formed_request sm \<longleftrightarrow> \<not> sm_heartbeat sm \<and> length (sm_parameters sm) = PARAM_SIZE \<and> 0 \<in> set (sm_parameters sm)"

definition parameters_of :: "service_module \<Rightarrow> string" where
  "parameters_of sm = (case cstring (sm_parameters sm) of Inr str \<Rightarrow> str | Inl e \<Rightarrow> [])"

abbreviation seq_of :: "service_module \<Rightarrow> uint32" where
  "seq_of sm \<equiv> ntohl (sm_seq_id sm)"

lemma cstring_terminated: "0 \<in> set bs \<Longrightarrow> \<exists>str. cstring bs = Inr str"
  by (induction bs) auto

lemma well_formed_requestD:
  assumes "well_formed_request sm"
  shows "\<not> sm_heartbeat sm" "dec_service (enc_service sm) = Inr sm" "cstring (sm_parameters sm) = Inr (parameters_of sm)"
  using assms cstring_terminated [of "sm_parameters sm"]
  by (auto simp: well_formed_request_def parameters_of_def service_wire.dec_enc)

text \<open>The requests of a series that a server with next expected number \<open>n\<close> executes.\<close>

fun accepted :: "uint32 \<Rightarrow> service_module list \<Rightarrow> service_module list" where
  "accepted n [] = []"
| "accepted n (sm # sms) =
     (let m = (if n = 0 then seq_of sm else n)
      in if seq_of sm = m then sm # accepted (m + 1) sms else accepted m sms)"

fun serve_all :: "server_env \<Rightarrow> frame list \<Rightarrow> server \<Rightarrow> server res" where
  "serve_all env [] s = Inr s"
| "serve_all env (m # ms) s = rbind (serve_request env m s) (serve_all env ms)"

lemma serve_request_cases:
  assumes "well_formed_request sm" "reply_ptr s = Socket k"
  defines "n \<equiv> if request_id s = 0 then seq_of sm else request_id s"
  obtains (executed) s' where "seq_of sm = n" "serve_request env (enc_service sm) s = Inr s'" "reply_ptr s' = Socket k"
      "request_id s' = n + 1" "srv_sent s' = srv_sent s"
      "threads s' = threads s @ [\<lparr>st_parameters = parameters_of sm, st_service = srv_service s,
         st_service_type = service_type s, st_id = srv_id s, st_skt = k\<rparr>]"
  | (rejected) s' rep where "seq_of sm \<noteq> n" "serve_request env (enc_service sm) s = Inr s'" "reply_ptr s' = Socket k"
      "request_id s' = n" "threads s' = threads s"
      "srv_sent s' = srv_sent s @ [(Reply k, enc_reply rep, False)]" "sr_duplicated rep" "\<not> sr_heartbeat rep"
proof -
  note sm = well_formed_requestD [OF assms(1)]
  have recv: "receive_request (enc_service sm) s =
      Inr (False, s\<lparr>srv_val := sm_parameters sm, received_id := seq_of sm\<rparr>)"
    using sm by (simp add: receive_request_def)
  let ?s = "s\<lparr>srv_val := sm_parameters sm, received_id := seq_of sm, srv_ticks := Suc (srv_ticks s),
    time_t := time_add_ms (s_clk env (srv_ticks s)) (HEARTBEAT_INTERVAL + WCDPING), request_id := n\<rparr>"
  show ?thesis
  proof (cases "seq_of sm = n")
    case True
    have "serve_request env (enc_service sm) s = create_thread (?s\<lparr>request_id := n + 1\<rparr>)"
      using True by (cases "request_id s = 0") (simp_all add: serve_request_def recv postpone_eq n_def Let_def)
    also have "\<dots> = Inr (?s\<lparr>request_id := n + 1, threads := threads s @ [\<lparr>st_parameters = parameters_of sm,
        st_service = srv_service s, st_service_type = service_type s, st_id = srv_id s, st_skt = k\<rparr>]\<rparr>)"
      using sm assms(2) by (simp add: create_thread_def)
    finally show ?thesis by (rule executed [OF True]) (simp_all add: assms(2))
  next
    case False
    let ?rep = "(junk_reply env)\<lparr>sr_id := srv_id s, sr_heartbeat := False,
       sr_service := htonl (service_type s), sr_duplicated := True\<rparr>"
    have "serve_request env (enc_service sm) s = reply_send (enc_reply ?rep) ?s"
      using False by (cases "request_id s = 0") (simp_all add: serve_request_def recv postpone_eq n_def Let_def)
    also have "\<dots> = Inr (?s\<lparr>srv_sent := srv_sent s @ [(Reply k, enc_reply ?rep, False)]\<rparr>)"
      using assms(2) by (simp add: reply_send_def)
    finally show ?thesis by (rule rejected [where rep = ?rep, OF False]) (simp_all add: assms(2))
  qed
qed

lemma serve_all_accepted:
  assumes "\<forall>sm \<in> set sms. well_formed_request sm" "reply_ptr s = Socket k"
  shows "\<exists>s' dups ts. serve_all env (map enc_service sms) s = Inr s' \<and> threads s' = threads s @ ts \<and>
     map st_parameters ts = map parameters_of (accepted (request_id s) sms) \<and>
     srv_sent s' = srv_sent s @ map (\<lambda>rep. (Reply k, enc_reply rep, False)) dups \<and>
     (\<forall>rep \<in> set dups. sr_duplicated rep \<and> \<not> sr_heartbeat rep) \<and>
     length dups + length (accepted (request_id s) sms) = length sms"
  using assms
proof (induction sms arbitrary: s)
  case Nil
  then show ?case by simp
next
  case (Cons sm sms)
  from Cons.prems have "well_formed_request sm" by simp
  from this Cons.prems(2) show ?case
  proof (cases rule: serve_request_cases [where env = env])
    case (executed s1)
    from Cons.IH [OF _ executed(3)] Cons.prems(1) obtain s' dups ts
      where run: "serve_all env (map enc_service sms) s1 = Inr s'" "threads s' = threads s1 @ ts"
        "map st_parameters ts = map parameters_of (accepted (request_id s1) sms)"
        "srv_sent s' = srv_sent s1 @ map (\<lambda>rep. (Reply k, enc_reply rep, False)) dups"
        "\<forall>rep \<in> set dups. sr_duplicated rep \<and> \<not> sr_heartbeat rep"
        "length dups + length (accepted (request_id s1) sms) = length sms" by auto
    let ?t = "\<lparr>st_parameters = parameters_of sm, st_service = srv_service s,
         st_service_type = service_type s, st_id = srv_id s, st_skt = k\<rparr>"
    show ?thesis
      by (rule exI [of _ s'], rule exI [of _ dups], rule exI [of _ "?t # ts"])
        (use run executed in \<open>simp add: Let_def\<close>)
  next
    case (rejected s1 rep)
    from Cons.IH [OF _ rejected(3)] Cons.prems(1) obtain s' dups ts
      where run: "serve_all env (map enc_service sms) s1 = Inr s'" "threads s' = threads s1 @ ts"
        "map st_parameters ts = map parameters_of (accepted (request_id s1) sms)"
        "srv_sent s' = srv_sent s1 @ map (\<lambda>rep. (Reply k, enc_reply rep, False)) dups"
        "\<forall>rep \<in> set dups. sr_duplicated rep \<and> \<not> sr_heartbeat rep"
        "length dups + length (accepted (request_id s1) sms) = length sms" by auto
    show ?thesis
      by (rule exI [of _ s'], rule exI [of _ "rep # dups"], rule exI [of _ ts])
        (use run rejected in \<open>simp add: Let_def\<close>)
  qed
qed

lemma accepted_subseq: "subseq (accepted n sms) sms"
  by (induction n sms rule: accepted.induct) (auto simp: Let_def)

lemma accepted_Nil_iff: "n \<noteq> 0 \<Longrightarrow> accepted n sms = [] \<longleftrightarrow> n \<notin> seq_of ` set sms"
  by (induction sms) (auto simp: Let_def)

lemma accepted_consecutive:
  assumes "n \<noteq> 0" "unat n + length sms < 2 ^ 32"
  shows "map seq_of (accepted n sms) = map (\<lambda>j. n + of_nat j) [0..<length (accepted n sms)]"
  using assms
proof (induction sms arbitrary: n)
  case (Cons sm sms)
  show ?case
  proof (cases "seq_of sm = n")
    case False
    with Cons show ?thesis by (simp add: Let_def)
  next
    case True
    have u: "unat (n + 1) = Suc (unat n)" using Cons.prems by (simp add: unat_word_ariths)
    then have "n + 1 \<noteq> 0" by (metis nat.distinct(1) unat_0)
    with Cons u have "map seq_of (accepted (n + 1) sms) = map (\<lambda>j. n + 1 + of_nat j) [0..<length (accepted (n + 1) sms)]"
      by simp
    with True Cons.prems(1) show ?thesis
      by (simp add: Let_def map_upt_Suc algebra_simps del: upt_Suc)
  qed
qed simp

section \<open>The thread of a request\<close>

lemma task_reply_service:
  assumes "service_spec k = Some g" "get_service_body (service_code k) = Inr (st_service st)"
    and "st_parameters st = serialize [] [x]" "sint (y :: int32) = g (sint x)"
  shows "task_reply env st = Inr ((junk_reply env)\<lparr>sr_id := st_id st, sr_heartbeat := False, sr_result := htonl y,
     sr_service := htonl (st_service_type st), sr_duplicated := False\<rparr>)"
proof -
  obtain u where par: "deserialize \<lparr>unread = serialize [] [x], failed = False\<rparr> [junk_par env] = (\<lparr>unread = u, failed = False\<rparr>, [x])"
    using deserialize_concat [of "[junk_par env]" "[x]" "[]"] by (auto simp: serialize_concat)
  have "st_service st x = Inr y"
    using get_service_body_spec [OF assms(1)] assms(2,4) by (auto simp: checked_int32_Inr_iff)
  then show ?thesis using assms(3) par by (simp add: task_reply_def)
qed

section \<open>Lost pings\<close>

lemma reply_send_frame: "reply_send f s = Inr s' \<Longrightarrow> ping_loss s' = ping_loss s \<and> reg_ok s' = reg_ok s"
  by (auto simp: reply_send_def split: socket_ptr.splits)

lemma create_thread_frame: "create_thread s = Inr s' \<Longrightarrow> ping_loss s' = ping_loss s \<and> reg_ok s' = reg_ok s"
  by (cases "reply_ptr s") (auto simp: create_thread_def rbind_Inr_iff)

lemma receive_request_frame:
  assumes "receive_request msg s = Inr (hb, s')"
  shows "ping_loss s' = ping_loss s \<and> reg_ok s' = reg_ok s"
proof -
  from assms obtain sm where sm: "dec_service msg = Inr sm" by (auto simp: receive_request_def rbind_Inr_iff)
  with assms show ?thesis
    by (cases "sm_heartbeat sm"; cases "cstring (sm_parameters sm)") (auto simp: receive_request_def)
qed

lemma serve_request_frame:
  assumes "serve_request env msg s = Inr s'"
  shows "ping_loss s' = ping_loss s \<and> reg_ok s' = reg_ok s"
proof -
  from assms obtain hb s1 where s1: "receive_request msg s = Inr (hb, s1)"
    by (auto simp: serve_request_def rbind_Inr_iff)
  show ?thesis
    using assms s1 receive_request_frame [OF s1]
    by (auto simp: serve_request_def pong_broker_def Let_def postpone_eq split: if_splits
        dest!: reply_send_frame create_thread_frame)
qed

lemma check_broker_counts:
  fixes env now
  assumes "server_inv s" "reg_ok s"
  defines "s' \<equiv> check_broker env now s"
  shows "ping_loss s \<le> ping_loss s' \<and> ping_loss s' \<le> ping_loss s + 1 \<and>
     (reg_ok s' \<longleftrightarrow> ping_loss s' < LIVENESS) \<and> (\<not> reg_ok s' \<longrightarrow> ping_loss s' = LIVENESS \<and> srv_items s' = [HcPong])"
proof -
  from assms(1,2) obtain k where k: "srv_items s = [HcPong, Reply k]" "ping_loss s < LIVENESS"
    by (auto simp: server_inv_def split: socket_ptr.splits)
  show ?thesis
  proof (cases "time_cmp now (time_t s) = 1")
    case True
    then show ?thesis using assms(2) k by (auto simp: s'_def check_broker_def Let_def postpone_eq)
  next
    case False
    then show ?thesis using assms(2) k by (simp add: s'_def check_broker_def)
  qed
qed

section \<open>Properties\<close>

text \<open>
  C15: In every state a server reaches, the poll set is the health checker's socket plus the
  reply socket exactly while it is registered, the pointer to the reply socket is then valid,
  the number of lost pings stays below \<open>LIVENESS\<close>, and every running thread was started for
  the service, the copy and a socket of this server.
\<close>

theorem reachable_server_inv:
  assumes "new_server copy svc address port junk_val junk_time junk_id = Inr s0" and "(server_step env)\<^sup>*\<^sup>* s0 s"
  shows "(reg_ok s \<longrightarrow> (\<exists>k. reply_ptr s = Socket k \<and> srv_items s = [HcPong, Reply k]) \<and> ping_loss s < LIVENESS) \<and>
     (\<not> reg_ok s \<longrightarrow> srv_items s = [HcPong]) \<and> 0 \<le> ping_loss s \<and> ping_loss s \<le> LIVENESS \<and>
     (\<forall>st \<in> set (threads s). st_service st = srv_service s \<and> st_service_type st = service_type s \<and>
        st_id st = srv_id s \<and> st_skt st < next_socket s)"
proof -
  have "server_inv s" by (rule server_loop.steps_inv [OF assms(2) new_server_inv [OF assms(1)]])
  then show ?thesis by (auto simp: server_inv_def split: socket_ptr.splits)
qed

definition example_senv :: server_env where
  "example_senv = \<lparr>s_clk = (\<lambda>k. \<lparr>tv_sec = int k, tv_nsec = 0\<rparr>), junk_ptr_null = True,
     junk_reply = \<lparr>sr_heartbeat = False, sr_duplicated = False, sr_pad = 0, sr_result = 0, sr_service = 0,
       sr_id = 0, sr_pad_end = 0\<rparr>, junk_par = 0\<rparr>"

definition example_server :: "server res" where
  "example_server =
     rbind (new_server 1 0 ''localhost'' 5555 [] \<lparr>tv_sec = 0, tv_nsec = 0\<rparr> 0)
       (server_iter example_senv \<lparr>ev_request = None, ev_ping = True, ev_reg_reply = Some (le_bytes 2 (htons 6000))\<rparr>)"

lemma example_server_eq:
  obtains s0 s where "new_server 1 0 ''localhost'' 5555 [] \<lparr>tv_sec = 0, tv_nsec = 0\<rparr> 0 = Inr s0"
    "example_server = Inr s" "server_step example_senv s0 s" "reg_ok s" "reply_ptr s = Socket 0" "request_id s = 0"
    "threads s = []" "service_type s = 0" "srv_service s = increment"
proof -
  obtain s0 where s0: "new_server 1 0 ''localhost'' 5555 [] \<lparr>tv_sec = 0, tv_nsec = 0\<rparr> 0 = Inr s0"
    "reg_ok s0 = False" "srv_ticks s0 = 0" "reply_ptr s0 = Indeterminate" "next_socket s0 = 0" "request_id s0 = 0"
    "threads s0 = []" "srv_reg_io s0 = \<lparr>send_reg = False, reg_sent = []\<rparr>" "service_type s0 = 0" "srv_service s0 = increment"
    by (simp add: new_server_def get_service_body_def service_kind_of_def new_registrator_def)
  let ?ev = "\<lparr>ev_request = None, ev_ping = True, ev_reg_reply = Some (le_bytes 2 (htons 6000))\<rparr>"
  have "\<exists>s. server_iter example_senv ?ev s0 = Inr s \<and> reg_ok s \<and> reply_ptr s = Socket 0 \<and> request_id s = 0 \<and> threads s = [] \<and>
      service_type s = 0 \<and> srv_service s = increment"
    using s0 by (simp add: server_iter_def srv_clock_def srv_pong_health_checker_def try_register_def registration_eq
        register_service_def load_def delete_reply_def example_senv_def postpone_eq check_broker_def time_cmp_def time_add_ms_def)
  then obtain s where s: "server_iter example_senv ?ev s0 = Inr s" "reg_ok s" "reply_ptr s = Socket 0" "request_id s = 0"
    "threads s = []" "service_type s = 0" "srv_service s = increment" by blast
  show ?thesis
    by (rule that [of s0 s]) (use s s0(1) in \<open>auto simp: example_server_def intro: server_step.iterate\<close>)
qed

theorem reachable_server_inv_witness:
  "\<exists>s0 s. new_server 1 0 ''localhost'' 5555 [] \<lparr>tv_sec = 0, tv_nsec = 0\<rparr> 0 = Inr s0 \<and>
     (server_step example_senv)\<^sup>*\<^sup>* s0 s \<and> reg_ok s \<and> srv_items s = [HcPong, Reply 0] \<and> ping_loss s < 3"
proof -
  obtain s0 s where s: "new_server 1 0 ''localhost'' 5555 [] \<lparr>tv_sec = 0, tv_nsec = 0\<rparr> 0 = Inr s0"
    "server_step example_senv s0 s" "reg_ok s" "reply_ptr s = Socket 0" by (rule example_server_eq)
  from s(2) have steps: "(server_step example_senv)\<^sup>*\<^sup>* s0 s" by blast
  from reachable_server_inv [OF s(1) steps] s steps show ?thesis by auto
qed

text \<open>
  C10: At most once and in order: of any series of well-formed requests, a server that expects
  number \<open>n\<close> starts threads exactly for the requests \<open>accepted\<close> picks, with their parameters:
  the first one numbered \<open>n\<close>, the first one numbered \<open>n + 1\<close> after it, and so on; it
  answers every other request with a duplicate notice. Once request \<open>n\<close> is missed, no later
  request is executed: some request is executed if and only if one with number \<open>n\<close> comes.
\<close>

theorem requests_executed_in_sequence:
  assumes "\<forall>sm \<in> set sms. well_formed_request sm" and "reply_ptr s = Socket k"
    and "request_id s \<noteq> 0" and "unat (request_id s) + length sms < 2 ^ 32"
  defines "acc \<equiv> accepted (request_id s) sms"
  shows "\<exists>s' ts dups. serve_all env (map enc_service sms) s = Inr s' \<and> threads s' = threads s @ ts \<and>
     subseq acc sms \<and> map st_parameters ts = map parameters_of acc \<and>
     map seq_of acc = map (\<lambda>j. request_id s + of_nat j) [0..<length acc] \<and>
     srv_sent s' = srv_sent s @ map (\<lambda>rep. (Reply k, enc_reply rep, False)) dups \<and>
     (\<forall>rep \<in> set dups. sr_duplicated rep \<and> \<not> sr_heartbeat rep) \<and> length dups + length acc = length sms \<and>
     (ts \<noteq> [] \<longleftrightarrow> request_id s \<in> seq_of ` set sms)"
proof -
  note seq = accepted_consecutive [OF assms(3,4), folded acc_def]
  from serve_all_accepted [OF assms(1,2), of env] obtain s' dups ts
    where run: "serve_all env (map enc_service sms) s = Inr s'" "threads s' = threads s @ ts"
      "map st_parameters ts = map parameters_of acc"
      "srv_sent s' = srv_sent s @ map (\<lambda>rep. (Reply k, enc_reply rep, False)) dups"
      "\<forall>rep \<in> set dups. sr_duplicated rep \<and> \<not> sr_heartbeat rep" "length dups + length acc = length sms"
    unfolding acc_def by blast
  from run(3) have "ts \<noteq> [] \<longleftrightarrow> acc \<noteq> []" by (metis list.map_disc_iff)
  with run seq accepted_subseq [of "request_id s" sms] accepted_Nil_iff [OF assms(3), of sms] show ?thesis
    unfolding acc_def by blast
qed

definition example_request_sm :: "uint32 \<Rightarrow> service_module" where
  "example_request_sm n = \<lparr>sm_heartbeat = False, sm_pad = 0, sm_seq_id = htonl n, sm_parameters = 50 # replicate 99 0\<rparr>"

theorem requests_executed_in_sequence_witness:
  "\<exists>s s' ts. example_server = Inr s \<and>
     serve_all example_senv (map enc_service (map example_request_sm [7, 9, 8, 8])) (s\<lparr>request_id := 7\<rparr>) = Inr s' \<and>
     threads s' = threads s @ ts \<and> map st_parameters ts = map parameters_of (map example_request_sm [7, 8])"
proof -
  obtain s where s: "example_server = Inr s" "reply_ptr s = Socket 0" by (rule example_server_eq)
  let ?s = "s\<lparr>request_id := 7\<rparr>" and ?sms = "map example_request_sm [7, 9, 8, 8]"
  have "\<forall>sm \<in> set ?sms. well_formed_request sm" "reply_ptr ?s = Socket 0" "request_id ?s \<noteq> 0"
    "unat (request_id ?s) + length ?sms < 2 ^ 32"
    using s(2) by (simp_all add: well_formed_request_def example_request_sm_def)
  moreover have "accepted (request_id ?s) ?sms = map example_request_sm [7, 8]"
    by (simp add: example_request_sm_def)
  ultimately show ?thesis using requests_executed_in_sequence [of ?sms ?s 0 example_senv] s(1) by fastforce
qed

text \<open>
  The thread of a request computes the service: when its parameters are the serialized
  argument \<open>x\<close> and the server was built for the service \<open>k\<close>, the reply it makes up carries
  the mathematical result on \<open>x\<close> in network byte order, the code of the service and the
  identifier of the copy, and is marked neither as a pong nor as a duplicate.
\<close>

theorem task_reply_computes_service:
  assumes "service_spec k = Some g" and "get_service_body (service_code k) = Inr (st_service st)"
    and "st_parameters st = serialize [] [x]" and "sint (y :: int32) = g (sint x)"
  shows "\<exists>r. task_reply env st = Inr r \<and> ntohl (sr_result r) = y \<and> sint (ntohl (sr_result r)) = g (sint x) \<and>
     ntohl (sr_service r) = st_service_type st \<and> sr_id r = st_id st \<and> \<not> sr_heartbeat r \<and> \<not> sr_duplicated r"
proof -
  from task_reply_service [OF assms, of env] assms(4) show ?thesis by auto
qed

theorem task_reply_computes_service_witness:
  "\<exists>r. task_reply example_senv \<lparr>st_parameters = serialize [] [20], st_service = multiply2, st_service_type = 2,
       st_id = 1, st_skt = 0\<rparr> = Inr r \<and> ntohl (sr_result r) = 40 \<and> ntohl (sr_service r) = 2 \<and> sr_id r = 1"
  using task_reply_computes_service [of MULTIPLY2 "\<lambda>x. x * 2" "\<lparr>st_parameters = serialize [] [20],
      st_service = multiply2, st_service_type = 2, st_id = 1, st_skt = 0\<rparr>" 20 40 example_senv]
  by (auto simp: get_service_body_def service_kind_of_def)

text \<open>
  C26: Lost pings add up: while a server stays registered, no request and no ping from the
  broker ever lowers the number of deadlines it has counted as missed; each iteration adds at
  most one, and the server gives the broker up exactly when \<open>LIVENESS\<close> is reached.
\<close>

theorem ping_losses_accumulate:
  assumes "server_inv s" and "reg_ok s" and "server_iter env ev s = Inr s'"
  shows "ping_loss s \<le> ping_loss s' \<and> ping_loss s' \<le> ping_loss s + 1 \<and>
     (reg_ok s' \<longleftrightarrow> ping_loss s' < LIVENESS) \<and> (\<not> reg_ok s' \<longrightarrow> ping_loss s' = LIVENESS \<and> srv_items s' = [HcPong])"
proof -
  let ?s0 = "s\<lparr>srv_ticks := Suc (srv_ticks s)\<rparr>"
  have frame: "ping_loss s1 = ping_loss s0 \<and> reg_ok s1 = reg_ok s0" if "serve_request env msg s0 = Inr s1" for msg s0 s1
    using that serve_request_frame by blast
  from assms(2,3) obtain s1
    where s1: "(case ev_request ev of None \<Rightarrow> Inr ?s0 | Some msg \<Rightarrow> serve_request env msg ?s0) = Inr s1"
      and rest: "(let s2 = (if ev_ping ev then srv_pong_health_checker s1 else s1)
        in rbind (if \<not> reg_ok s2 then try_register env (ev_reg_reply ev) s2 else Inr s2) (\<lambda>s3.
             Inr (check_broker env (s_clk env (srv_ticks s)) s3))) = Inr s'"
    by (auto simp: server_iter_def srv_clock_def rbind_Inr_iff)
  from s1 assms(2) have f1: "ping_loss s1 = ping_loss s" "reg_ok s1"
    using frame by (auto split: option.splits)
  from s1 assms(1) have "server_inv s1" by (auto split: option.splits elim!: serve_request_inv)
  let ?s2 = "if ev_ping ev then srv_pong_health_checker s1 else s1"
  have s2: "ping_loss ?s2 = ping_loss s" "reg_ok ?s2" "server_inv ?s2"
    using f1 \<open>server_inv s1\<close> by (simp_all add: srv_pong_health_checker_def)
  have s': "s' = check_broker env (s_clk env (srv_ticks s)) ?s2" using rest s2(2) by (simp add: Let_def split: if_splits)
  show ?thesis unfolding s' using check_broker_counts [OF s2(3,2)] s2(1) by metis
qed

theorem ping_losses_accumulate_witness:
  "\<exists>s s'. example_server = Inr s \<and> reg_ok s \<and>
     server_iter example_senv \<lparr>ev_request = None, ev_ping = False, ev_reg_reply = None\<rparr> (s\<lparr>srv_ticks := 10\<rparr>) = Inr s' \<and>
     ping_loss s \<le> ping_loss s' \<and> (reg_ok s' \<longleftrightarrow> ping_loss s' < 3)"
proof -
  obtain s0 s where s: "new_server 1 0 ''localhost'' 5555 [] \<lparr>tv_sec = 0, tv_nsec = 0\<rparr> 0 = Inr s0"
    "example_server = Inr s" "server_step example_senv s0 s" "reg_ok s" by (rule example_server_eq)
  let ?s = "s\<lparr>srv_ticks := 10\<rparr>"
  have inv: "server_inv ?s" using server_loop.step_inv [OF s(3) new_server_inv [OF s(1)]] by simp
  have ok: "reg_ok ?s" using s(4) by simp
  obtain s' where s': "server_iter example_senv \<lparr>ev_request = None, ev_ping = False, ev_reg_reply = None\<rparr> ?s = Inr s'"
    using s(4) by (simp add: server_iter_def srv_clock_def)
  from ping_losses_accumulate [OF inv ok s'] s s' show ?thesis by auto
qed

end
