(* ===== verification/RSF_Health.thy ===== *)
theory RSF_Health
  imports RSF_Socket
begin

text \<open>
  The health checkers (\<^verbatim>\<open>src/utilities/health_checker_class.cpp\<close> and the two classes
  derived from it for the broker and for a server copy). A derived class is a record extension.
  One iteration of \<open>step\<close> takes whether a pong is ready and the process identifier \<open>fork\<close>
  would return to the parent, negative when it fails; pings, kills and the programs started in the
  child are logged.
  A timed iteration, \<open>hcb_step\<close> or \<open>hcs_step\<close>, polls first, with the interval of its source.
  What both loops have in common is the locale \<open>health_checker\<close>, interpreted on each of them.
\<close>

section \<open>State\<close>

abbreviation (input) HEARTBEAT_LIVENESS :: uint8 where "HEARTBEAT_LIVENESS \<equiv> 3"

datatype hc_action = Ping frame | Kill int | Exec string "byte list list"

record hc =
  hc_pid :: int
  hc_port :: uint16
  hb_liveness :: uint8
  hb_skt :: socket_conf
  pong_arrived :: bool
  hc_log :: "hc_action list"

record hc_server = hc +
  server_id :: uint8
  hc_service :: uint8

section \<open>Operations\<close>

definition context_init :: "uint16 \<Rightarrow> socket_conf res" where
  "context_init port = add_socket ''localhost'' port ZMQ_REQ Connect"

definition new_hc_broker :: "int \<Rightarrow> uint16 \<Rightarrow> hc res" where
  "new_hc_broker pid port =
     rbind (context_init port) (\<lambda>skt.
       Inr \<lparr>hc_pid = pid, hc_port = port, hb_liveness = HEARTBEAT_LIVENESS, hb_skt = skt,
            pong_arrived = False, hc_log = []\<rparr>)"

definition new_hc_server :: "int \<Rightarrow> uint16 \<Rightarrow> uint8 \<Rightarrow> uint8 \<Rightarrow> hc_server res" where
  "new_hc_server pid port sid svc =
     rbind (context_init port) (\<lambda>skt.
       Inr \<lparr>hc_pid = pid, hc_port = port, hb_liveness = HEARTBEAT_LIVENESS, hb_skt = skt,
            pong_arrived = False, hc_log = [], server_id = sid, hc_service = svc\<rparr>)"

text \<open>The first ping carries the process identifier; both loops start with it.\<close>

definition first_ping :: "'a hc_scheme \<Rightarrow> 'a hc_scheme" where
  "first_ping s =
     s\<lparr>hc_log := hc_log s @ [Ping (le_bytes 4 (word_of_int (hc_pid s) :: uint32))], pong_arrived := False\<rparr>"

definition hcb_restart_process :: "int \<Rightarrow> hc \<Rightarrow> hc" where
  "hcb_restart_process fork s =
     s\<lparr>hc_log := hc_log s @ [Kill (hc_pid s)] @ (if fork < 0 then [] else [Exec ''./RSF_broker'' [c_str ''broker'']]),
       hc_pid := fork\<rparr>"

definition hcb_iter :: "int \<Rightarrow> bool \<Rightarrow> hc \<Rightarrow> hc" where
  "hcb_iter fork pollin s =
     (let (s1, timeout) =
            (if pollin then (s\<lparr>hb_liveness := HEARTBEAT_LIVENESS, pong_arrived := True\<rparr>, False) else (s, True))
      in if timeout
         then if pong_arrived s1
              then s1\<lparr>hc_log := hc_log s1 @ [Ping []], pong_arrived := False\<rparr>
              else let s2 = s1\<lparr>hb_liveness := hb_liveness s1 - 1\<rparr>
                   in if hb_liveness s2 = 0
                      then hcb_restart_process fork (s2\<lparr>hb_liveness := HEARTBEAT_LIVENESS\<rparr>)
                      else s2
         else s1)"

definition hcs_restart_process :: "int \<Rightarrow> hc_server \<Rightarrow> hc_server" where
  "hcs_restart_process fork s =
     s\<lparr>hc_log := hc_log s @ [Kill (hc_pid s)] @ (if fork < 0 then [] else [Exec ''./RSF_server'' [[hc_service s], [server_id s]]]),
       hc_pid := fork\<rparr>"

definition hcs_iter :: "int \<Rightarrow> bool \<Rightarrow> hc_server \<Rightarrow> hc_server" where
  "hcs_iter fork pollin s =
     (let (s1, timeout) =
            (if pollin then (s\<lparr>hb_liveness := HEARTBEAT_LIVENESS, pong_arrived := True\<rparr>, False) else (s, True))
      in if timeout
         then if pong_arrived s1
              then s1\<lparr>hc_log := hc_log s1 @ [Ping []], pong_arrived := False\<rparr>
              else let s2 = s1\<lparr>hb_liveness := hb_liveness s1 - 1\<rparr>
                   in if hb_liveness s2 = 0
                      then hcs_restart_process fork (s2\<lparr>hb_liveness := HEARTBEAT_LIVENESS\<rparr>)
                      else s2
         else s1)"

fun hc_run :: "(int \<Rightarrow> bool \<Rightarrow> 's \<Rightarrow> 's) \<Rightarrow> (int \<times> bool) list \<Rightarrow> 's \<Rightarrow> 's" where
  "hc_run iter [] s = s"
| "hc_run iter ((fork, pollin) # evs) s = hc_run iter evs (iter fork pollin s)"

text \<open>
  The poll before each iteration. Times are in milliseconds; \<open>arr i\<close> is the time at which the
  \<open>i\<close>-th pong gets readable, and the state holds the time and the number of pongs received.
  The poll returns when a pong is readable, or without one when its interval is over.
\<close>

definition hc_poll :: "int \<Rightarrow> (nat \<Rightarrow> int) \<Rightarrow> int \<Rightarrow> nat \<Rightarrow> bool \<times> int \<times> nat" where
  "hc_poll interval arr now i =
     (if arr i \<le> now + interval then (True, max now (arr i), Suc i) else (False, now + interval, i))"

definition hcb_step :: "(nat \<Rightarrow> int) \<Rightarrow> int \<Rightarrow> int \<times> nat \<times> hc \<Rightarrow> int \<times> nat \<times> hc" where
  "hcb_step arr fork =
     (\<lambda>(now, i, s). let (pollin, now', i') = hc_poll HEARTBEAT_INTERVAL arr now i in (now', i', hcb_iter fork pollin s))"

definition hcs_step :: "(nat \<Rightarrow> int) \<Rightarrow> int \<Rightarrow> int \<times> nat \<times> hc_server \<Rightarrow> int \<times> nat \<times> hc_server" where
  "hcs_step arr fork =
     (\<lambda>(now, i, s). let (pollin, now', i') = hc_poll HC_HEARTBEAT_INTERVAL arr now i in (now', i', hcs_iter fork pollin s))"

section \<open>The common contract\<close>

definition kills :: "hc_action list \<Rightarrow> int list" where
  "kills log = List.map_filter (\<lambda>a. case a of Kill p \<Rightarrow> Some p | _ \<Rightarrow> None) log"

definition num_pings :: "hc_action list \<Rightarrow> nat" where
  "num_pings log = length (filter (\<lambda>a. case a of Ping f \<Rightarrow> True | _ \<Rightarrow> False) log)"

lemma log_simps [simp]:
  "kills (as @ bs) = kills as @ kills bs" "kills [] = []" "kills (Ping f # as) = kills as"
  "kills (Kill p # as) = p # kills as" "kills (Exec x y # as) = kills as"
  "num_pings (as @ bs) = num_pings as + num_pings bs" "num_pings [] = 0" "num_pings (Ping f # as) = Suc (num_pings as)"
  "num_pings (Kill p # as) = num_pings as" "num_pings (Exec x y # as) = num_pings as"
  by (simp_all add: kills_def num_pings_def List.map_filter_def)

text \<open>
  How many more silent intervals a checker tolerates: \<open>tolerates n evs\<close> says that in the
  events \<open>evs\<close> the process answers before \<open>n\<close> further timeouts, and afterwards at least once
  in any four intervals.
\<close>

fun tolerates :: "nat \<Rightarrow> bool list \<Rightarrow> bool" where
  "tolerates n [] \<longleftrightarrow> True"
| "tolerates n (True # evs) \<longleftrightarrow> tolerates 3 evs"
| "tolerates n (False # evs) \<longleftrightarrow> 0 < n \<and> tolerates (n - 1) evs"

text \<open>
  The results of \<open>n\<close> polls in a row. When the pongs come in order, a checker tolerates every
  series of polls if and only if the next pong comes before \<open>k + 1\<close> intervals are over and
  each later one at most four intervals after the one before it.
\<close>

primrec poll_series :: "int \<Rightarrow> (nat \<Rightarrow> int) \<Rightarrow> int \<Rightarrow> nat \<Rightarrow> nat \<Rightarrow> bool list" where
  "poll_series I arr now i 0 = []"
| "poll_series I arr now i (Suc n) =
     (let (pollin, now', i') = hc_poll I arr now i in pollin # poll_series I arr now' i' n)"

lemma length_poll_series [simp]: "length (poll_series I arr now i n) = n"
  by (induction n arbitrary: now i) (auto simp: hc_poll_def)

lemma poll_series_tolerated:
  assumes "\<forall>j. arr j \<le> arr (Suc j)" and "\<forall>j\<ge>i. arr (Suc j) \<le> arr j + 4 * I"
    and "now \<le> arr i" and "arr i \<le> now + (int k + 1) * I"
  shows "tolerates k (poll_series I arr now i n)"
  using assms(2-)
proof (induction n arbitrary: now i k)
  case (Suc n)
  show ?case
  proof (cases "arr i \<le> now + I")
    case True
    have "tolerates 3 (poll_series I arr (arr i) (Suc i) n)"
      using Suc.prems(1) assms(1) by (intro Suc.IH) auto
    with True Suc.prems(2) show ?thesis by (simp add: hc_poll_def max_absorb2)
  next
    case False
    with Suc.prems(3) have k: "0 < k" by (cases k) auto
    then have "int (k - 1) + 1 = int k" by simp
    then have "tolerates (k - 1) (poll_series I arr (now + I) i n)"
      using Suc.prems False by (intro Suc.IH) (auto simp: algebra_simps)
    with False k show ?thesis by (simp add: hc_poll_def)
  qed
qed simp

lemma poll_series_next:
  assumes "0 < I" and "now \<le> arr i" and "\<And>n. tolerates k (poll_series I arr now i n)"
  shows "arr i \<le> now + (int k + 1) * I" and "tolerates 3 (poll_series I arr (arr i) (Suc i) n)"
proof -
  have "arr i \<le> now + (int k + 1) * I \<and> (\<forall>n. tolerates 3 (poll_series I arr (arr i) (Suc i) n))"
    using assms(2-)
  proof (induction k arbitrary: now)
    case 0
    from 0(2) [of 1] have "arr i \<le> now + I" by (auto simp: hc_poll_def split: if_splits)
    with 0(1) 0(2) [of "Suc n" for n] show ?case by (simp add: hc_poll_def max_absorb2)
  next
    case (Suc k)
    show ?case
    proof (cases "arr i \<le> now + I")
      case True
      have "I \<le> (int (Suc k) + 1) * I" using assms(1) by simp
      with True Suc.prems(1) Suc.prems(2) [of "Suc n" for n] show ?thesis
        by (simp add: hc_poll_def max_absorb2)
    next
      case False
      with Suc.prems(2) [of "Suc n" for n] Suc.IH [of "now + I"] show ?thesis
        by (simp add: hc_poll_def algebra_simps)
    qed
  qed
  then show "arr i \<le> now + (int k + 1) * I" "tolerates 3 (poll_series I arr (arr i) (Suc i) n)" by simp_all
qed

lemma poll_series_gaps:
  assumes "0 < I" and "\<And>n. tolerates 3 (poll_series I arr (arr i) (Suc i) n)" and "\<forall>j. arr j \<le> arr (Suc j)"
  shows "arr (Suc (i + d)) \<le> arr (i + d) + 4 * I \<and> (\<forall>n. tolerates 3 (poll_series I arr (arr (Suc (i + d))) (Suc (Suc (i + d))) n))"
proof (induction d)
  case 0
  from poll_series_next [of I "arr i" arr "Suc i" 3] assms show ?case by simp
next
  case (Suc d)
  with poll_series_next [of I "arr (Suc (i + d))" arr "Suc (Suc (i + d))" 3] assms show ?case by simp
qed

lemma tolerates_poll_series_iff:
  assumes "0 < I" and "\<forall>j. arr j \<le> arr (Suc j)" and "now \<le> arr i"
  shows "(\<forall>n. tolerates k (poll_series I arr now i n)) \<longleftrightarrow>
     arr i \<le> now + (int k + 1) * I \<and> (\<forall>j\<ge>i. arr (Suc j) \<le> arr j + 4 * I)"
proof (intro iffI conjI allI impI)
  fix j
  assume t: "\<forall>n. tolerates k (poll_series I arr now i n)" and "i \<le> j"
  have "tolerates 3 (poll_series I arr (arr i) (Suc i) n)" for n
    using poll_series_next(2) [of I now arr i k n] assms(1,3) t by blast
  from poll_series_gaps [OF assms(1) this assms(2), of "j - i"]
  have "arr (Suc (i + (j - i))) \<le> arr (i + (j - i)) + 4 * I" by blast
  with \<open>i \<le> j\<close> show "arr (Suc j) \<le> arr j + 4 * I" by simp
qed (use assms poll_series_next(1) [of I now arr i k] poll_series_tolerated [of arr i I now k] in auto)

locale health_checker =
  fixes iter :: "int \<Rightarrow> bool \<Rightarrow> 's \<Rightarrow> 's"
    and live :: "'s \<Rightarrow> nat" and arrived :: "'s \<Rightarrow> bool" and pid :: "'s \<Rightarrow> int"
    and killed :: "'s \<Rightarrow> int list" and pinged :: "'s \<Rightarrow> nat"
  assumes pong: "live (iter f True s) = 3" "arrived (iter f True s)" "pid (iter f True s) = pid s"
      "killed (iter f True s) = killed s" "pinged (iter f True s) = pinged s"
    and ping: "arrived s \<Longrightarrow> live (iter f False s) = live s" "arrived s \<Longrightarrow> \<not> arrived (iter f False s)"
      "arrived s \<Longrightarrow> pid (iter f False s) = pid s" "arrived s \<Longrightarrow> killed (iter f False s) = killed s"
      "arrived s \<Longrightarrow> pinged (iter f False s) = Suc (pinged s)"
    and miss: "\<not> arrived s \<Longrightarrow> 1 < live s \<Longrightarrow> live (iter f False s) = live s - 1"
      "\<not> arrived s \<Longrightarrow> 1 < live s \<Longrightarrow> pid (iter f False s) = pid s"
      "\<not> arrived s \<Longrightarrow> 1 < live s \<Longrightarrow> killed (iter f False s) = killed s"
    and restart: "\<not> arrived s \<Longrightarrow> live s = 1 \<Longrightarrow> live (iter f False s) = 3"
      "\<not> arrived s \<Longrightarrow> live s = 1 \<Longrightarrow> pid (iter f False s) = f"
      "\<not> arrived s \<Longrightarrow> live s = 1 \<Longrightarrow> killed (iter f False s) = killed s @ [pid s]"
    and silent: "\<not> arrived s \<Longrightarrow> \<not> arrived (iter f False s)" "\<not> arrived s \<Longrightarrow> pinged (iter f False s) = pinged s"
begin

definition healthy :: "'s \<Rightarrow> bool" where
  "healthy s \<longleftrightarrow> 1 \<le> live s \<and> live s \<le> 3 \<and> (arrived s \<longrightarrow> live s = 3)"

definition budget :: "'s \<Rightarrow> nat" where
  "budget s = (if arrived s then 3 else live s - 1)"

lemma healthy_iter: "healthy s \<Longrightarrow> healthy (iter f p s)"
  using pong [of f s] ping [of s f] miss [of s f] restart [of s f] silent [of s f]
  by (cases p; cases "arrived s"; cases "live s = 1") (auto simp: healthy_def)

sublocale watched: step_system "\<lambda>s t. \<exists>f p. t = iter f p s" healthy
  by unfold_locales (auto intro: healthy_iter)

lemma run_steps: "(\<lambda>s t. \<exists>f p. t = iter f p s)\<^sup>*\<^sup>* s (hc_run iter evs s)"
proof (induction evs arbitrary: s)
  case (Cons e evs)
  obtain f p where e: "e = (f, p)" by (cases e)
  from Cons [of "iter f p s"] show ?case unfolding e hc_run.simps by (blast intro: converse_rtranclp_into_rtranclp)
qed simp

lemma healthy_run: "healthy s \<Longrightarrow> healthy (hc_run iter evs s)"
  by (rule watched.steps_inv [OF run_steps])

lemma killed_iter_length: "healthy s \<Longrightarrow> length (killed s) \<le> length (killed (iter f p s))"
  using pong [of f s] ping [of s f] miss [of s f] restart [of s f]
  by (cases p; cases "arrived s"; cases "live s = 1") (auto simp: healthy_def)

lemma killed_run_length: "healthy s \<Longrightarrow> length (killed s) \<le> length (killed (hc_run iter evs s))"
proof (induction evs arbitrary: s)
  case (Cons e evs)
  obtain f p where e: "e = (f, p)" by (cases e)
  from Cons.IH [OF healthy_iter [OF Cons.prems, of f p]] killed_iter_length [OF Cons.prems, of f p]
  show ?case by (simp add: e)
qed simp

lemma killed_iff: "healthy s \<Longrightarrow> killed (hc_run iter evs s) = killed s \<longleftrightarrow> tolerates (budget s) (map snd evs)"
proof (induction evs arbitrary: s)
  case (Cons e evs)
  obtain f p where e: "e = (f, p)" by (cases e)
  note next_healthy = healthy_iter [OF Cons.prems]
  show ?case
  proof (cases p)
    case True
    with Cons.IH [OF next_healthy [of f True]] pong [of f s] show ?thesis by (simp add: e budget_def)
  next
    case p: False
    show ?thesis
    proof (cases "arrived s \<or> 1 < live s")
      case True
      then have "killed (iter f False s) = killed s" "budget (iter f False s) = budget s - 1" "0 < budget s"
        using ping [of s f] miss [of s f] silent [of s f] Cons.prems by (auto simp: budget_def healthy_def)
      with Cons.IH [OF next_healthy [of f False]] p show ?thesis by (simp add: e)
    next
      case False
      with Cons.prems have dead: "\<not> arrived s" "live s = 1" by (auto simp: healthy_def)
      then have "length (killed s) < length (killed (hc_run iter evs (iter f False s)))"
        using killed_run_length [OF next_healthy [of f False], of evs] restart [of s f] by simp
      then have "killed (hc_run iter (e # evs) s) \<noteq> killed s" using p by (auto simp: e)
      moreover have "budget s = 0" using dead by (simp add: budget_def)
      ultimately show ?thesis using p by (simp add: e)
    qed
  qed
qed simp

lemma fold_run:
  assumes "\<And>f now i s. step f (now, i, s) =
     (let (pollin, now', i') = hc_poll I arr now i in (now', i', iter f pollin s))"
  shows "snd (snd (fold step fs (now, i, s))) = hc_run iter (zip fs (poll_series I arr now i (length fs))) s"
  using assms by (induction fs arbitrary: now i s) (simp_all split: prod.split)

lemma never_kills_iff:
  assumes "\<And>f now i s. step f (now, i, s) =
      (let (pollin, now', i') = hc_poll I arr now i in (now', i', iter f pollin s))"
    and "healthy s" "0 < I" "\<forall>j. arr j \<le> arr (Suc j)" "now \<le> arr i"
  shows "(\<forall>fs. killed (snd (snd (fold step fs (now, i, s)))) = killed s) \<longleftrightarrow>
     arr i \<le> now + (int (budget s) + 1) * I \<and> (\<forall>j\<ge>i. arr (Suc j) \<le> arr j + 4 * I)"
proof -
  have "(\<forall>fs. killed (snd (snd (fold step fs (now, i, s)))) = killed s) \<longleftrightarrow>
      (\<forall>fs :: int list. tolerates (budget s) (poll_series I arr now i (length fs)))"
    by (simp add: fold_run [OF assms(1)] killed_iff [OF assms(2)])
  also have "\<dots> \<longleftrightarrow> (\<forall>n. tolerates (budget s) (poll_series I arr now i n))"
    by (metis length_replicate)
  finally show ?thesis using tolerates_poll_series_iff [OF assms(3-5)] by simp
qed

lemma three_silent:
  fixes f1 f2 f3
  assumes "\<not> arrived s" "live s = 3" and "pinged s = n" "killed s = ks"
  defines "s' \<equiv> hc_run iter [(f1, False), (f2, False), (f3, False)] s"
  shows "\<not> arrived s' \<and> live s' = 3 \<and> pinged s' = n \<and> killed s' = ks @ [pid s] \<and> pid s' = f3"
  using assms by (simp add: miss restart silent)

lemma silent_forever:
  "\<not> arrived s \<Longrightarrow> live s = 3 \<Longrightarrow>
   pinged (hc_run iter (concat (map (\<lambda>f. [(f, False), (f, False), (f, False)]) fs)) s) = pinged s \<and>
   killed (hc_run iter (concat (map (\<lambda>f. [(f, False), (f, False), (f, False)]) fs)) s) = killed s @ butlast (pid s # fs)"
proof (induction fs arbitrary: s)
  case (Cons f fs)
  let ?s = "hc_run iter [(f, False), (f, False), (f, False)] s"
  have "\<not> arrived ?s \<and> live ?s = 3 \<and> pinged ?s = pinged s \<and> killed ?s = killed s @ [pid s] \<and> pid ?s = f"
    by (rule three_silent [OF Cons.prems refl refl])
  with Cons.IH [of ?s] show ?case by simp
qed simp

end

lemma uint8_pred: "w \<noteq> 0 \<Longrightarrow> unat (w - 1) = unat w - 1" for w :: uint8
  by (simp add: unat_minus_one)

lemma uint8_pred_0_iff: "w - 1 = 0 \<longleftrightarrow> unat w = 1" for w :: uint8
  by (metis diff_eq_eq add_0 unat_1 word_unat_eq_iff)

interpretation broker_checker: health_checker hcb_iter "\<lambda>s. unat (hb_liveness s)" pong_arrived hc_pid
  "\<lambda>s. kills (hc_log s)" "\<lambda>s. num_pings (hc_log s)"
  by unfold_locales
    (auto simp: hcb_iter_def hcb_restart_process_def uint8_pred uint8_pred_0_iff Let_def word_unat_eq_iff)

interpretation server_checker: health_checker hcs_iter "\<lambda>s. unat (hb_liveness s)" pong_arrived hc_pid
  "\<lambda>s. kills (hc_log s)" "\<lambda>s. num_pings (hc_log s)"
  by unfold_locales
    (auto simp: hcs_iter_def hcs_restart_process_def uint8_pred uint8_pred_0_iff Let_def word_unat_eq_iff)

section \<open>One behaviour, two programs\<close>

text \<open>What a checker does, apart from the program it starts.\<close>

fun erase_program :: "hc_action \<Rightarrow> hc_action" where
  "erase_program (Exec prog args) = Exec [] []"
| "erase_program (Ping f) = Ping f"
| "erase_program (Kill p) = Kill p"

definition programs :: "hc_action list \<Rightarrow> (string \<times> byte list list) list" where
  "programs log = List.map_filter (\<lambda>a. case a of Exec prog args \<Rightarrow> Some (prog, args) | _ \<Rightarrow> None) log"

lemma programs_simps [simp]: "programs [] = []" "programs (as @ bs) = programs as @ programs bs"
  "programs (Exec prog args # as) = (prog, args) # programs as" "programs (Ping f # as) = programs as"
  "programs (Kill p # as) = programs as"
  by (simp_all add: programs_def List.map_filter_def)

definition same_watch :: "hc \<Rightarrow> hc_server \<Rightarrow> bool" where
  "same_watch b s \<longleftrightarrow> hc_pid b = hc_pid s \<and> hb_liveness b = hb_liveness s \<and> pong_arrived b = pong_arrived s \<and>
     map erase_program (hc_log b) = map erase_program (hc_log s)"

lemma same_watch_iter: "same_watch b s \<Longrightarrow> same_watch (hcb_iter f p b) (hcs_iter f p s)"
  by (simp add: same_watch_def hcb_iter_def hcs_iter_def hcb_restart_process_def hcs_restart_process_def Let_def)

lemma same_watch_run: "same_watch b s \<Longrightarrow> same_watch (hc_run hcb_iter evs b) (hc_run hcs_iter evs s)"
proof (induction evs arbitrary: b s)
  case (Cons e evs)
  from Cons.IH [OF same_watch_iter [OF Cons.prems, of "fst e" "snd e"]] show ?case by (cases e) simp
qed simp

definition runs_only :: "string \<Rightarrow> byte list list \<Rightarrow> hc_action list \<Rightarrow> bool" where
  "runs_only prog args log \<longleftrightarrow> set (programs log) \<subseteq> {(prog, args)}"

lemma hcb_runs_only: "runs_only ''./RSF_broker'' [c_str ''broker''] (hc_log b) \<Longrightarrow>
    runs_only ''./RSF_broker'' [c_str ''broker''] (hc_log (hc_run hcb_iter evs b))"
proof (induction evs arbitrary: b)
  case (Cons e evs)
  from Cons.prems have "runs_only ''./RSF_broker'' [c_str ''broker''] (hc_log (hcb_iter (fst e) (snd e) b))"
    by (simp add: runs_only_def hcb_iter_def hcb_restart_process_def Let_def)
  from Cons.IH [OF this] show ?case by (cases e) simp
qed simp

lemma hcs_runs_only: "runs_only ''./RSF_server'' [[hc_service s], [server_id s]] (hc_log s) \<Longrightarrow>
    runs_only ''./RSF_server'' [[hc_service s], [server_id s]] (hc_log (hc_run hcs_iter evs s))"
proof (induction evs arbitrary: s)
  case (Cons e evs)
  let ?s = "hcs_iter (fst e) (snd e) s"
  have "hc_service ?s = hc_service s" "server_id ?s = server_id s"
    by (simp_all add: hcs_iter_def hcs_restart_process_def Let_def)
  moreover from Cons.prems have "runs_only ''./RSF_server'' [[hc_service s], [server_id s]] (hc_log ?s)"
    by (simp add: runs_only_def hcs_iter_def hcs_restart_process_def Let_def)
  ultimately have "runs_only ''./RSF_server'' [[hc_service s], [server_id s]] (hc_log (hc_run hcs_iter evs ?s))"
    using Cons.IH [of ?s] by simp
  then show ?case by (cases e) simp
qed simp

text \<open>
  Whenever the checker of a server kills the copy, it starts a new one with the same arguments;
  the first process it kills is the one it watches.
\<close>

lemma hcs_iter_restarts:
  assumes "0 \<le> f"
  shows "\<exists>ks. kills (hc_log (hcs_iter f p s)) = kills (hc_log s) @ ks \<and>
     programs (hc_log (hcs_iter f p s)) = programs (hc_log s) @ replicate (length ks) (''./RSF_server'', [[hc_service s], [server_id s]]) \<and>
     (ks = [] \<and> hc_pid (hcs_iter f p s) = hc_pid s \<or> ks = [hc_pid s])"
  using assms by (cases "p \<or> pong_arrived s \<or> hb_liveness s - 1 \<noteq> 0")
    (auto simp: hcs_iter_def hcs_restart_process_def Let_def)

lemma hcs_run_restarts:
  assumes "\<forall>(f, p) \<in> set evs. 0 \<le> f"
  shows "\<exists>ks. kills (hc_log (hc_run hcs_iter evs s)) = kills (hc_log s) @ ks \<and>
     programs (hc_log (hc_run hcs_iter evs s)) =
       programs (hc_log s) @ replicate (length ks) (''./RSF_server'', [[hc_service s], [server_id s]]) \<and>
     (ks \<noteq> [] \<longrightarrow> hd ks = hc_pid s)"
  using assms
proof (induction evs arbitrary: s)
  case (Cons e evs)
  obtain f p where e: "e = (f, p)" by (cases e)
  let ?s = "hcs_iter f p s"
  have "0 \<le> f" using Cons.prems e by simp
  from hcs_iter_restarts [OF this, of p s] obtain ks where ks: "kills (hc_log ?s) = kills (hc_log s) @ ks"
    "programs (hc_log ?s) = programs (hc_log s) @ replicate (length ks) (''./RSF_server'', [[hc_service s], [server_id s]])"
    "ks = [] \<and> hc_pid ?s = hc_pid s \<or> ks = [hc_pid s]" by blast
  have "hc_service ?s = hc_service s" "server_id ?s = server_id s" by (simp_all add: hcs_iter_def hcs_restart_process_def Let_def)
  with Cons.IH [of ?s] Cons.prems obtain ks' where "kills (hc_log (hc_run hcs_iter evs ?s)) = kills (hc_log ?s) @ ks'"
    "programs (hc_log (hc_run hcs_iter evs ?s)) = programs (hc_log ?s) @ replicate (length ks') (''./RSF_server'', [[hc_service s], [server_id s]])"
    "ks' \<noteq> [] \<longrightarrow> hd ks' = hc_pid ?s" by auto
  with ks show ?case by (intro exI [of _ "ks @ ks'"]) (auto simp: e replicate_add)
qed simp

section \<open>Properties\<close>

text \<open>
  C20: A health checker kills exactly the processes that fall silent: from a state with a
  liveness between 1 and 3 (and 3 right after a pong), it kills nothing over a series of poll
  intervals if and only if the process answers before the remaining liveness runs out and
  then at least once in every four intervals. This holds for the checker of the broker and
  for the checker of a server.
\<close>

theorem checker_kills_iff_silent:
  assumes "1 \<le> unat (hb_liveness b)" "unat (hb_liveness b) \<le> 3" "pong_arrived b \<longrightarrow> hb_liveness b = 3"
    and "1 \<le> unat (hb_liveness s)" "unat (hb_liveness s) \<le> 3" "pong_arrived s \<longrightarrow> hb_liveness s = 3"
  shows "(kills (hc_log (hc_run hcb_iter evs b)) = kills (hc_log b) \<longleftrightarrow>
        tolerates (if pong_arrived b then 3 else unat (hb_liveness b) - 1) (map snd evs)) \<and>
     (kills (hc_log (hc_run hcs_iter evs s)) = kills (hc_log s) \<longleftrightarrow>
        tolerates (if pong_arrived s then 3 else unat (hb_liveness s) - 1) (map snd evs))"
proof
  have "broker_checker.healthy b" "server_checker.healthy s"
    using assms by (auto simp: broker_checker.healthy_def server_checker.healthy_def)
  then show "kills (hc_log (hc_run hcb_iter evs b)) = kills (hc_log b) \<longleftrightarrow>
        tolerates (if pong_arrived b then 3 else unat (hb_liveness b) - 1) (map snd evs)"
    "kills (hc_log (hc_run hcs_iter evs s)) = kills (hc_log s) \<longleftrightarrow>
        tolerates (if pong_arrived s then 3 else unat (hb_liveness s) - 1) (map snd evs)"
    using broker_checker.killed_iff [of b evs] server_checker.killed_iff [of s evs]
    by (simp_all add: broker_checker.budget_def server_checker.budget_def)
qed

definition example_hc_broker :: hc where
  "example_hc_broker = \<lparr>hc_pid = 100, hc_port = 8000, hb_liveness = 3,
     hb_skt = \<lparr>skt_kind = ZMQ_REQ, skt_dir = Connect, endpoint = ''tcp://localhost:8000''\<rparr>,
     pong_arrived = False, hc_log = []\<rparr>"

definition example_hc_server :: hc_server where
  "example_hc_server = hc.extend example_hc_broker (hc_server.fields 1 0)"

lemma example_hc_simps [simp]:
  "hb_liveness example_hc_broker = 3" "\<not> pong_arrived example_hc_broker" "hc_log example_hc_broker = []"
  "hb_liveness example_hc_server = 3" "\<not> pong_arrived example_hc_server" "hc_log example_hc_server = []"
  "hc_pid example_hc_broker = 100"
  by (simp_all add: example_hc_broker_def example_hc_server_def hc.defs hc_server.defs)

theorem checker_kills_iff_silent_witness:
  "kills (hc_log (hc_run hcb_iter [(7, False), (7, False), (7, True), (7, False)] example_hc_broker)) = [] \<and>
   kills (hc_log (hc_run hcs_iter [(7, False), (7, False), (7, True), (7, False)] example_hc_server)) = []"
  using checker_kills_iff_silent [of example_hc_broker example_hc_server "[(7, False), (7, False), (7, True), (7, False)]"]
  by simp

text \<open>
  C32: A process that was restarted is not pinged again until it answers: while a ping is
  outstanding, \<open>k\<close> series of three silent intervals kill the monitored process and its
  \<open>k - 1\<close> successors, and no further ping is sent in all that time.
\<close>

theorem restarted_process_not_pinged:
  assumes "\<not> pong_arrived b" "hb_liveness b = 3"
  shows "num_pings (hc_log (hc_run hcb_iter (concat (map (\<lambda>f. [(f, False), (f, False), (f, False)]) fs)) b)) =
       num_pings (hc_log b) \<and>
     kills (hc_log (hc_run hcb_iter (concat (map (\<lambda>f. [(f, False), (f, False), (f, False)]) fs)) b)) =
       kills (hc_log b) @ butlast (hc_pid b # fs)"
  using broker_checker.silent_forever [of b fs] assms by simp

theorem restarted_process_not_pinged_witness:
  "kills (hc_log (hc_run hcb_iter (concat (map (\<lambda>f. [(f, False), (f, False), (f, False)]) [200, 300])) example_hc_broker)) =
     [100, 200]"
  using restarted_process_not_pinged [of example_hc_broker "[200, 300]"] by simp

text \<open>
  C23: The two health checkers, whose loops are written out twice, do the same on the same poll
  results: started in the same state they send the same pings, kill the same processes and
  start new ones at the same moments, and differ only in the program they start, which is the
  broker for the one and the server copy it watches for the other. They differ in time,
  because they poll with different intervals: when pongs get readable at the times \<open>arr 0\<close>,
  \<open>arr 1\<close> and so on, the checker of the broker never kills if and only if the first comes at
  most 6 s after the start and each other at most 8 s after its predecessor; for the checker
  of a server these bounds are 15 s and 20 s.
\<close>

theorem health_checkers_agree:
  fixes evs :: "(int \<times> bool) list"
  assumes "new_hc_broker pid port = Inr b" and "new_hc_server pid port sid svc = Inr s"
    and "\<forall>i. arr i \<le> arr (Suc i)" and "now \<le> arr 0"
  defines "b' \<equiv> hc_run hcb_iter evs (first_ping b)" and "s' \<equiv> hc_run hcs_iter evs (first_ping s)"
  shows "hc_pid b' = hc_pid s' \<and> hb_liveness b' = hb_liveness s' \<and> pong_arrived b' = pong_arrived s' \<and>
     map erase_program (hc_log b') = map erase_program (hc_log s') \<and>
     set (programs (hc_log b')) \<subseteq> {(''./RSF_broker'', [c_str ''broker''])} \<and>
     set (programs (hc_log s')) \<subseteq> {(''./RSF_server'', [[svc], [sid]])} \<and>
     ((\<forall>fs. kills (hc_log (snd (snd (fold (hcb_step arr) fs (now, 0, first_ping b))))) = []) \<longleftrightarrow>
        arr 0 \<le> now + 6000 \<and> (\<forall>i. arr (Suc i) \<le> arr i + 8000)) \<and>
     ((\<forall>fs. kills (hc_log (snd (snd (fold (hcs_step arr) fs (now, 0, first_ping s))))) = []) \<longleftrightarrow>
        arr 0 \<le> now + 15000 \<and> (\<forall>i. arr (Suc i) \<le> arr i + 20000))"
proof -
  have start: "same_watch (first_ping b) (first_ping s)"
    "runs_only ''./RSF_broker'' [c_str ''broker''] (hc_log (first_ping b))"
    "runs_only ''./RSF_server'' [[hc_service (first_ping s)], [server_id (first_ping s)]] (hc_log (first_ping s))"
    "hc_service (first_ping s) = svc" "server_id (first_ping s) = sid"
    "broker_checker.healthy (first_ping b)" "broker_checker.budget (first_ping b) = 2" "kills (hc_log (first_ping b)) = []"
    "server_checker.healthy (first_ping s)" "server_checker.budget (first_ping s) = 2" "kills (hc_log (first_ping s)) = []"
    using assms(1,2)
    by (auto simp: new_hc_broker_def new_hc_server_def rbind_Inr_iff first_ping_def same_watch_def runs_only_def
      broker_checker.healthy_def broker_checker.budget_def server_checker.healthy_def server_checker.budget_def)
  have "(\<forall>fs. kills (hc_log (snd (snd (fold (hcb_step arr) fs (now, 0, first_ping b))))) = []) \<longleftrightarrow>
      arr 0 \<le> now + 6000 \<and> (\<forall>i. arr (Suc i) \<le> arr i + 8000)"
    using broker_checker.never_kills_iff [of "hcb_step arr" HEARTBEAT_INTERVAL arr "first_ping b" now 0] start assms(3,4)
    by (simp add: hcb_step_def)
  moreover have "(\<forall>fs. kills (hc_log (snd (snd (fold (hcs_step arr) fs (now, 0, first_ping s))))) = []) \<longleftrightarrow>
      arr 0 \<le> now + 15000 \<and> (\<forall>i. arr (Suc i) \<le> arr i + 20000)"
    using server_checker.never_kills_iff [of "hcs_step arr" HC_HEARTBEAT_INTERVAL arr "first_ping s" now 0] start assms(3,4)
    by (simp add: hcs_step_def)
  ultimately show ?thesis
    using same_watch_run [OF start(1), of evs] hcb_runs_only [OF start(2), of evs] hcs_runs_only [OF start(3), of evs] start(4,5)
    unfolding b'_def s'_def same_watch_def runs_only_def by simp
qed

theorem health_checkers_agree_witness:
  "\<exists>b s. new_hc_broker 50 8000 = Inr b \<and> new_hc_server 50 8000 1 0 = Inr s \<and>
     \<not> (\<forall>fs. kills (hc_log (snd (snd (fold (hcb_step (\<lambda>i. 7000 * (int i + 1))) fs (0, 0, first_ping b))))) = []) \<and>
     (\<forall>fs. kills (hc_log (snd (snd (fold (hcs_step (\<lambda>i. 7000 * (int i + 1))) fs (0, 0, first_ping s))))) = [])"
proof -
  obtain b s where new: "new_hc_broker 50 8000 = Inr b" "new_hc_server 50 8000 1 0 = Inr s"
    by (simp add: new_hc_broker_def new_hc_server_def context_init_def)
  with health_checkers_agree [OF new, of "\<lambda>i. 7000 * (int i + 1)" 0] show ?thesis by auto
qed

end
