(* ===== verification/RSF_Deploy.thy ===== *)
theory RSF_Deploy
  imports RSF_Server RSF_Health
begin

text \<open>
  Command lines and deployment: the two \<open>get_arg\<close> functions of \<^verbatim>\<open>src/utilities/util.cpp\<close>,
  the deployment unit \<^verbatim>\<open>src/deployment_unit/deployment_unit.cpp\<close> and the main programs that
  start a server copy and its health checker. \<open>getopt\<close> belongs to the system library: the
  options it reports, with \<open>?\<close> for an error, are an argument. A command line is the list of
  its strings, each a byte list that ends with NUL. What a process starts in a child is listed;
  the deployment unit itself then waits for ever.
\<close>

section \<open>Command lines\<close>

definition atoi :: "string \<Rightarrow> int32 res" where
  "atoi str =
     (let r = dropWhile is_space str;
          neg = (r \<noteq> [] \<and> hd r = CHR ''-'');
          r1 = (if r \<noteq> [] \<and> (hd r = CHR ''-'' \<or> hd r = CHR ''+'') then tl r else r);
          v = int (read_nat (takeWhile is_digit r1))
      in checked_int32 (if neg then - v else v))"

fun get_arg_loop :: "(char \<times> string) list \<Rightarrow> uint8 \<Rightarrow> uint8 \<Rightarrow> uint8 \<Rightarrow> (uint8 \<times> uint8 \<times> uint8) res" where
  "get_arg_loop [] cnt_options num_cp_server svc = Inr (cnt_options, num_cp_server, svc)"
| "get_arg_loop ((c, optarg) # opts) cnt_options num_cp_server svc =
     (let cnt = cnt_options + 1
      in if c = CHR ''n'' then rbind (atoi optarg) (\<lambda>v. get_arg_loop opts cnt (ucast v) svc)
         else if c = CHR ''s'' then rbind (atoi optarg) (\<lambda>v. get_arg_loop opts cnt num_cp_server (ucast v))
         else Inl Exit_Failure)"

definition get_arg :: "'a list \<Rightarrow> (char \<times> string) list \<Rightarrow> uint8 \<Rightarrow> uint8 \<Rightarrow> nat \<Rightarrow> (uint8 \<times> uint8) res" where
  "get_arg argv opts num_cp_server svc num_options =
     (if length argv \<le> 2 then Inl Exit_Failure
      else rbind (get_arg_loop opts 0 num_cp_server svc) (\<lambda>(cnt_options, ncs, s).
        if unat cnt_options \<noteq> num_options then Inl Exit_Failure else Inr (ncs, s)))"

fun get_arg_service_loop :: "(char \<times> string) list \<Rightarrow> uint8 \<Rightarrow> service_type_t \<Rightarrow> (uint8 \<times> service_type_t) res" where
  "get_arg_service_loop [] cnt_options svc = Inr (cnt_options, svc)"
| "get_arg_service_loop ((c, optarg) # opts) cnt_options svc =
     (if c = CHR ''s'' then rbind (atoi optarg) (\<lambda>v. get_arg_service_loop opts (cnt_options + 1) v)
      else Inl Exit_Failure)"

definition get_arg_service :: "'a list \<Rightarrow> (char \<times> string) list \<Rightarrow> service_type_t \<Rightarrow> nat \<Rightarrow> service_type_t res" where
  "get_arg_service argv opts svc num_options =
     (if length argv \<le> 2 then Inl Exit_Failure
      else rbind (get_arg_service_loop opts 0 svc) (\<lambda>(cnt_options, s).
        if unat cnt_options \<noteq> num_options then Inl Exit_Failure else Inr s))"

section \<open>Deployment\<close>

text \<open>
  The copies started before the parent begins to wait: the program with the bytes of the
  service and of the copy as its two arguments. \<open>forked i\<close> says whether the \<open>i\<close>-th
  \<open>fork\<close> succeeds; the loop goes on either way.
\<close>

function deployment_loop :: "(uint8 \<Rightarrow> bool) \<Rightarrow> uint8 \<Rightarrow> uint8 \<Rightarrow> uint8 \<Rightarrow> (uint8 \<times> uint8) list" where
  "deployment_loop forked svc num_copy_server i =
     (if i = num_copy_server then []
      else (if forked i then [(svc, i)] else []) @ deployment_loop forked svc num_copy_server (i + 1))"
  by pat_completeness auto
termination
proof (relation "measure (\<lambda>(_, _, n, i). unat (n - i))")
  fix n i :: uint8
  assume "i \<noteq> n"
  then have "unat (n - i - 1) < unat (n - i)" by (simp add: unat_minus_one unat_gt_0)
  then show "((forked, svc, n, i + 1), (forked, svc, n, i)) \<in> measure (\<lambda>(_, _, n, i). unat (n - i))" for forked svc
    by (simp add: diff_diff_add)
qed simp

declare deployment_loop.simps [simp del]

definition deployment :: "(uint8 \<Rightarrow> bool) \<Rightarrow> uint8 \<Rightarrow> uint8 \<Rightarrow> (uint8 \<times> uint8) list" where
  "deployment forked svc num_copy_server = deployment_loop forked svc num_copy_server 0"

definition deployment_main :: "'a list \<Rightarrow> (char \<times> string) list \<Rightarrow> uint8 \<Rightarrow> uint8 \<Rightarrow> (uint8 \<Rightarrow> bool) \<Rightarrow> (uint8 \<times> uint8) list res" where
  "deployment_main argv opts junk_n junk_s forked =
     rbind (get_arg argv opts junk_n junk_s 2) (\<lambda>(num_copy_server, svc).
       if unat num_copy_server < 1 then Inl Exit_Failure else Inr (deployment forked svc num_copy_server))"

text \<open>
  The process started for a copy: after the \<open>fork\<close> the child becomes the server, started with the
  two arguments of its parent, and the parent its health checker, also when the \<open>fork\<close> failed.
\<close>

datatype hcs_process = Server_Program string "byte list list" | Server_Checker hc_server

definition hc_server_main :: "bool \<Rightarrow> byte list list \<Rightarrow> int \<Rightarrow> hcs_process res" where
  "hc_server_main exec_works argv fork =
     (if length argv < 2 then Inl Exit_Failure
      else rbind (vec_get (argv ! 0) 0) (\<lambda>srv_service.
           rbind (vec_get (argv ! 1) 0) (\<lambda>srv_id.
           if fork = 0
           then if exec_works then Inr (Server_Program ''./RSF_server'' [argv ! 0, argv ! 1]) else Inl Exit_Failure
           else rbind (new_hc_server fork (of_nat (SERVER_PONG_PORT + unat srv_id + unat srv_service * MAX_NMR))
                         srv_id srv_service) (\<lambda>hb. Inr (Server_Checker (first_ping hb))))))"

abbreviation (input) REG_PORT_BROKER :: uint16 where "REG_PORT_BROKER \<equiv> 5555"

definition server_main :: "byte list list \<Rightarrow> byte list \<Rightarrow> timespec \<Rightarrow> uint32 \<Rightarrow> server res" where
  "server_main argv junk_val junk_time junk_id =
     rbind (vec_get argv 0) (\<lambda>a0. rbind (vec_get a0 0) (\<lambda>svc.
     rbind (vec_get argv 1) (\<lambda>a1. rbind (vec_get a1 0) (\<lambda>copy.
       new_server copy svc ''localhost'' REG_PORT_BROKER junk_val junk_time junk_id))))"

section \<open>Lemmas\<close>

lemma deployment_loop_eq:
  assumes "\<forall>j. forked j" "unat i \<le> unat n"
  shows "deployment_loop forked svc n i = map (\<lambda>k. (svc, of_nat k)) [unat i..<unat n]"
  using assms(2)
proof (induction "unat n - unat i" arbitrary: i)
  case 0
  then have "i = n" by (simp add: word_unat_eq_iff)
  then show ?case by (simp add: deployment_loop.simps)
next
  case (Suc d)
  then have less: "unat i < unat n" by simp
  then have u: "unat (i + 1) = Suc (unat i)" using uint8_le [of n] by (simp add: unat_word_ariths)
  from less have "i \<noteq> n" by auto
  then have "deployment_loop forked svc n i = (svc, i) # deployment_loop forked svc n (i + 1)"
    using assms(1) by (subst deployment_loop.simps) simp
  also have "deployment_loop forked svc n (i + 1) = map (\<lambda>k. (svc, of_nat k)) [Suc (unat i)..<unat n]"
    using Suc less u by (metis Suc_leI diff_Suc_1 diff_Suc_eq_diff_pred Suc_diff_Suc)
  finally show ?case using less by (simp add: upt_conv_Cons)
qed

lemma pong_port_unat: "unat (pong_port copy svc) = SERVER_PONG_PORT + unat copy + unat svc * MAX_NMR"
proof -
  have "SERVER_PONG_PORT + unat copy + unat svc * MAX_NMR < 2 ^ 16"
    using uint8_le [of copy] uint8_le [of svc] by simp
  then show ?thesis unfolding pong_port_def unat_of_nat by (simp only: mod_less take_bit_nat_eq_self_iff len_of_numeral_defs) simp
qed

lemma hc_server_main_eq:
  "hc_server_main w [svc # r0, copy # r1] pid =
     (if pid = 0 then if w then Inr (Server_Program ''./RSF_server'' [svc # r0, copy # r1]) else Inl Exit_Failure
      else Inr (Server_Checker (first_ping \<lparr>hc_pid = pid, hc_port = pong_port copy svc, hb_liveness = 3,
       hb_skt = \<lparr>skt_kind = ZMQ_REQ, skt_dir = Connect, endpoint =
         (if pong_port copy svc \<noteq> 0 then ''tcp://'' @ ''localhost'' @ '':'' @ show_nat (unat (pong_port copy svc))
          else ''ipc://'' @ ''localhost'')\<rparr>,
       pong_arrived = False, hc_log = [], server_id = copy, hc_service = svc\<rparr>)))"
  by (simp add: hc_server_main_def new_hc_server_def context_init_def pong_port_def)

lemma hc_port_first_ping [simp]: "hc_port (first_ping s) = hc_port s"
  by (simp add: first_ping_def)

section \<open>Properties\<close>

text \<open>
  C27: The deployment unit called with options \<open>-n\<close> and \<open>-s\<close> starts one health checker per
  copy, numbered from 0, for the requested service; each of them starts a server with the same
  two arguments and watches the port on which that server answers, because both compute it from
  the same two bytes.
\<close>

theorem deployment_starts_all_copies:
  assumes "2 < length argv" and "atoi sn = Inr vn" and "atoi ss = Inr vs" and "1 \<le> unat (ucast vn :: uint8)"
    and "\<forall>i. forked i" and "pid \<noteq> 0"
  shows "\<exists>copies. deployment_main argv [(CHR ''n'', sn), (CHR ''s'', ss)] junk_n junk_s forked = Inr copies \<and>
     copies = map (\<lambda>k. (ucast vs, of_nat k)) [0..<unat (ucast vn :: uint8)] \<and>
     (\<forall>(svc, copy) \<in> set copies.
        hc_server_main True [svc # r0, copy # r1] 0 = Inr (Server_Program ''./RSF_server'' [svc # r0, copy # r1]) \<and>
        (\<exists>hb. hc_server_main w [svc # r0, copy # r1] pid = Inr (Server_Checker hb) \<and>
           (\<forall>s. server_main [svc # r0, copy # r1] jv jt ji = Inr s \<longrightarrow>
           srv_id s = copy \<and> service_type s = ucast svc \<and>
           endpoint (hc_pong s) = ''tcp://*:'' @ show_nat (unat (hc_port hb)))))"
proof -
  let ?n = "ucast vn :: uint8"
  let ?copies = "map (\<lambda>k. (ucast vs, of_nat k)) [0..<unat ?n] :: (uint8 \<times> uint8) list"
  have "deployment_main argv [(CHR ''n'', sn), (CHR ''s'', ss)] junk_n junk_s forked = Inr ?copies"
    using assms deployment_loop_eq [of forked 0 ?n "ucast vs"]
    by (simp add: deployment_main_def get_arg_def deployment_def)
  moreover have "hc_server_main True [svc # r0, copy # r1] 0 = Inr (Server_Program ''./RSF_server'' [svc # r0, copy # r1]) \<and>
        (\<exists>hb. hc_server_main w [svc # r0, copy # r1] pid = Inr (Server_Checker hb) \<and>
           (\<forall>s. server_main [svc # r0, copy # r1] jv jt ji = Inr s \<longrightarrow>
           srv_id s = copy \<and> service_type s = ucast svc \<and>
           endpoint (hc_pong s) = ''tcp://*:'' @ show_nat (unat (hc_port hb))))" for svc copy
  proof -
    have "pong_port copy svc \<noteq> 0" using pong_port_unat [of copy svc] by auto
    then show ?thesis using assms(6)
      by (auto simp: hc_server_main_eq server_main_def new_server_def rbind_Inr_iff)
  qed
  ultimately show ?thesis by blast
qed

theorem deployment_starts_all_copies_witness:
  "\<exists>copies. deployment_main [(), (), (), (), ()] [(CHR ''n'', ''3''), (CHR ''s'', ''1'')] 0 0 (\<lambda>i. True) = Inr copies \<and>
     copies = map (\<lambda>k. (1, of_nat k)) [0..<3]"
proof -
  have "atoi ''3'' = Inr 3" "atoi ''1'' = Inr 1" by code_simp+
  from deployment_starts_all_copies [OF _ this, of "[(), (), (), (), ()]" "\<lambda>i. True" 1 0 0] show ?thesis by simp
qed

text \<open>
  The ports on which server copies answer their health checkers are pairwise different for
  up to \<open>MAX_NMR\<close> copies of every service; one copy more collides with the next service.
\<close>

theorem pong_ports_distinct:
  assumes "unat copy < MAX_NMR" and "unat copy' < MAX_NMR"
  shows "(pong_port copy svc = pong_port copy' svc' \<longleftrightarrow> copy = copy' \<and> svc = svc') \<and>
     (svc + 1 \<noteq> 0 \<longrightarrow> pong_port 5 svc = pong_port 0 (svc + 1))"
proof
  have "pong_port copy svc = pong_port copy' svc' \<longleftrightarrow> unat copy + unat svc * 5 = unat copy' + unat svc' * 5"
    by (simp add: word_unat_eq_iff [of "pong_port copy svc"] pong_port_unat)
  also have "\<dots> \<longleftrightarrow> unat copy = unat copy' \<and> unat svc = unat svc'" using assms by presburger
  finally show "pong_port copy svc = pong_port copy' svc' \<longleftrightarrow> copy = copy' \<and> svc = svc'"
    by (simp add: word_unat_eq_iff)
  have "unat (svc + 1) = Suc (unat svc)" if "svc + 1 \<noteq> 0"
    using that by (metis add.commute unatSuc)
  then show "svc + 1 \<noteq> 0 \<longrightarrow> pong_port 5 svc = pong_port 0 (svc + 1)"
    by (simp add: word_unat_eq_iff [of "pong_port 5 svc"] pong_port_unat)
qed

theorem pong_ports_distinct_witness: "pong_port 2 1 \<noteq> pong_port 1 2 \<and> pong_port 5 0 = pong_port 0 1"
proof -
  have "unat (2 :: uint8) < 5" "unat (1 :: uint8) < 5" by simp_all
  from pong_ports_distinct [OF this, of 1 2] pong_ports_distinct [OF this, of 0 0] show ?thesis by simp
qed

end
