(* ===== verification/RSF_Mains.thy ===== *)
theory RSF_Mains
  imports RSF_Broker RSF_Deploy
begin

text \<open>
  The remaining main programs: the broker (\<^verbatim>\<open>src/broker/broker_test.cpp\<close>), the client
  (\<^verbatim>\<open>src/client/client_test.cpp\<close>) and the health checker of the broker
  (\<^verbatim>\<open>src/health_checker_broker/health_checker_broker.cpp\<close>); those of a server copy are in
  \<open>RSF_Deploy\<close>. A program that ends in an endless loop is modelled up to it. What the client
  prints before it stops, also by an error, is its output.
\<close>

section \<open>Programs\<close>

abbreviation (input) ROUTER_PORT_BROKER :: uint16 where "ROUTER_PORT_BROKER \<equiv> 5559"

abbreviation (input) NMR :: uint8 where "NMR \<equiv> 3"

definition broker_main :: "timespec \<Rightarrow> broker res" where
  "broker_main junk_now = new_broker NMR ROUTER_PORT_BROKER REG_PORT_BROKER junk_now"

text \<open>
  The client's loop: \<open>exchange i\<close> is what comes back for the \<open>i\<close>-th request, \<open>junk i\<close> the bytes
  of the request structure on the stack before it is filled.
\<close>

function client_loop ::
    "(uint8 \<Rightarrow> byte list) \<Rightarrow> (uint8 \<Rightarrow> frame \<Rightarrow> frame option) \<Rightarrow> service_type_t \<Rightarrow> uint8 \<Rightarrow> int32 \<Rightarrow>
     int32 list \<times> unit res" where
  "client_loop junk exchange service i result =
     (if i < 5
      then case request_service (junk i) (exchange i) service result [2] of
             Inl e \<Rightarrow> ([], Inl e)
           | Inr (ret, result') \<Rightarrow>
               (case client_loop junk exchange service (i + 1) result' of
                  (out, end) \<Rightarrow> (if ret then result' # out else out, end))
      else ([], Inr ()))"
  by pat_completeness auto
termination
proof (relation "measure (\<lambda>(_, _, _, i, _). 5 - unat i)")
  fix i :: uint8
  assume "i < 5"
  then have "unat i < 5" by (simp add: word_less_nat_alt)
  then have "unat (i + 1) = Suc (unat i)" by (simp add: unat_word_ariths)
  with \<open>unat i < 5\<close> show "((junk, exchange, service, i + 1, result'), (junk, exchange, service, i, result)) \<in>
      measure (\<lambda>(_, _, _, i, _). 5 - unat i)" for junk exchange service result result'
    by simp
qed simp

declare client_loop.simps [simp del]

definition client_main ::
    "'a list \<Rightarrow> (char \<times> string) list \<Rightarrow> service_type_t \<Rightarrow> int32 \<Rightarrow> (uint8 \<Rightarrow> byte list) \<Rightarrow>
     (uint8 \<Rightarrow> frame \<Rightarrow> frame option) \<Rightarrow> int32 list \<times> unit res" where
  "client_main argv opts junk_svc junk_res junk exchange =
     (case rbind (new_client ''127.0.0.1'' 5559) (\<lambda>client. get_arg_service argv opts junk_svc 1) of
        Inl e \<Rightarrow> ([], Inl e)
      | Inr service \<Rightarrow> client_loop junk exchange service 0 junk_res)"

text \<open>After the \<open>fork\<close> the child runs the broker and the parent watches it; a failed one is not noticed.\<close>

datatype hcb_process = Broker_Program string "byte list list" | Checker hc

definition hc_broker_main :: "bool \<Rightarrow> int \<Rightarrow> hcb_process res" where
  "hc_broker_main exec_works fork =
     (if fork = 0
      then if exec_works then Inr (Broker_Program ''./RSF_broker'' [c_str ''broker'']) else Inl Exit_Failure
      else rbind (new_hc_broker fork BROKER_PONG_PORT) (\<lambda>hcb. Inr (Checker (first_ping hcb))))"

section \<open>Lemmas\<close>

text \<open>What the client prints when it gets the given responses.\<close>

definition available_results :: "response_module list \<Rightarrow> int32 list" where
  "available_results rs =
     map (\<lambda>r. ntohl (rs_result r)) (filter (\<lambda>r. ntohl (rs_status r) \<notin>
       {status_code SERVICE_NOT_RELIABLE, status_code SERVICE_NOT_AVAILABLE}) rs)"

lemma request_message_ok: "length junk = PARAM_SIZE \<Longrightarrow> \<exists>f. request_message junk s [x] = Inr f"
  using length_serialize [of "[x]"] by (simp add: request_message_def strcpy_def Let_def del: serialize.simps)

lemma request_service_response:
  assumes "length junk = PARAM_SIZE" "\<forall>f. exchange f = Some (enc_response r)"
  shows "request_service junk exchange service result [x] =
     Inr (if available_results [r] = [] then (False, result) else (True, hd (available_results [r])))"
proof -
  obtain f where "request_message junk service [x] = Inr f" using request_message_ok [OF assms(1)] by blast
  then show ?thesis using assms(2) by (simp add: request_service_def read_response_def available_results_def)
qed

lemma client_loop_responses:
  assumes "\<forall>i. length (junk i) = PARAM_SIZE" "length rs = 5"
    and "\<forall>i f. i < 5 \<longrightarrow> exchange i f = Some (enc_response (rs ! unat i))"
  shows "unat i \<le> 5 \<Longrightarrow> client_loop junk exchange service i result = (available_results (drop (unat i) rs), Inr ())"
proof (induction "5 - unat i" arbitrary: i result)
  case 0
  then have "unat i = 5" by simp
  then have "\<not> i < 5" "drop (unat i) rs = []" using assms(2) by (simp_all add: word_less_nat_alt)
  then show ?case by (simp add: client_loop.simps available_results_def)
next
  case (Suc n)
  then have less: "i < 5" "unat i < length rs" and next_i: "unat (i + 1) = Suc (unat i)"
    using assms(2) by (simp_all add: word_less_nat_alt unat_word_ariths)
  let ?r = "rs ! unat i"
  have "client_loop junk exchange service (i + 1) result' = (available_results (drop (Suc (unat i)) rs), Inr ())" for result'
    using Suc next_i by simp
  moreover have "available_results (drop (unat i) rs) = available_results [?r] @ available_results (drop (Suc (unat i)) rs)"
    using less(2) by (simp add: available_results_def flip: Cons_nth_drop_Suc)
  moreover have "request_service (junk i) (exchange i) service result [2] =
      Inr (if available_results [?r] = [] then (False, result) else (True, hd (available_results [?r])))"
    using request_service_response assms(1,3) less(1) by metis
  ultimately show ?case using less(1) by (subst client_loop.simps) (simp add: available_results_def)
qed

text \<open>
  The broker and its health checker agree on their ports: for every process identifier
  \<open>fork\<close> may give to the parent, the checker starts with full liveness and one ping, connected
  to the port the broker it started binds for it.
\<close>

lemma broker_checker_watches_broker:
  assumes "fork \<noteq> 0"
  shows "hc_broker_main exec_works 0 = (if exec_works then Inr (Broker_Program ''./RSF_broker'' [c_str ''broker'']) else Inl Exit_Failure) \<and>
    (\<exists>hb. hc_broker_main exec_works fork = Inr (Checker hb) \<and> hc_pid hb = fork \<and> unat (hb_liveness hb) = 3 \<and>
      num_pings (hc_log hb) = 1 \<and> skt_kind (hb_skt hb) = ZMQ_REQ \<and> endpoint (hb_skt hb) = ''tcp://localhost:'' @ show_nat 8000 \<and>
      add_socket ''*'' (hc_port hb) ZMQ_REP Bind = Inr \<lparr>skt_kind = ZMQ_REP, skt_dir = Bind, endpoint = ''tcp://*:'' @ show_nat 8000\<rparr>)"
  using assms by (simp add: hc_broker_main_def new_hc_broker_def context_init_def first_ping_def)

section \<open>Properties\<close>

text \<open>
  C24: The client program ends after exactly five requests and prints, in order, the results of
  the responses that are neither \<open>SERVICE_NOT_RELIABLE\<close> nor \<open>SERVICE_NOT_AVAILABLE\<close>, whatever
  the uninitialised memory it starts from holds. Called without a service it fails before the
  first request.
\<close>

theorem client_prints_available_results:
  assumes "2 < length argv" and "atoi arg = Inr v"
    and "\<forall>i. length (junk i) = PARAM_SIZE" and "length rs = 5"
    and "\<forall>i f. i < 5 \<longrightarrow> exchange i f = Some (enc_response (rs ! unat i))"
  shows "client_main argv [(CHR ''s'', arg)] junk_svc junk_res junk exchange = (available_results rs, Inr ()) \<and>
     client_main argv [] junk_svc junk_res junk exchange = ([], Inl Exit_Failure)"
  using assms client_loop_responses [OF assms(3-5), of 0 v]
  by (simp add: client_main_def new_client_def get_arg_service_def)

theorem client_prints_available_results_witness:
  "client_main [(), (), ()] [(CHR ''s'', ''1'')] 9 8 (\<lambda>i. replicate 100 7)
     (\<lambda>i f. Some (enc_response (if i = 2 then \<lparr>rs_status = htonl 2, rs_result = htonl 5\<rparr>
        else \<lparr>rs_status = htonl 0, rs_result = htonl 4\<rparr>))) = ([4, 4, 4, 4], Inr ())"
proof -
  have "atoi ''1'' = Inr 1" by code_simp
  let ?ok = "\<lparr>rs_status = htonl 0, rs_result = htonl 4\<rparr>"
  let ?rs = "[?ok, ?ok, \<lparr>rs_status = htonl 2, rs_result = htonl 5\<rparr>, ?ok, ?ok] :: response_module list"
  have rs: "\<forall>(i :: uint8) (f :: frame). i < 5 \<longrightarrow> Some (enc_response (if i = 2 then \<lparr>rs_status = htonl 2, rs_result = htonl 5\<rparr>
        else ?ok)) = Some (enc_response (?rs ! unat i))"
  proof (intro allI impI)
    fix i :: uint8 and f :: frame
    assume "i < 5"
    then have "unat i \<in> {0, 1, 2, 3, 4}" by (auto simp: word_less_nat_alt)
    then show "Some (enc_response (if i = 2 then \<lparr>rs_status = htonl 2, rs_result = htonl 5\<rparr>
        else ?ok)) = Some (enc_response (?rs ! unat i))"
      by (auto simp: word_unat_eq_iff)
  qed
  have "available_results ?rs = [4, 4, 4, 4]" by (simp add: available_results_def)
  with client_prints_available_results [OF _ \<open>atoi ''1'' = Inr 1\<close>, of "[(), (), ()]" "\<lambda>i. replicate 100 7" ?rs, OF _ _ _ rs]
  show ?thesis by simp
qed

end
