(* ===== verification/RSF_System.thy ===== *)
theory RSF_System
  imports RSF_Typing RSF_Liveness RSF_Server_Facts RSF_Mains
begin

text \<open>
  The whole system: the broker, server copies with their threads, the reply sockets that hold
  the envelope of the request being served, and a network that may lose, duplicate, delay and
  reorder every message and deliver a dealer message to any copy. Copies start, crash and
  restart at any time, and so does the broker. Besides what the copies send, the broker may
  receive forged replies with any contents, at most \<open>nmr div 2\<close> of them while a request of a client
  is pending: a minority of faulty copies. \<open>ask c\<close> is the service and the argument of the
  requests of client \<open>c\<close>: like the client program, a client always asks the same. The theory
  shows that in every reachable state no client is told a wrong result.
\<close>

section \<open>State and steps\<close>

record node =
  node_server :: server
  node_peer :: "(frame \<times> frame) option"

record system =
  sys_broker :: broker
  sys_nodes :: "node list"
  sys_net :: "(broker_socket \<times> frame list) set"
  sys_replies :: "envelope set"
  sys_forged :: "uint32 \<Rightarrow> nat"

text \<open>
  What a step of a server puts on its reply socket, and what the socket does with it: it goes
  back along the envelope of the request received last, which is then forgotten. A new socket
  starts without one.
\<close>

definition reply_frames :: "server \<Rightarrow> server \<Rightarrow> frame list" where
  "reply_frames s s' = List.map_filter (\<lambda>(k, f, mr). case k of Reply i \<Rightarrow> Some f | HcPong \<Rightarrow> None)
     (drop (length (srv_sent s)) (srv_sent s'))"

definition rep_socket :: "(frame \<times> frame) option \<Rightarrow> server \<Rightarrow> server \<Rightarrow> (frame \<times> frame) option \<times> envelope set" where
  "rep_socket peer s s' =
     (let p = (if next_socket s' = next_socket s then peer else None)
      in case (p, reply_frames s s') of
           (Some (f, e), d # ds) \<Rightarrow> (None, {(f, e, d)})
         | _ \<Rightarrow> (p, {}))"

definition asks :: "(uint32 \<Rightarrow> service_type_t \<times> int32) \<Rightarrow> envelope \<Rightarrow> bool" where
  "asks ask fs \<longleftrightarrow> (case fs of (f, e, d) \<Rightarrow> \<exists>c junk. load 4 1 f = Inr c \<and> length junk = PARAM_SIZE \<and>
     request_message junk (fst (ask c)) [snd (ask c)] = Inr d)"

abbreviation fresh_node :: "server \<Rightarrow> node" where
  "fresh_node s \<equiv> \<lparr>node_server = s, node_peer = None\<rparr>"

definition node_moves :: "system \<Rightarrow> nat \<Rightarrow> (frame \<times> frame) option \<Rightarrow> server \<Rightarrow> system" where
  "node_moves sys n peer s' =
     (case rep_socket peer (node_server (sys_nodes sys ! n)) s' of
        (p, rs) \<Rightarrow> sys\<lparr>sys_nodes := (sys_nodes sys)[n := \<lparr>node_server = s', node_peer = p\<rparr>],
                       sys_replies := sys_replies sys \<union> rs\<rparr>)"

text \<open>
  How many of the replies that arrive for a client were not sent by a copy, counted from the moment
  on when the client began to wait.
\<close>

definition addressed :: "uint32 \<Rightarrow> envelope \<Rightarrow> bool" where
  "addressed c fs \<longleftrightarrow> (case fs of (f, e, d) \<Rightarrow> load 4 1 f = Inr c)"

definition forged_now :: "envelope set \<Rightarrow> envelope option list \<Rightarrow> uint32 \<Rightarrow> nat" where
  "forged_now sent_replies evs c =
     length (filter (\<lambda>ev. case ev of None \<Rightarrow> False | Some fs \<Rightarrow> fs \<notin> sent_replies \<and> addressed c fs) evs)"

definition client_waits :: "broker \<Rightarrow> uint32 \<Rightarrow> bool" where
  "client_waits b c \<longleftrightarrow> (\<exists>s r. services_db (b_db b) s = Some r \<and> c \<in> clients (request_records r))"

definition forged_before :: "system \<Rightarrow> uint32 \<Rightarrow> nat" where
  "forged_before sys c = (if client_waits (sys_broker sys) c then sys_forged sys c else 0)"

definition forged_after :: "system \<Rightarrow> poll_result \<Rightarrow> uint32 \<Rightarrow> nat" where
  "forged_after sys ev c = forged_before sys c + forged_now (sys_replies sys) (ev_dealer ev) c"

definition minority :: "uint8 \<Rightarrow> (uint32 \<Rightarrow> nat) \<Rightarrow> bool" where
  "minority nmr k \<longleftrightarrow> (\<forall>c. k c \<le> unat nmr div 2)"

inductive system_step :: "(uint32 \<Rightarrow> service_type_t \<times> int32) \<Rightarrow> system \<Rightarrow> system \<Rightarrow> bool" for ask where
  broker_iterates: "broker_step env ev (sys_broker sys) = Inr b' \<Longrightarrow> sized_locals env \<Longrightarrow>
    events_ok (asks ask) (\<lambda>fs. True) whole_registration ev \<Longrightarrow> minority (b_nmr (sys_broker sys)) (forged_after sys ev) \<Longrightarrow>
    system_step ask sys (sys\<lparr>sys_broker := b', sys_net := sys_net sys \<union> set (messages (sent b')),
      sys_forged := forged_after sys ev\<rparr>)"
| broker_restarts: "new_broker nmr p_router p_reg now = Inr b' \<Longrightarrow> system_step ask sys (sys\<lparr>sys_broker := b'\<rparr>)"
| server_iterates: "n < length (sys_nodes sys) \<Longrightarrow> ev_request ev = None \<Longrightarrow>
    server_iter env ev (node_server (sys_nodes sys ! n)) = Inr s' \<Longrightarrow>
    system_step ask sys (node_moves sys n (node_peer (sys_nodes sys ! n)) s')"
| server_receives: "n < length (sys_nodes sys) \<Longrightarrow> reg_ok (node_server (sys_nodes sys ! n)) \<Longrightarrow>
    node_peer (sys_nodes sys ! n) = None \<Longrightarrow> (Dealer i, [f, e, d]) \<in> sys_net sys \<Longrightarrow> ev_request ev = Some d \<Longrightarrow>
    server_iter env ev (node_server (sys_nodes sys ! n)) = Inr s' \<Longrightarrow>
    system_step ask sys (node_moves sys n (Some (f, e)) s')"
| thread_finishes: "n < length (sys_nodes sys) \<Longrightarrow> task env start j (node_server (sys_nodes sys ! n)) = Inr s' \<Longrightarrow>
    system_step ask sys (node_moves sys n (node_peer (sys_nodes sys ! n)) s')"
| server_starts: "new_server copy svc address port v t i = Inr s \<Longrightarrow>
    system_step ask sys (sys\<lparr>sys_nodes := sys_nodes sys @ [fresh_node s]\<rparr>)"
| server_restarts: "n < length (sys_nodes sys) \<Longrightarrow> new_server copy svc address port v t i = Inr s \<Longrightarrow>
    system_step ask sys (sys\<lparr>sys_nodes := (sys_nodes sys)[n := fresh_node s]\<rparr>)"

section \<open>A server iteration, seen from its reply socket\<close>

lemma reply_frames_simps [simp]:
  "srv_sent s' = srv_sent s \<Longrightarrow> reply_frames s s' = []"
  "srv_sent s' = srv_sent s @ [(Reply k, f, mr)] \<Longrightarrow> reply_frames s s' = [f]"
  "srv_sent s' = srv_sent s @ [(HcPong, f, mr)] \<Longrightarrow> reply_frames s s' = []"
  "srv_sent s' = srv_sent s @ [(Reply k, f, mr), (HcPong, g, mg)] \<Longrightarrow> reply_frames s s' = [f]"
  by (simp_all add: reply_frames_def List.map_filter_simps)

definition same_service :: "server \<Rightarrow> server \<Rightarrow> bool" where
  "same_service s s' \<longleftrightarrow> service_type s' = service_type s \<and> srv_service s' = srv_service s"

definition quiet :: "server \<Rightarrow> server \<Rightarrow> bool" where
  "quiet s s' \<longleftrightarrow> threads s' = threads s \<and> reply_ptr s' = reply_ptr s \<and>
     next_socket s' = next_socket s \<and> srv_id s' = srv_id s \<and> same_service s s'"

lemma reply_send_effect:
  "reply_send f s = Inr s' \<Longrightarrow> \<exists>k. reply_ptr s = Socket k \<and> s' = s\<lparr>srv_sent := srv_sent s @ [(Reply k, f, False)]\<rparr>"
  by (cases "reply_ptr s") (auto simp: reply_send_def)

lemma create_thread_effect:
  "create_thread s = Inr s' \<Longrightarrow> \<exists>k str. reply_ptr s = Socket k \<and> cstring (srv_val s) = Inr str \<and>
     s' = s\<lparr>threads := threads s @ [\<lparr>st_parameters = str, st_service = srv_service s,
       st_service_type = service_type s, st_id = srv_id s, st_skt = k\<rparr>]\<rparr>"
  by (cases "reply_ptr s") (auto simp: create_thread_def rbind_Inr_iff)

text \<open>One request: a thread is started for it, or an uncounted reply is sent at once.\<close>

lemma serve_request_reply_socket:
  assumes "serve_request env d s = Inr s'"
  obtains (thread) sm str k where "dec_service d = Inr sm" "\<not> sm_heartbeat sm" "cstring (sm_parameters sm) = Inr str"
      "reply_ptr s = Socket k" "threads s' = threads s @ [\<lparr>st_parameters = str, st_service = srv_service s,
         st_service_type = service_type s, st_id = srv_id s, st_skt = k\<rparr>]" "srv_sent s' = srv_sent s"
      "reply_ptr s' = reply_ptr s" "next_socket s' = next_socket s" "same_service s s'"
  | (notice) k rep where "threads s' = threads s" "srv_sent s' = srv_sent s @ [(Reply k, enc_reply rep, False)]"
      "sr_heartbeat rep \<or> sr_duplicated rep"
      "reply_ptr s' = reply_ptr s" "next_socket s' = next_socket s" "same_service s s'"
proof -
  from assms obtain sm where sm: "dec_service d = Inr sm" by (auto simp: serve_request_def receive_request_def rbind_Inr_iff)
  show ?thesis
  proof (cases "sm_heartbeat sm")
    case True
    let ?rep = "(junk_reply env)\<lparr>sr_id := srv_id s, sr_service := htonl (service_type s), sr_heartbeat := True\<rparr>"
    from assms sm True obtain t where "reply_send (enc_reply ?rep) t = Inr s'" "quiet s t" "srv_sent t = srv_sent s"
      by (auto simp: serve_request_def receive_request_def Let_def pong_broker_def postpone_eq quiet_def same_service_def
          split: if_splits)
    then show ?thesis by (auto dest!: reply_send_effect simp: quiet_def same_service_def intro!: notice)
  next
    case False
    with assms sm obtain str where str: "cstring (sm_parameters sm) = Inr str"
      by (auto simp: serve_request_def receive_request_def rbind_Inr_iff)
    let ?rep = "(junk_reply env)\<lparr>sr_id := srv_id s, sr_heartbeat := False, sr_service := htonl (service_type s), sr_duplicated := True\<rparr>"
    from assms sm False str consider
      (started) t where "create_thread t = Inr s'" "quiet s t" "srv_val t = sm_parameters sm" "srv_sent t = srv_sent s"
    | (repeated) t where "reply_send (enc_reply ?rep) t = Inr s'" "quiet s t" "srv_sent t = srv_sent s"
      by (auto simp: serve_request_def receive_request_def Let_def postpone_eq quiet_def same_service_def split: if_splits)
    then show ?thesis
    proof cases
      case started
      from create_thread_effect [OF started(1)] str started show ?thesis
        by (auto simp: quiet_def same_service_def intro!: thread [OF sm False str])
    next
      case repeated
      from reply_send_effect [OF repeated(1)] repeated show ?thesis
        by (auto simp: quiet_def same_service_def intro!: notice)
    qed
  qed
qed

text \<open>A whole iteration. Registering opens a new socket, which no thread holds.\<close>

definition registers :: "server \<Rightarrow> server \<Rightarrow> bool" where
  "registers s s' \<longleftrightarrow> threads s' = threads s \<and> next_socket s' = Suc (next_socket s) \<and>
     reply_ptr s' = Socket (next_socket s) \<and> same_service s s'"

lemma try_register_effect:
  assumes "try_register env reply s = Inr s'"
  shows "quiet s s' \<or> registers s s'" "srv_sent s' = srv_sent s"
proof -
  from assms obtain port io where reg: "registration (srv_registrator s) reply (srv_reg_io s) = Inr (port, io)"
    by (auto simp: try_register_def rbind_Inr_iff)
  show "quiet s s' \<or> registers s s'"
  proof (cases "0 < port \<and> port \<le> 65535")
    case True
    with assms reg have "registers s s'"
      by (auto simp: try_register_def delete_reply_def rbind_Inr_iff postpone_eq registers_def same_service_def Let_def split: if_splits)
    then show ?thesis ..
  next
    case False
    with assms reg have "quiet s s'"
      by (auto simp: try_register_def quiet_def same_service_def split: if_splits)
    then show ?thesis ..
  qed
  show "srv_sent s' = srv_sent s"
    using assms reg by (auto simp: try_register_def delete_reply_def rbind_Inr_iff postpone_eq Let_def split: if_splits)
qed

lemma check_broker_quiet: "quiet s (check_broker env now s)" "srv_sent (check_broker env now s) = srv_sent s"
  by (simp_all add: check_broker_def Let_def postpone_eq quiet_def same_service_def)

lemma quiet_trans: "quiet s t \<Longrightarrow> quiet t u \<Longrightarrow> quiet s u" "registers s t \<Longrightarrow> quiet t u \<Longrightarrow> registers s u"
  "quiet s t \<Longrightarrow> registers t u \<Longrightarrow> registers s u"
  by (auto simp: quiet_def registers_def same_service_def)

lemma reply_frames_pong:
  "srv_sent s' = (if p then srv_sent t @ [(HcPong, [], False)] else srv_sent t) \<Longrightarrow> srv_sent t = srv_sent s @ es \<Longrightarrow>
   reply_frames s s' = reply_frames s t"
  by (simp add: reply_frames_def List.map_filter_def)

lemma server_iter_effect:
  assumes "server_iter env ev s = Inr s'"
  obtains (idle) "reply_frames s s' = []" "quiet s s' \<or> registers s s'"
  | (request) d s0 s1 where "ev_request ev = Some d" "serve_request env d s0 = Inr s1" "quiet s s0"
      "quiet s1 s'" "reply_frames s s' = reply_frames s0 s1"
proof -
  let ?s0 = "s\<lparr>srv_ticks := Suc (srv_ticks s)\<rparr>" and ?now = "s_clk env (srv_ticks s)"
  from assms obtain s1 s3
    where s1: "(if reg_ok s then (case ev_request ev of None \<Rightarrow> Inr ?s0 | Some msg \<Rightarrow> serve_request env msg ?s0)
        else Inr ?s0) = Inr s1"
      and s3: "(let s2 = (if ev_ping ev then srv_pong_health_checker s1 else s1)
        in if \<not> reg_ok s2 then try_register env (ev_reg_reply ev) s2 else Inr s2) = Inr s3"
      and s': "s' = check_broker env ?now s3"
    by (auto simp: server_iter_def srv_clock_def rbind_Inr_iff Let_def)
  let ?s2 = "if ev_ping ev then srv_pong_health_checker s1 else s1"
  have s2: "quiet s1 ?s2" "srv_sent ?s2 = (if ev_ping ev then srv_sent s1 @ [(HcPong, [], False)] else srv_sent s1)"
    "reg_ok ?s2 = reg_ok s1"
    by (simp_all add: srv_pong_health_checker_def quiet_def same_service_def)
  have s2s': "srv_sent s' = srv_sent ?s2" "quiet ?s2 s' \<or> registers ?s2 s'" "reg_ok s1 \<Longrightarrow> quiet ?s2 s'"
    using s3 s2(3) check_broker_quiet [where s = s3 and env = env and now = ?now] try_register_effect [of env "ev_reg_reply ev" ?s2 s3]
    by (auto simp: s' Let_def split: if_splits intro: quiet_trans)
  have q0: "quiet s ?s0" by (simp add: quiet_def same_service_def)
  show ?thesis
  proof (cases "reg_ok s \<and> (\<exists>d. ev_request ev = Some d)")
    case True
    then obtain d where d: "ev_request ev = Some d" "serve_request env d ?s0 = Inr s1" using s1 by auto
    from d(2) have "reg_ok s1" using serve_request_frame [OF d(2)] True by simp
    moreover from d(2) obtain es where "srv_sent s1 = srv_sent s @ es"
      by (elim serve_request_reply_socket) auto
    then have "reply_frames s s' = reply_frames s s1"
      using reply_frames_pong s2(2) s2s'(1) by metis
    moreover have "reply_frames ?s0 s1 = reply_frames s s1" by (simp add: reply_frames_def)
    ultimately show ?thesis using request [OF d q0] s2s'(3) s2(1) by (metis quiet_trans(1))
  next
    case False
    then have "s1 = ?s0" using s1 by (auto split: if_splits option.splits)
    then have "quiet s s' \<or> registers s s'" using s2s'(2) s2(1) q0 by (metis quiet_trans)
    moreover have "reply_frames s s' = []"
      using reply_frames_pong [of s' "ev_ping ev" s1 s "[]"] s2(2) s2s'(1) \<open>s1 = ?s0\<close> by simp
    ultimately show ?thesis by (rule idle [rotated])
  qed
qed

section \<open>Invariants\<close>

text \<open>\<open>expected ask c w\<close>: the service that client \<open>c\<close> asks for maps its argument to \<open>w\<close>.\<close>

definition expected :: "(uint32 \<Rightarrow> service_type_t \<times> int32) \<Rightarrow> uint32 \<Rightarrow> int32 \<Rightarrow> bool" where
  "expected ask c w \<longleftrightarrow> (\<exists>body. get_service_body (fst (ask c)) = Inr body \<and> body (snd (ask c)) = Inr w)"

definition net_ok :: "(uint32 \<Rightarrow> service_type_t \<times> int32) \<Rightarrow> broker_socket \<times> frame list \<Rightarrow> bool" where
  "net_ok ask m \<longleftrightarrow>
     (\<forall>f e d c rs. m = (Router, [f, e, d]) \<and> load 4 1 f = Inr c \<and> dec_response d = Inr rs \<and>
        ntohl (rs_status rs) \<noteq> status_code SERVICE_NOT_RELIABLE \<and>
        ntohl (rs_status rs) \<noteq> status_code SERVICE_NOT_AVAILABLE \<longrightarrow> expected ask c (ntohl (rs_result rs))) \<and>
     (\<forall>i f e d c sm. m = (Dealer i, [f, e, d]) \<and> load 4 1 f = Inr c \<and> dec_service d = Inr sm \<and>
        \<not> sm_heartbeat sm \<longrightarrow> cstring (sm_parameters sm) = Inr (serialize [] [snd (ask c)]))"

definition reply_right :: "(uint32 \<Rightarrow> service_type_t \<times> int32) \<Rightarrow> envelope \<Rightarrow> bool" where
  "reply_right ask fs \<longleftrightarrow> (case fs of (f, e, d) \<Rightarrow>
     \<forall>c rep. load 4 1 f = Inr c \<and> dec_reply d = Inr rep \<and> \<not> sr_heartbeat rep \<and> \<not> sr_duplicated rep \<and>
       ntohl (sr_service rep) = fst (ask c) \<longrightarrow> expected ask c (ntohl (sr_result rep)))"

text \<open>A waiting request holds at most as many wrong results as forged replies have come for its client.\<close>

definition wrong_results :: "(uint32 \<Rightarrow> service_type_t \<times> int32) \<Rightarrow> request_record_t \<Rightarrow> nat" where
  "wrong_results ask q = length (filter (\<lambda>w. \<not> expected ask (client_id q) w) (results q))"

definition pending_right :: "(uint32 \<Rightarrow> service_type_t \<times> int32) \<Rightarrow> (uint32 \<Rightarrow> nat) \<Rightarrow> request_record_t \<Rightarrow> bool" where
  "pending_right ask k q \<longleftrightarrow> wrong_results ask q \<le> k (client_id q)"

definition requests_right :: "(uint32 \<Rightarrow> service_type_t \<times> int32) \<Rightarrow> (uint32 \<Rightarrow> nat) \<Rightarrow> broker \<Rightarrow> bool" where
  "requests_right ask k b \<longleftrightarrow> (\<forall>s r q. services_db (b_db b) s = Some r \<longrightarrow> q \<in> set (request_records r) \<longrightarrow>
     fst (ask (client_id q)) = s \<and> pending_right ask k q)"

definition broker_right ::
    "(uint32 \<Rightarrow> service_type_t \<times> int32) \<Rightarrow> uint8 \<Rightarrow> (uint32 \<Rightarrow> nat) \<Rightarrow> broker \<Rightarrow> bool" where
  "broker_right ask nmr k b \<longleftrightarrow> b_nmr b = nmr \<and> whole (sent b) \<and> (\<forall>m \<in> set (messages (sent b)). net_ok ask m) \<and>
     requests_right ask k b"

lemma majority_expected:
  assumes "majority n (results q) w" "wrong_results ask q \<le> n div 2"
  shows "expected ask (client_id q) w"
proof (rule ccontr)
  assume wrong: "\<not> expected ask (client_id q) w"
  have "count_list xs w \<le> length (filter (\<lambda>w. \<not> expected ask (client_id q) w) xs)" for xs
    by (induction xs) (use wrong in auto)
  with assms show False by (metis majority_def not_le order_trans wrong_results_def)
qed

lemma net_ok_other [simp]: "net_ok ask (Hc, fs)" "net_ok ask (Reg, fs)"
  by (simp_all add: net_ok_def)

lemma net_ok_response:
  "load 4 1 f = Inr c \<Longrightarrow> st = SERVICE_AVAILABLE \<Longrightarrow> expected ask c w \<Longrightarrow> net_ok ask (Router, response_message f e st w)"
  "st \<noteq> SERVICE_AVAILABLE \<Longrightarrow> net_ok ask (Router, response_message f e st w)"
  "net_ok ask (Router, [f, e, enc_response (rs\<lparr>rs_status := htonl 1\<rparr>)])"
  by (cases st; auto simp: net_ok_def)+

lemma net_ok_ping: "sized_locals env \<Longrightarrow> net_ok ask (Dealer i, ping_message env p)"
  by (auto simp: net_ok_def sized_locals_def)

lemma net_ok_forward:
  assumes "asks ask (f, e, d)" "load 4 1 f = Inr c" "dec_request d = Inr rq"
  shows "net_ok ask (Dealer i, forward_message env f e n (rq_parameters rq))" "fst (ask c) = ntohl (rq_service rq)"
proof -
  let ?str = "serialize [] [snd (ask c)]"
  from assms(1,2) obtain junk where junk: "length junk = PARAM_SIZE" "request_message junk (fst (ask c)) [snd (ask c)] = Inr d"
    by (auto simp: asks_def)
  have "length ?str < length junk" using length_serialize [of "[snd (ask c)]"] junk(1) by simp
  then obtain bs where bs: "strcpy junk ?str = Inr (c_str ?str @ bs)" "length (c_str ?str @ bs) = length junk"
    by (rule strcpy_Inr)
  have "d = enc_request (request_for (fst (ask c)) (c_str ?str @ bs))"
    using junk(2) bs(1) by (simp add: request_message_def request_for_def del: serialize.simps)
  with assms(3) bs(2) junk(1) have rq: "rq = request_for (fst (ask c)) (c_str ?str @ bs)"
    by (metis dec_request_for sum.inject(2))
  then show "fst (ask c) = ntohl (rq_service rq)" by (simp add: request_for_def)
  have "cstring (c_str ?str @ bs) = Inr ?str" using serialize_no_NUL by (blast intro: cstring_c_str)
  then have "cstring (rq_parameters rq) = Inr ?str" by (simp add: rq request_for_def del: serialize.simps)
  moreover have "length (rq_parameters rq) = PARAM_SIZE" by (rule request_wire.dec_wf [OF assms(3)])
  ultimately show "net_ok ask (Dealer i, forward_message env f e n (rq_parameters rq))"
    using assms(2) by (auto simp: net_ok_def simp del: serialize.simps)
qed

lemma requests_right_frame [simp]:
  "requests_right ask k (b\<lparr>ticks := n\<rparr>) = requests_right ask k b" "requests_right ask k (b\<lparr>b_now := t\<rparr>) = requests_right ask k b"
  "requests_right ask k (b\<lparr>timeouts := ts\<rparr>) = requests_right ask k b" "requests_right ask k (b\<lparr>sent := es\<rparr>) = requests_right ask k b"
  "requests_right ask k (b\<lparr>sent := es, b_db := db\<rparr>) = requests_right ask k (b\<lparr>b_db := db\<rparr>)"
  by (simp_all add: requests_right_def)

lemma requests_right_cong:
  assumes "requests_right ask k b"
    and "\<And>s r'. services_db (b_db b') s = Some r' \<Longrightarrow> request_records r' = [] \<or>
      (\<exists>r. services_db (b_db b) s = Some r \<and> request_records r' = request_records r)"
  shows "requests_right ask k b'"
  unfolding requests_right_def
proof (intro allI impI)
  fix s r' q assume "services_db (b_db b') s = Some r'" "q \<in> set (request_records r')"
  with assms(2) [OF this(1)] obtain r where "services_db (b_db b) s = Some r" "q \<in> set (request_records r)" by auto
  with assms(1) show "fst (ask (client_id q)) = s \<and> pending_right ask k q" unfolding requests_right_def by blast
qed

lemma requests_right_put:
  assumes "requests_right ask k b" "\<forall>q \<in> set (request_records r). fst (ask (client_id q)) = s \<and> pending_right ask k q"
  shows "requests_right ask k (b\<lparr>b_db := put_record (b_db b) s r\<rparr>)"
  using assms unfolding requests_right_def by auto

lemma requests_right_registration:
  assumes "requests_right ask k b" "whole_registration fs" "get_registration env fs b = Inr b'"
  shows "requests_right ask k b'"
proof -
  from assms(2,3) obtain gs d rm t db' port' ready ret b2
    where push: "push_registration (b_db b) (rm\<lparr>rg_service := t\<rparr>) (available_dealer_port b) = Inr (db', port', ready, ret)"
      and b2: "if ready \<and> t \<notin> set (available_services b)
        then make_available env t ret (b\<lparr>b_db := db', available_dealer_port := port'\<rparr>) = Inr b2
        else b2 = b\<lparr>b_db := db', available_dealer_port := port'\<rparr>"
      and b': "b' = b2\<lparr>sent := sent b @ send_frames Reg (gs @ [le_bytes 2 (htons ret)])\<rparr>"
    by (rule registration_message)
  have db: "b_db b' = db'"
    using b2 by (auto simp: b' make_available_def add_dealer_def clock_gettime_def split: if_splits)
  show ?thesis
  proof (rule requests_right_cong [OF assms(1)])
    fix s r' assume "services_db (b_db b') s = Some r'"
    with push show "request_records r' = [] \<or> (\<exists>r. services_db (b_db b) s = Some r \<and> request_records r' = request_records r)"
      unfolding db by (auto simp: push_registration_def Let_def rbind_Inr_iff split: option.splits if_splits)
  qed
qed

lemma requests_right_mono: "requests_right ask k b \<Longrightarrow> (\<And>c. k c \<le> k' c) \<Longrightarrow> requests_right ask k' b"
  unfolding requests_right_def pending_right_def by (meson order_trans)

text \<open>Storing a result that is wrong needs one more forged reply.\<close>

lemma requests_right_result:
  assumes "requests_right ask k b" "push_result (b_db b) rep c = Inr (db', num)"
    and "\<And>d. k d \<le> k' d" "fst (ask c) = sr_service rep \<Longrightarrow> expected ask c (sr_result rep) \<or> k c < k' c"
  shows "requests_right ask k' (b\<lparr>b_db := db'\<rparr>)"
proof -
  let ?s = "sr_service rep" and ?w = "sr_result rep"
  from assms(2) obtain r where r: "services_db (b_db b) ?s = Some r"
    "db' = put_record (b_db b) ?s (r\<lparr>request_records := fst (push_loop c ?w (request_records r) (- 1))\<rparr>)"
    by (auto simp: push_result_def split: option.splits prod.splits)
  have old: "fst (ask (client_id q)) = ?s" "wrong_results ask q \<le> k (client_id q)" if "q \<in> set (request_records r)" for q
    using assms(1) r(1) that unfolding requests_right_def pending_right_def by blast+
  have "wrong_results ask (q\<lparr>results := results q @ [?w]\<rparr>) \<le> k' c" if q: "q \<in> set (request_records r)" "client_id q = c" for q
    using old [OF q(1)] q(2) assms(3) [of c] assms(4) by (auto simp: wrong_results_def)
  moreover have "wrong_results ask q \<le> k' (client_id q)" if "q \<in> set (request_records r)" for q
    using old(2) [OF that] assms(3) [of "client_id q"] by simp
  ultimately show ?thesis unfolding r(2)
    using old(1) requests_right_mono [OF assms(1,3)]
    by (intro requests_right_put) (auto simp: push_loop_fst pending_right_def)
qed

lemma requests_right_kept:
  assumes "requests_right ask k b" "\<And>t r'. services_db db' t = Some r' \<Longrightarrow>
      \<exists>r. services_db (b_db b) t = Some r \<and> request_records r' = request_records r"
  shows "requests_right ask k (b\<lparr>b_db := db'\<rparr>)"
  by (rule requests_right_cong [OF assms(1)]) (use assms(2) in simp)

lemma register_pong_kept:
  "register_pong db j s = Inr db' \<Longrightarrow> services_db db' t = Some r' \<Longrightarrow>
   \<exists>r. services_db db t = Some r \<and> request_records r' = request_records r"
  by (auto elim!: register_pong_op.operE simp: rbind_Inr_iff split: if_splits)

lemma check_pong_kept:
  "check_pong db s = Inr db' \<Longrightarrow> services_db db' t = Some r' \<Longrightarrow>
   \<exists>r. services_db db t = Some r \<and> request_records r' = request_records r"
  by (auto elim!: check_pong_op.operE dest!: checked_record_requests split: if_splits)

abbreviation tolerable :: "broker_env \<Rightarrow> uint8 \<Rightarrow> (uint32 \<Rightarrow> nat) \<Rightarrow> bool" where
  "tolerable env nmr k \<equiv> sized_locals env \<and> minority nmr k"

lemma broker_right_registration:
  assumes "broker_right ask nmr k b" "whole_registration fs" "get_registration env fs b = Inr b'"
  shows "broker_right ask nmr k b'"
proof -
  from assms(2,3) obtain gs d ret where "sent b' = sent b @ send_frames Reg (gs @ [le_bytes 2 (htons ret)])"
    by (rule registration_message) simp
  moreover from assms(2,3) have "b_nmr b' = b_nmr b"
    by (rule registration_message) (auto simp: make_available_def add_dealer_def clock_gettime_def split: if_splits)
  ultimately show ?thesis using assms requests_right_registration by (auto simp: broker_right_def)
qed

interpretation right: broker_actions env "\<lambda>b. tolerable env nmr k \<longrightarrow> broker_right ask nmr k b"
  "\<lambda>q. tolerable env nmr k \<longrightarrow> pending_right ask k q" "asks ask" "\<lambda>fs. True" whole_registration for env ask nmr k
proof (unfold_locales, goal_cases)
  case (5 b fs b')
  then show ?case using broker_right_registration by blast
next
  case (7 b f e d c rq s r n i q t)
  from net_ok_forward [OF 7(2-4)] 7(5) have fwd: "fst (ask c) = s"
    "net_ok ask (Dealer i, forward_message env f e (seq_id_request r) (rq_parameters rq))" by simp_all
  show ?case
  proof
    assume "tolerable env nmr k"
    with 7(1) have b: "broker_right ask nmr k b" by simp
    then have "\<forall>q \<in> set (request_records r). fst (ask (client_id q)) = s \<and> pending_right ask k q"
      using 7(6) unfolding broker_right_def requests_right_def by blast
    with b fwd 7(9) show "broker_right ask nmr k (b\<lparr>sent := sent b @ concat (replicate n (send_frames (Dealer i)
        (forward_message env f e (seq_id_request r) (rq_parameters rq)))),
        b_db := put_record (b_db b) s (r\<lparr>seq_id_request := seq_id_request r + 1, request_records := request_records r @ [q]\<rparr>)\<rparr>)"
      by (auto simp: broker_right_def pending_right_def wrong_results_def intro!: requests_right_put simp del: send_frames.simps)
  qed
next
  case (9 b j s db')
  then show ?case by (auto simp: broker_right_def intro: requests_right_kept register_pong_kept)
next
  case (10 b s db')
  then show ?case by (auto simp: broker_right_def intro: requests_right_kept check_pong_kept)
next
  case (11 b s r q)
  then show ?case unfolding broker_right_def requests_right_def by blast
next
  case (12 b f c e d s r st w)
  show ?case
  proof
    assume ok: "tolerable env nmr k"
    with 12(1) have b: "broker_right ask nmr k b" by simp
    then have "\<forall>q \<in> set (request_records r). fst (ask (client_id q)) = s \<and> pending_right ask k q"
      using 12(4) unfolding broker_right_def requests_right_def by blast
    then have "requests_right ask k (b\<lparr>b_db := put_record (b_db b) s (r\<lparr>request_records := erase_loop c 0 (request_records r)\<rparr>)\<rparr>)"
      using b set_erase_loop [of c "request_records r"]
      by (intro requests_right_put) (auto simp: broker_right_def)
    moreover have "expected ask c w" if "st = SERVICE_AVAILABLE"
    proof -
      from 12(5) that ok obtain q where q: "pending_right ask k q" "client_id q = c" "majority (unat (b_nmr b)) (results q) w"
        by auto
      then have "wrong_results ask q \<le> unat (b_nmr b) div 2"
        using ok b unfolding pending_right_def minority_def broker_right_def by (metis order_trans)
      with q show ?thesis using majority_expected by blast
    qed
    then have "net_ok ask (Router, response_message f e st w)"
      using 12(5) net_ok_response(1) [OF 12(2)] net_ok_response(2) by blast
    ultimately show "broker_right ask nmr k (b\<lparr>sent := sent b @ send_frames Router (response_message f e st w),
        b_db := put_record (b_db b) s (r\<lparr>request_records := erase_loop c 0 (request_records r)\<rparr>)\<rparr>)"
      using b by (simp add: broker_right_def del: send_frames.simps)
  qed
qed (auto simp: broker_right_def net_ok_response net_ok_ping simp del: send_frames.simps)

text \<open>One reply, and all replies of an iteration: each forged one uses up a part of the allowance.\<close>

lemma forged_now_Cons: "forged_now R (ev # evs) c = forged_now R [ev] c + forged_now R evs c"
  by (simp add: forged_now_def)

lemma forged_now_None [simp]: "forged_now R [None] c = 0" "forged_now R [] c = 0"
  by (simp_all add: forged_now_def)

lemma get_response_right:
  fixes env ask nmr k R f e d
  defines "k' \<equiv> \<lambda>c. k c + forged_now R [Some (f, e, d)] c"
  assumes "get_response env (f, e, d) b = Inr b'" "broker_right ask nmr k b" "tolerable env nmr k'"
    and "\<forall>fs \<in> R. reply_right ask fs"
  shows "broker_right ask nmr k' b'"
proof -
  have le: "\<And>c. k c \<le> k' c" by (simp add: k'_def)
  then have b: "broker_right ask nmr k' b"
    using assms(3) requests_right_mono unfolding broker_right_def by blast
  have "tolerable env nmr k' \<longrightarrow> broker_right ask nmr k' b'"
  proof (rule right.get_response_stored [OF assms(2) TrueI])
    show "tolerable env nmr k' \<longrightarrow> broker_right ask nmr k' b" using b by blast
    fix c :: uint32 and rep :: server_reply_t and db' num
    let ?rep = "rep\<lparr>sr_result := ntohl (sr_result rep), sr_service := ntohl (sr_service rep)\<rparr>"
    assume in_frames: "load 4 1 f = Inr c" "dec_reply d = Inr rep" "\<not> sr_heartbeat rep" "\<not> sr_duplicated rep"
      and push: "push_result (b_db b) ?rep c = Inr (db', num)"
    have "expected ask c (sr_result ?rep) \<or> k c < k' c" if "fst (ask c) = sr_service ?rep"
    proof (cases "(f, e, d) \<in> R")
      case True
      with assms(5) have "reply_right ask (f, e, d)" by blast
      with in_frames that show ?thesis by (simp add: reply_right_def)
    next
      case False
      with in_frames(1) show ?thesis by (simp add: k'_def forged_now_def addressed_def)
    qed
    with requests_right_result [OF _ push le] b assms(3) show "tolerable env nmr k' \<longrightarrow> broker_right ask nmr k' (b\<lparr>b_db := db'\<rparr>)"
      by (simp add: broker_right_def)
  qed
  with assms(4) show ?thesis by blast
qed

lemma minority_mono: "minority nmr k' \<Longrightarrow> (\<And>c. k c \<le> k' c) \<Longrightarrow> minority nmr k"
  unfolding minority_def by (meson order_trans)

lemma dealer_loop_right:
  assumes "dealer_loop env evs b = Inr b'" "broker_right ask nmr k b" "tolerable env nmr (\<lambda>c. k c + forged_now R evs c)"
    and "\<forall>fs \<in> R. reply_right ask fs"
  shows "broker_right ask nmr (\<lambda>c. k c + forged_now R evs c) b'"
  using assms(1-3)
proof (induction evs arbitrary: b k)
  case (Cons ev evs)
  show ?case
  proof (cases ev)
    case None
    with Cons show ?thesis by (simp add: forged_now_Cons [of R None])
  next
    case (Some fs)
    obtain f e d where fs: "fs = (f, e, d)" by (cases fs)
    let ?k = "\<lambda>c. k c + forged_now R [ev] c"
    from Cons.prems(1) obtain b1 where b1: "get_response env (f, e, d) b = Inr b1" "dealer_loop env evs b1 = Inr b'"
      by (auto simp: Some fs rbind_Inr_iff)
    have split: "(\<lambda>c. k c + forged_now R (ev # evs) c) = (\<lambda>c. ?k c + forged_now R evs c)"
      by (simp add: forged_now_Cons [of R ev evs] add.assoc)
    have tol: "tolerable env nmr (\<lambda>c. ?k c + forged_now R evs c)" using Cons.prems(3) unfolding split .
    then have "tolerable env nmr ?k" by (auto intro: minority_mono)
    with get_response_right [OF b1(1) Cons.prems(2), of R] assms(4) have "broker_right ask nmr ?k b1" by (simp add: Some fs)
    from Cons.IH [OF b1(2) this tol] show ?thesis unfolding split .
  qed
qed simp

lemma broker_step_right:
  assumes "broker_step env ev b = Inr b'" "broker_right ask nmr k b" "events_ok (asks ask) (\<lambda>fs. True) whole_registration ev"
    and "tolerable env nmr (\<lambda>c. k c + forged_now R (ev_dealer ev) c)" "\<forall>fs \<in> R. reply_right ask fs"
  shows "broker_right ask nmr (\<lambda>c. k c + forged_now R (ev_dealer ev) c) b'"
proof -
  have "tolerable env nmr k" using assms(4) by (auto intro: minority_mono)
  obtain b4 b5 b6 where b: "tolerable env nmr k \<longrightarrow> broker_right ask nmr k b4" "dealer_loop env (ev_dealer ev) b4 = Inr b5"
    "heartbeat_loop env (length (timeouts b5)) 0 b5 = Inr b6" "check_pending_requests env b6 = Inr b'"
    by (rule right.broker_step_replies [OF assms(1,3), of nmr k]) (use assms(2) in blast)+
  from dealer_loop_right [OF b(2) _ assms(4,5)] b(1) \<open>tolerable env nmr k\<close>
  have "broker_right ask nmr (\<lambda>c. k c + forged_now R (ev_dealer ev) c) b5" by blast
  with right.after_replies [OF _ b(3,4)] assms(4) show ?thesis by blast
qed

text \<open>
  The threads that hold the reply socket of their server: there is at most one, and it computes
  the request whose envelope the socket keeps.
\<close>

definition current_threads :: "server \<Rightarrow> service_thread_t list" where
  "current_threads s = filter (\<lambda>st. reply_ptr s = Socket (st_skt st)) (threads s)"

fun serves_peer :: "(uint32 \<Rightarrow> service_type_t \<times> int32) \<Rightarrow> (frame \<times> frame) option \<Rightarrow> service_thread_t list \<Rightarrow> bool" where
  "serves_peer ask peer [] \<longleftrightarrow> True"
| "serves_peer ask (Some (f, e)) [st] \<longleftrightarrow> (\<forall>c. load 4 1 f = Inr c \<longrightarrow> st_parameters st = serialize [] [snd (ask c)])"
| "serves_peer ask peer sts \<longleftrightarrow> False"

definition node_ok :: "(uint32 \<Rightarrow> service_type_t \<times> int32) \<Rightarrow> node \<Rightarrow> bool" where
  "node_ok ask nd \<longleftrightarrow> server_inv (node_server nd) \<and>
     get_service_body (service_type (node_server nd)) = Inr (srv_service (node_server nd)) \<and>
     serves_peer ask (node_peer nd) (current_threads (node_server nd))"

definition system_right :: "(uint32 \<Rightarrow> service_type_t \<times> int32) \<Rightarrow> system \<Rightarrow> bool" where
  "system_right ask sys \<longleftrightarrow> broker_right ask (b_nmr (sys_broker sys)) (sys_forged sys) (sys_broker sys) \<and> (\<forall>nd \<in> set (sys_nodes sys). node_ok ask nd) \<and>
     (\<forall>m \<in> sys_net sys. net_ok ask m) \<and> (\<forall>fs \<in> sys_replies sys. reply_right ask fs)"

lemma current_threads_registers: "server_inv s \<Longrightarrow> registers s s' \<Longrightarrow> current_threads s' = []"
  by (fastforce simp: registers_def current_threads_def server_inv_def filter_empty_conv)

lemma current_threads_quiet: "quiet s s' \<Longrightarrow> current_threads s' = current_threads s"
  by (simp add: quiet_def current_threads_def)

lemma serves_no_peer: "serves_peer ask None sts \<longleftrightarrow> sts = []"
  by (cases sts) simp_all

lemma reply_right_notice: "sr_heartbeat rep \<or> sr_duplicated rep \<Longrightarrow> reply_right ask (f, e, enc_reply rep)"
  by (auto simp: reply_right_def)

text \<open>A node that moves without replying keeps its envelope, or gets a new socket.\<close>

lemma node_moves_right:
  assumes "system_right ask sys" "n < length (sys_nodes sys)"
    and "rep_socket peer (node_server (sys_nodes sys ! n)) s' = (p, rs)"
    and "node_ok ask \<lparr>node_server = s', node_peer = p\<rparr>" "\<forall>fs \<in> rs. reply_right ask fs"
  shows "system_right ask (node_moves sys n peer s')"
  using assms unfolding system_right_def node_moves_def
  by (auto dest: subsetD [OF set_update_subset_insert])

lemma server_iter_node:
  assumes "node_ok ask \<lparr>node_server = s, node_peer = peer0\<rparr>" "server_iter env ev s = Inr s'"
    and "(ev_request ev = None \<and> peer = peer0) \<or>
      (\<exists>i f e d. ev_request ev = Some d \<and> peer0 = None \<and> peer = Some (f, e) \<and> net_ok ask (Dealer i, [f, e, d]))"
    and "rep_socket peer s s' = (p, rs)"
  shows "node_ok ask \<lparr>node_server = s', node_peer = p\<rparr> \<and> (\<forall>fs \<in> rs. reply_right ask fs)"
proof -
  from assms(1) have s: "server_inv s" "get_service_body (service_type s) = Inr (srv_service s)"
    "serves_peer ask peer0 (current_threads s)" by (simp_all add: node_ok_def)
  have inv: "server_inv s'" by (rule server_iter_inv [OF assms(2) s(1)])
  from assms(2) show ?thesis
  proof (cases rule: server_iter_effect)
    case idle
    from idle(2) have body: "get_service_body (service_type s') = Inr (srv_service s')"
      using s(2) by (auto simp: quiet_def registers_def same_service_def)
    from idle(2) show ?thesis
    proof
      assume q: "quiet s s'"
      with idle(1) assms(4) have p: "p = peer" "rs = {}"
        by (auto simp: rep_socket_def quiet_def split: option.splits)
      have "serves_peer ask p (current_threads s')"
        using assms(3) s(3) by (auto simp: p current_threads_quiet [OF q] serves_no_peer)
      with inv body p show ?thesis by (simp add: node_ok_def)
    next
      assume r: "registers s s'"
      with idle(1) assms(4) have "p = None" "rs = {}"
        by (auto simp: rep_socket_def registers_def)
      with inv body current_threads_registers [OF s(1) r] show ?thesis by (simp add: node_ok_def)
    qed
  next
    case (request d s0 s1)
    with assms(3) obtain i f e where peer: "peer0 = None" "peer = Some (f, e)" "net_ok ask (Dealer i, [f, e, d])" by auto
    then have none: "current_threads s = []" using s(3) by (simp add: serves_no_peer)
    from request(2) show ?thesis
    proof (cases rule: serve_request_reply_socket)
      case (thread sm str k)
      have p: "p = Some (f, e)" "rs = {}"
        using assms(4) peer(2) request(3-5) thread(6,8)
        by (auto simp: rep_socket_def quiet_def)
      have "current_threads s1 = [\<lparr>st_parameters = str, st_service = srv_service s0,
         st_service_type = service_type s0, st_id = srv_id s0, st_skt = k\<rparr>]"
        using none request(3) thread(4,5,7) by (simp add: current_threads_def quiet_def)
      moreover have "str = serialize [] [snd (ask c)]" if "load 4 1 f = Inr c" for c
        using peer(3) that thread(1-3) by (auto simp: net_ok_def simp del: serialize.simps)
      ultimately have "serves_peer ask p (current_threads s')"
        using p(1) current_threads_quiet [OF request(4)] by (simp del: serialize.simps)
      moreover have "get_service_body (service_type s') = Inr (srv_service s')"
        using s(2) request(3,4) thread(9) by (simp add: quiet_def same_service_def)
      ultimately show ?thesis using inv p by (simp add: node_ok_def)
    next
      case (notice k rep)
      have "reply_frames s s' = [enc_reply rep]" using request(5) reply_frames_simps(2) [OF notice(2)] by simp
      then have p: "p = None" "rs = {(f, e, enc_reply rep)}"
        using assms(4) peer(2) request(3,4) notice(5) by (auto simp: rep_socket_def quiet_def)
      have "current_threads s' = []"
        using none current_threads_quiet [OF request(4)] current_threads_quiet [OF request(3)] notice(1,4)
        by (simp add: current_threads_def)
      moreover have "get_service_body (service_type s') = Inr (srv_service s')"
        using s(2) request(3,4) notice(6) by (simp add: quiet_def same_service_def)
      ultimately show ?thesis using inv p reply_right_notice [OF notice(3)] by (simp add: node_ok_def)
    qed
  qed
qed

lemma filter_drop_nth:
  "i < length xs \<Longrightarrow> P (xs ! i) \<Longrightarrow> filter P xs = [x] \<Longrightarrow> filter P (take i xs @ drop (Suc i) xs) = [] \<and> xs ! i = x"
  by (subst (asm) id_take_nth_drop [of i xs]) (auto simp: append_eq_Cons_conv)

lemma filter_nth_nonempty: "i < length xs \<Longrightarrow> P (xs ! i) \<Longrightarrow> filter P xs \<noteq> []"
  by (auto simp: filter_empty_conv)

lemma task_node:
  assumes "node_ok ask \<lparr>node_server = s, node_peer = peer\<rparr>" "task env start i s = Inr s'" "rep_socket peer s s' = (p, rs)"
  shows "node_ok ask \<lparr>node_server = s', node_peer = p\<rparr> \<and> (\<forall>fs \<in> rs. reply_right ask fs)"
proof -
  from assms(1) have s: "server_inv s" "get_service_body (service_type s) = Inr (srv_service s)"
    "serves_peer ask peer (current_threads s)" by (simp_all add: node_ok_def)
  from assms(2) obtain reply where i: "i < length (threads s)" "reply_ptr s = Socket (st_skt (threads s ! i))"
    and reply: "task_reply env (threads s ! i) = Inr reply"
    and s': "s' = s\<lparr>threads := take i (threads s) @ drop (Suc i) (threads s),
      srv_sent := srv_sent s @ [(Reply (st_skt (threads s ! i)), enc_reply reply, False)]\<rparr>"
    by (auto simp: task_def rbind_Inr_iff vec_get_Inr_iff split: if_splits)
  let ?st = "threads s ! i"
  from filter_nth_nonempty [of i "threads s" "\<lambda>st. reply_ptr s = Socket (st_skt st)"] i
  have "current_threads s \<noteq> []" by (simp add: current_threads_def)
  with s(3) obtain f e st where peer: "peer = Some (f, e)" "current_threads s = [st]"
    "\<forall>c. load 4 1 f = Inr c \<longrightarrow> st_parameters st = serialize [] [snd (ask c)]"
    by (cases "(ask, peer, current_threads s)" rule: serves_peer.cases) auto
  from filter_drop_nth [of i "threads s" "\<lambda>st. reply_ptr s = Socket (st_skt st)"] i peer(2)
  have current: "current_threads s' = []" "?st = st" by (auto simp: current_threads_def s')
  have p: "p = None" "rs = {(f, e, enc_reply reply)}"
    using assms(3) peer(1) by (auto simp: rep_socket_def reply_frames_def List.map_filter_simps s')
  have "?st \<in> set (threads s)" using i(1) by simp
  with s(1) have st: "st_service ?st = srv_service s" "st_service_type ?st = service_type s" by (auto simp: server_inv_def)
  have "expected ask c (ntohl (sr_result reply))" if c: "load 4 1 f = Inr c" "ntohl (sr_service reply) = fst (ask c)" for c
  proof -
    have "st_parameters ?st = serialize [] [snd (ask c)]" using peer(3) c(1) current(2) by blast
    moreover obtain u where "deserialize \<lparr>unread = serialize [] [snd (ask c)], failed = False\<rparr> [junk_par env] =
        (\<lparr>unread = u, failed = False\<rparr>, [snd (ask c)])"
      using deserialize_concat [of "[junk_par env]" "[snd (ask c)]" "[]"] by (auto simp: serialize_concat)
    ultimately obtain w where "srv_service s (snd (ask c)) = Inr w" "sr_result reply = htonl w" "sr_service reply = htonl (service_type s)"
      using reply st by (auto simp: task_reply_def rbind_Inr_iff)
    with s(2) c(2) show ?thesis by (simp add: expected_def)
  qed
  then have "reply_right ask (f, e, enc_reply reply)" by (auto simp: reply_right_def)
  moreover have "node_ok ask \<lparr>node_server = s', node_peer = p\<rparr>"
    using s(2) current(1) task_inv [OF assms(2) s(1)] by (simp add: node_ok_def s')
  ultimately show ?thesis by (simp add: p)
qed

lemma fresh_node_ok: "new_server copy svc address port v t i = Inr s \<Longrightarrow> node_ok ask (fresh_node s)"
  using new_server_inv [of copy svc address port v t i s]
  by (auto simp: node_ok_def new_server_def rbind_Inr_iff current_threads_def)

lemma new_broker_right: "new_broker nmr pr pg now = Inr b \<Longrightarrow> broker_right ask (b_nmr b) k b"
  by (auto simp: new_broker_eq broker_right_def requests_right_def init_db_def)

lemma node_ok_nth: "system_right ask sys \<Longrightarrow> n < length (sys_nodes sys) \<Longrightarrow>
    node_ok ask \<lparr>node_server = node_server (sys_nodes sys ! n), node_peer = node_peer (sys_nodes sys ! n)\<rparr>"
  using nth_mem [of n "sys_nodes sys"] by (simp add: system_right_def node_ok_def)

lemma system_step_right: "system_step ask sys sys' \<Longrightarrow> system_right ask sys \<Longrightarrow> system_right ask sys'"
proof (induction rule: system_step.induct)
  case (broker_iterates env ev sys b')
  let ?b = "sys_broker sys"
  have "client_waits ?b (client_id q)" if "services_db (b_db ?b) s = Some r" "q \<in> set (request_records r)" for s r q
    using that by (auto simp: client_waits_def clients_def)
  then have "broker_right ask (b_nmr ?b) (forged_before sys) ?b"
    using broker_iterates(5) unfolding system_right_def broker_right_def requests_right_def pending_right_def forged_before_def
    by simp
  moreover have "forged_after sys ev = (\<lambda>c. forged_before sys c + forged_now (sys_replies sys) (ev_dealer ev) c)"
    by (simp add: forged_after_def fun_eq_iff)
  ultimately have "broker_right ask (b_nmr ?b) (forged_after sys ev) b'"
    using broker_step_right [OF broker_iterates(1) _ broker_iterates(3), of "b_nmr ?b" "forged_before sys" "sys_replies sys"]
      broker_iterates(2,4,5) by (simp add: system_right_def)
  with broker_iterates(5) show ?case by (auto simp: system_right_def broker_right_def)
next
  case (broker_restarts nmr p_router p_reg now b' sys)
  then show ?case using new_broker_right by (simp add: system_right_def)
next
  case (server_iterates n sys ev env s')
  obtain p rs where rep: "rep_socket (node_peer (sys_nodes sys ! n)) (node_server (sys_nodes sys ! n)) s' = (p, rs)" by fastforce
  from server_iter_node [OF node_ok_nth [OF server_iterates(4,1)] server_iterates(3) _ rep] server_iterates(2)
  show ?case by (auto intro: node_moves_right [OF server_iterates(4,1) rep])
next
  case (server_receives n sys i f e d ev env s')
  obtain p rs where rep: "rep_socket (Some (f, e)) (node_server (sys_nodes sys ! n)) s' = (p, rs)" by fastforce
  have "net_ok ask (Dealer i, [f, e, d])" using server_receives(4,7) unfolding system_right_def by blast
  with server_iter_node [OF node_ok_nth [OF server_receives(7,1)] server_receives(6) _ rep] server_receives(3,5)
  show ?case by (blast intro: node_moves_right [OF server_receives(7,1) rep])
next
  case (thread_finishes n sys env start j s')
  obtain p rs where rep: "rep_socket (node_peer (sys_nodes sys ! n)) (node_server (sys_nodes sys ! n)) s' = (p, rs)" by fastforce
  from task_node [OF node_ok_nth [OF thread_finishes(3,1)] thread_finishes(2) rep]
  show ?case by (blast intro: node_moves_right [OF thread_finishes(3,1) rep])
next
  case (server_starts copy svc address port v t i s sys)
  then show ?case using fresh_node_ok by (auto simp: system_right_def)
next
  case (server_restarts n sys copy svc address port v t i s)
  then show ?case using fresh_node_ok
    by (auto simp: system_right_def dest: subsetD [OF set_update_subset_insert])
qed

interpretation system_runs: step_system "system_step ask" "system_right ask" for ask
  by unfold_locales (rule system_step_right)

section \<open>Clients\<close>

text \<open>
  The state a system starts from: nothing has been sent, no request waits, and no copy serves
  one. A new broker without any copies is such a state, but copies may also be registered.
\<close>

definition initial_system :: "system \<Rightarrow> bool" where
  "initial_system sys \<longleftrightarrow> sys_net sys = {} \<and> sys_replies sys = {} \<and> sent (sys_broker sys) = [] \<and>
     (\<forall>s r. services_db (b_db (sys_broker sys)) s = Some r \<longrightarrow> request_records r = []) \<and>
     (\<forall>nd \<in> set (sys_nodes sys). node_peer nd = None \<and> threads (node_server nd) = [] \<and> server_inv (node_server nd) \<and>
        get_service_body (service_type (node_server nd)) = Inr (srv_service (node_server nd)))"

lemma new_system_initial:
  "new_broker nmr pr pg now = Inr b \<Longrightarrow> initial_system \<lparr>sys_broker = b, sys_nodes = [], sys_net = {}, sys_replies = {}, sys_forged = k\<rparr>"
  by (auto simp: initial_system_def new_broker_eq init_db_def)

lemma initial_system_right: "initial_system sys \<Longrightarrow> system_right ask sys"
  by (fastforce simp: initial_system_def system_right_def broker_right_def requests_right_def node_ok_def current_threads_def)

lemma expected_spec:
  assumes "expected ask c w" "ask c = (service_code k, x)" "service_spec k = Some g"
  shows "sint w = g (sint x)"
  using assms get_service_body_spec [OF assms(3)] by (auto simp: expected_def checked_int32_Inr_iff)

lemma reachable_response:
  assumes "initial_system sys0" "(system_step ask)\<^sup>*\<^sup>* sys0 sys" "(Router, [f, e, d]) \<in> sys_net sys" "load 4 1 f = Inr c"
    and "read_response d old = Inr (True, w)"
  shows "expected ask c w"
proof -
  have "system_right ask sys" by (rule system_runs.steps_inv [OF assms(2) initial_system_right [OF assms(1)]])
  then have net: "net_ok ask (Router, [f, e, d])" using assms(3) unfolding system_right_def by blast
  from assms(5) obtain rs where rs: "dec_response d = Inr rs" "ntohl (rs_status rs) \<noteq> status_code SERVICE_NOT_RELIABLE"
    "ntohl (rs_status rs) \<noteq> status_code SERVICE_NOT_AVAILABLE" "w = ntohl (rs_result rs)"
    by (auto simp: read_response_def rbind_Inr_iff split: if_splits)
  from net rs assms(4) show ?thesis unfolding net_ok_def by blast
qed

lemma client_loop_prints:
  assumes "\<forall>i f d old w. exchange i f = Some d \<longrightarrow> read_response d old = Inr (True, w) \<longrightarrow> Q w"
  shows "\<forall>w \<in> set (fst (client_loop junk exchange service i result)). Q w"
  using assms
proof (induction junk exchange service i result rule: client_loop.induct)
  case (1 junk exchange service i result)
  show ?case
  proof (cases "\<exists>ret res. i < 5 \<and> request_service (junk i) (exchange i) service result [2] = Inr (ret, res)")
    case False
    then have "fst (client_loop junk exchange service i result) = []"
      by (subst client_loop.simps) (auto split: sum.splits)
    then show ?thesis by simp
  next
    case True
    then obtain ret res where step: "i < 5" "request_service (junk i) (exchange i) service result [2] = Inr (ret, res)" by blast
    obtain out ended where rest: "client_loop junk exchange service (i + 1) res = (out, ended)" by fastforce
    have "\<forall>w \<in> set out. Q w" using "1.IH" [OF step refl "1.prems"] by (simp add: rest)
    moreover have "Q res" if ret
      using step(2) that "1.prems" by (auto simp: request_service_def rbind_Inr_iff of_option_Inr_iff)
    ultimately show ?thesis using step rest by (subst client_loop.simps) auto
  qed
qed

end
