(* ===== verification/RSF_Example.thy ===== *)
theory RSF_Example
  imports RSF_System
begin

text \<open>
  A run of the whole system, step by step on concrete states: client 9 asks the example broker for
  the increment of 2, a registered copy serves the request, a forged reply arrives first, and the
  network delivers the reply of the copy twice, which is a majority of three. The clock of the
  broker stands still.
\<close>

section \<open>The broker\<close>

definition standing_env :: broker_env where
  "standing_env = example_env\<lparr>clk := (\<lambda>_. \<lparr>tv_sec = 100, tv_nsec = 0\<rparr>)\<rparr>"

lemma standing_env_simps [simp]: "clk standing_env n = \<lparr>tv_sec = 100, tv_nsec = 0\<rparr>" "routable standing_env f"
  "junk_request standing_env = junk_request example_env" "junk_service standing_env = junk_service example_env"
  by (simp_all add: standing_env_def example_env_def)

lemma sized_standing_env: "sized_locals standing_env"
  by (simp add: sized_locals_def example_env_def)

definition example_question :: "byte list \<Rightarrow> poll_result" where
  "example_question params = \<lparr>ev_hc = False, ev_reg = None,
     ev_router = Some (client_frame 9, [], enc_request (request_for 0 params)), ev_dealer = []\<rparr>"

definition forged_reply :: "server_reply_t \<Rightarrow> server_reply_t" where
  "forged_reply rep = rep\<lparr>sr_result := htonl 7\<rparr>"

definition example_answers :: "server_reply_t \<Rightarrow> poll_result" where
  "example_answers rep = \<lparr>ev_hc = False, ev_reg = None, ev_router = None,
     ev_dealer = [Some (client_frame 9, [], enc_reply (forged_reply rep)), Some (client_frame 9, [], enc_reply rep),
       Some (client_frame 9, [], enc_reply rep)]\<rparr>"

lemma example_record_simps [simp]: "num_copies_reliable example_record = 3" "dealer_skt_index example_record = 0"
  "seq_id_request example_record = 0" "request_records example_record = []"
  by (simp_all add: example_record_def)

text \<open>Nothing is due at the standing clock.\<close>

lemma nothing_due:
  assumes "b_now b = \<lparr>tv_sec = 100, tv_nsec = 0\<rparr>" "timeouts b = [\<lparr>tv_sec = 102, tv_nsec = 0\<rparr>]" "available_services b = [0]"
    and "services_db (b_db b) 0 = Some r" "\<forall>q \<in> set (request_records r). rr_timeout q = \<lparr>tv_sec = 105, tv_nsec = 0\<rparr>"
  shows "rbind (heartbeat_loop standing_env (length (timeouts b)) 0 b) (check_pending_requests standing_env) =
    Inr (b\<lparr>ticks := Suc (ticks b)\<rparr>)"
proof -
  have "heartbeat_loop standing_env (length (timeouts b)) 0 b = Inr b"
    using assms(1,2) by (simp add: time_cmp_def vec_get_def)
  moreover have "pending_inner standing_env \<lparr>tv_sec = 100, tv_nsec = 0\<rparr> 0 qs res a = Inr (res, a)"
    if "\<forall>q \<in> set qs. rr_timeout q = \<lparr>tv_sec = 105, tv_nsec = 0\<rparr>" for qs res and a :: broker
    using that by (induction qs) (simp_all add: time_cmp_def)
  ultimately show ?thesis
    using assms(3-5) by (simp add: check_pending_requests_def clock_gettime_def get_pending_requests_def)
qed

lemma example_forward:
  assumes "length params = PARAM_SIZE"
  obtains b1 q where "broker_step standing_env (example_question params) (example_broker []) = Inr b1"
    "sent b1 = concat (replicate 3 (send_frames (Dealer 0)
       [client_frame 9, [], enc_service (forwarded standing_env example_record params)]))"
    "services_db (b_db b1) 0 = Some (example_record\<lparr>seq_id_request := 1, request_records := [q]\<rparr>)"
    "client_id q = 9" "results q = []" "rr_timeout q = \<lparr>tv_sec = 105, tv_nsec = 0\<rparr>"
    "timeouts b1 = [\<lparr>tv_sec = 102, tv_nsec = 0\<rparr>]" "available_services b1 = [0]" "b_nmr b1 = 3"
proof -
  let ?b = "(example_broker [])\<lparr>ticks := Suc 0, b_now := \<lparr>tv_sec = 100, tv_nsec = 0\<rparr>\<rparr>"
  let ?q = "(junk_request example_env)\<lparr>client_id := 9, results := [], rr_timeout := \<lparr>tv_sec = 105, tv_nsec = 0\<rparr>\<rparr>"
  let ?log = "concat (replicate 3 (send_frames (Dealer 0)
    [client_frame 9, [], enc_service (forwarded standing_env example_record params)]))"
  obtain t where t: "timeouts (example_broker []) = [t]" by (simp add: example_broker_def)
  define b1 where "b1 = ?b\<lparr>sent := ?log,
        b_db := put_record (b_db ?b) 0 (example_record\<lparr>seq_id_request := 1, request_records := [?q]\<rparr>),
        timeouts := [\<lparr>tv_sec = 102, tv_nsec = 0\<rparr>], ticks := Suc (Suc (Suc 0))\<rparr>"
  have "get_request standing_env (client_frame 9, [], enc_request (request_for 0 params)) ?b = Inr b1"
    using get_request_eq [of "client_frame 9" 9 params ?b 0 example_record standing_env "[]"] assms
    by (simp add: b1_def t time_add_ms_def del: send_frames.simps)
  then have "broker_step standing_env (example_question params) (example_broker []) =
      rbind (heartbeat_loop standing_env (length (timeouts b1)) 0 b1) (check_pending_requests standing_env)"
    by (simp add: broker_step_def example_question_def clock_gettime_def)
  also have "\<dots> = Inr (b1\<lparr>ticks := Suc (ticks b1)\<rparr>)"
    by (rule nothing_due) (auto simp: b1_def)
  finally show ?thesis
    by (rule that [where q = ?q]) (simp_all add: b1_def del: send_frames.simps)
qed

lemma example_vote:
  assumes "services_db (b_db b) 0 = Some (example_record\<lparr>seq_id_request := 1, request_records := [q]\<rparr>)"
    and "client_id q = 9" "results q = []" "rr_timeout q = \<lparr>tv_sec = 105, tv_nsec = 0\<rparr>"
    and "timeouts b = [\<lparr>tv_sec = 102, tv_nsec = 0\<rparr>]" "available_services b = [0]" "b_nmr b = 3"
    and "\<not> sr_heartbeat rep" "\<not> sr_duplicated rep" "sr_service rep = htonl 0" "ntohl (sr_result rep) = w" "w \<noteq> 7"
  obtains b2 where "broker_step standing_env (example_answers rep) b = Inr b2"
    "sent b2 = sent b @ send_frames Router (response_message (client_frame 9) [] SERVICE_AVAILABLE w)"
proof -
  let ?r = "example_record\<lparr>seq_id_request := 1, request_records := [q]\<rparr>"
  let ?b = "b\<lparr>ticks := Suc (ticks b), b_now := \<lparr>tv_sec = 100, tv_nsec = 0\<rparr>\<rparr>"
  let ?f = "(client_frame 9, [], enc_reply rep)" and ?g = "(client_frame 9, [], enc_reply (forged_reply rep))"
  let ?b1 = "?b\<lparr>b_db := put_record (b_db b) 0 (?r\<lparr>request_records := [q\<lparr>results := [7]\<rparr>]\<rparr>)\<rparr>"
  let ?b2 = "?b\<lparr>b_db := put_record (b_db b) 0 (?r\<lparr>request_records := [q\<lparr>results := [7, w]\<rparr>]\<rparr>)\<rparr>"
  let ?b3 = "?b\<lparr>sent := sent b @ send_frames Router (response_message (client_frame 9) [] SERVICE_AVAILABLE w),
    b_db := put_record (b_db b) 0 (?r\<lparr>request_records := []\<rparr>)\<rparr>"
  have one: "get_response standing_env ?g ?b = Inr ?b1"
    using assms by (simp add: get_response_def push_result_def forged_reply_def)
  have "\<forall>v. \<not> majority (unat (3 :: uint8)) [7, w] v" using assms(12) by (simp add: majority_def)
  then have "vote 3 [7, w] (junk_result standing_env) = Some (- 1, junk_result standing_env)" by (simp add: vote_no_majority)
  then have two: "get_response standing_env ?f ?b1 = Inr ?b2"
    using assms by (simp add: get_response_def push_result_def get_result_def)
  have "majority (unat (3 :: uint8)) [7, w, w] w" by (simp add: majority_def)
  from vote_majority [OF _ this] obtain i where "vote 3 [7, w, w] (junk_result standing_env) = Some (int i, w)" by fastforce
  then have three: "get_response standing_env ?f ?b2 = Inr ?b3"
    using assms by (simp add: get_response_def push_result_def get_result_def answer_client_def router_send_def
        delete_request_def erase_loop.simps)
  have "broker_step standing_env (example_answers rep) b =
      rbind (heartbeat_loop standing_env (length (timeouts ?b3)) 0 ?b3) (check_pending_requests standing_env)"
    using one two three by (simp add: broker_step_def example_answers_def clock_gettime_def)
  also have "\<dots> = Inr (?b3\<lparr>ticks := Suc (ticks ?b3)\<rparr>)"
    by (rule nothing_due) (use assms in auto)
  finally show ?thesis by (rule that) (simp del: send_frames.simps)
qed

section \<open>The server\<close>

lemma rep_socket_thread: "next_socket s' = next_socket s \<Longrightarrow> srv_sent s' = srv_sent s \<Longrightarrow> rep_socket peer s s' = (peer, {})"
  by (auto simp: rep_socket_def split: option.splits)

lemma rep_socket_reply:
  "next_socket s' = next_socket s \<Longrightarrow> srv_sent s' = srv_sent s @ [(Reply k, d, mr)] \<Longrightarrow>
   rep_socket (Some (f, e)) s s' = (None, {(f, e, d)})"
  by (simp add: rep_socket_def)

lemma example_serve:
  assumes "reg_ok s" "reply_ptr s = Socket 0" "request_id s = 0" "threads s = []" "service_type s = 0" "srv_service s = increment"
    and "well_formed_request sm" "parameters_of sm = serialize [] [2]"
  obtains s' where "server_iter example_senv \<lparr>ev_request = Some (enc_service sm), ev_ping = False, ev_reg_reply = None\<rparr> s = Inr s'"
    "rep_socket (Some (client_frame 9, [])) s s' = (Some (client_frame 9, []), {})" "reply_ptr s' = Socket 0"
    "threads s' = [\<lparr>st_parameters = serialize [] [2], st_service = increment, st_service_type = 0, st_id = srv_id s, st_skt = 0\<rparr>]"
proof -
  let ?s0 = "s\<lparr>srv_ticks := Suc (srv_ticks s)\<rparr>" and ?now = "s_clk example_senv (srv_ticks s)"
  have "reply_ptr ?s0 = Socket 0" using assms(2) by simp
  from assms(7) this show ?thesis
  proof (cases rule: serve_request_cases [where env = example_senv])
    case (executed s1)
    have "reg_ok s1" using serve_request_frame [OF executed(2)] assms(1) by simp
    then have iter: "server_iter example_senv \<lparr>ev_request = Some (enc_service sm), ev_ping = False, ev_reg_reply = None\<rparr> s =
        Inr (check_broker example_senv ?now s1)"
      using executed(2) assms(1) by (simp add: server_iter_def srv_clock_def)
    have "next_socket s1 = next_socket s" using executed(2) by (cases rule: serve_request_reply_socket) simp_all
    with executed(5) show ?thesis
      using check_broker_quiet [where s = s1 and env = example_senv and now = ?now] executed(3,6) assms(4-6,8)
      by (intro that [OF iter] rep_socket_thread) (simp_all add: quiet_def)
  next
    case (rejected s1 rep)
    with assms(3) show ?thesis by simp
  qed
qed

lemma example_task:
  assumes "threads s = [\<lparr>st_parameters = serialize [] [2], st_service = increment, st_service_type = 0, st_id = i, st_skt = 0\<rparr>]"
    and "reply_ptr s = Socket 0"
  obtains s' rep where "task example_senv 0 0 s = Inr s'" "\<not> sr_heartbeat rep" "\<not> sr_duplicated rep" "sr_service rep = htonl 0"
    "ntohl (sr_result rep) = 3"
    "rep_socket (Some (client_frame 9, [])) s s' = (None, {(client_frame 9, [], enc_reply rep)})"
proof -
  let ?st = "\<lparr>st_parameters = serialize [] [2], st_service = increment, st_service_type = 0, st_id = i, st_skt = 0\<rparr>"
  let ?rep = "(junk_reply example_senv)\<lparr>sr_id := i, sr_heartbeat := False, sr_result := htonl 3, sr_service := htonl 0, sr_duplicated := False\<rparr>"
  have "get_service_body 0 = Inr increment" by (simp add: get_service_body_def service_kind_of_def)
  then have reply: "task_reply example_senv ?st = Inr ?rep"
    using task_reply_service [of INCREMENT "\<lambda>x. x + 1" ?st 2 3 example_senv] by (simp del: serialize.simps)
  have wait: "busy_wait (s_clk example_senv) 0 500 = Some 1"
    by (simp add: busy_wait_def busy_wait_loop.simps example_senv_def time_add_ms_def time_cmp_def)
  let ?s = "s\<lparr>threads := [], srv_sent := srv_sent s @ [(Reply 0, enc_reply ?rep, False)]\<rparr>"
  have "task example_senv 0 0 s = Inr ?s"
    using assms reply wait by (simp add: task_def vec_get_def del: serialize.simps)
  then show ?thesis by (rule that [of _ ?rep]) (simp_all add: rep_socket_reply [where k = 0 and mr = False])
qed

section \<open>The run\<close>

definition example_ask :: "uint32 \<Rightarrow> service_type_t \<times> int32" where
  "example_ask c = (0, 2)"

lemma example_run:
  obtains sys0 sys where "initial_system sys0" "(system_step example_ask)\<^sup>*\<^sup>* sys0 sys"
    "(Router, response_message (client_frame 9) [] SERVICE_AVAILABLE 3) \<in> sys_net sys" "sys_forged sys 9 = 1"
proof -
  obtain s0 srv where srv: "new_server 1 0 ''localhost'' 5555 [] \<lparr>tv_sec = 0, tv_nsec = 0\<rparr> 0 = Inr s0"
    "server_step example_senv s0 srv" "reg_ok srv" "reply_ptr srv = Socket 0" "request_id srv = 0"
    "threads srv = []" "service_type srv = 0" "srv_service srv = increment" by (rule example_server_eq)
  have inv: "server_inv srv"
    by (rule server_loop.steps_inv [OF _ new_server_inv [OF srv(1)]]) (use srv(2) in blast)
  let ?str = "serialize [] [2]"
  have "length ?str < length (replicate 100 (0 :: byte))" using length_serialize [of "[2]"] by simp
  then obtain bs where bs: "strcpy (replicate 100 0) ?str = Inr (c_str ?str @ bs)"
    "length (c_str ?str @ bs) = length (replicate 100 (0 :: byte))" by (rule strcpy_Inr)
  let ?ps = "c_str ?str @ bs" and ?sm = "forwarded standing_env example_record (c_str ?str @ bs)"
  have len: "length ?ps = PARAM_SIZE" using bs(2) by simp
  have "cstring ?ps = Inr ?str" using serialize_no_NUL by (blast intro: cstring_c_str)
  with len have sm: "well_formed_request ?sm" "parameters_of ?sm = ?str"
    by (auto simp: forwarded_def well_formed_request_def parameters_of_def c_str_def)
  have "request_message (replicate 100 0) 0 [2] = Inr (enc_request (request_for 0 ?ps))"
    using bs(1) by (simp add: request_message_def request_for_def del: serialize.simps)
  then have asks: "asks example_ask (client_frame 9, [], enc_request (request_for 0 ?ps))"
    by (auto simp: asks_def example_ask_def intro!: exI [of _ "replicate 100 0"] simp del: serialize.simps)
  from len obtain b1 q where b1: "broker_step standing_env (example_question ?ps) (example_broker []) = Inr b1"
    "sent b1 = concat (replicate 3 (send_frames (Dealer 0) [client_frame 9, [], enc_service ?sm]))"
    "services_db (b_db b1) 0 = Some (example_record\<lparr>seq_id_request := 1, request_records := [q]\<rparr>)"
    "client_id q = 9" "results q = []" "rr_timeout q = \<lparr>tv_sec = 105, tv_nsec = 0\<rparr>"
    "timeouts b1 = [\<lparr>tv_sec = 102, tv_nsec = 0\<rparr>]" "available_services b1 = [0]" "b_nmr b1 = 3"
    by (rule example_forward)
  from srv(3-8) sm obtain s1 where s1: "server_iter example_senv
      \<lparr>ev_request = Some (enc_service ?sm), ev_ping = False, ev_reg_reply = None\<rparr> srv = Inr s1"
    "rep_socket (Some (client_frame 9, [])) srv s1 = (Some (client_frame 9, []), {})" "reply_ptr s1 = Socket 0"
    "threads s1 = [\<lparr>st_parameters = ?str, st_service = increment, st_service_type = 0, st_id = srv_id srv, st_skt = 0\<rparr>]"
    by (rule example_serve)
  from s1(4,3) obtain s2 rep where s2: "task example_senv 0 0 s1 = Inr s2" "\<not> sr_heartbeat rep" "\<not> sr_duplicated rep"
    "sr_service rep = htonl 0" "ntohl (sr_result rep) = 3"
    "rep_socket (Some (client_frame 9, [])) s1 s2 = (None, {(client_frame 9, [], enc_reply rep)})"
    by (rule example_task)
  have "(3 :: int32) \<noteq> 7" by simp
  with b1(3-9) s2(2-5) obtain b2 where b2: "broker_step standing_env (example_answers rep) b1 = Inr b2"
    "sent b2 = sent b1 @ send_frames Router (response_message (client_frame 9) [] SERVICE_AVAILABLE 3)"
    by (rule example_vote)
  let ?g = "(client_frame 9, [], enc_reply (forged_reply rep))"
  have "enc_reply (forged_reply rep) \<noteq> enc_reply rep"
  proof
    assume "enc_reply (forged_reply rep) = enc_reply rep"
    then have "forged_reply rep = rep" by (metis reply_wire.dec_enc sum.inject(2))
    then have "sr_result (forged_reply rep) = sr_result rep" by simp
    with s2(5) show False by (auto simp: forged_reply_def long.ntoh_eq_swap)
  qed
  let ?net1 = "set (messages (sent b1))" and ?r = "(client_frame 9, [], enc_reply rep)"
  let ?sys0 = "\<lparr>sys_broker = example_broker [], sys_nodes = [fresh_node srv], sys_net = {}, sys_replies = {}, sys_forged = (\<lambda>_. 0)\<rparr>"
  let ?sys1 = "\<lparr>sys_broker = b1, sys_nodes = [fresh_node srv], sys_net = ?net1, sys_replies = {}, sys_forged = (\<lambda>_. 0)\<rparr>"
  let ?sys2 = "\<lparr>sys_broker = b1, sys_nodes = [\<lparr>node_server = s1, node_peer = Some (client_frame 9, [])\<rparr>], sys_net = ?net1, sys_replies = {}, sys_forged = (\<lambda>_. 0)\<rparr>"
  let ?sys3 = "\<lparr>sys_broker = b1, sys_nodes = [fresh_node s2], sys_net = ?net1, sys_replies = {?r}, sys_forged = (\<lambda>_. 0)\<rparr>"
  let ?k = "forged_after ?sys3 (example_answers rep)"
  let ?sys4 = "\<lparr>sys_broker = b2, sys_nodes = [fresh_node s2], sys_net = ?net1 \<union> set (messages (sent b2)), sys_replies = {?r}, sys_forged = ?k\<rparr>"
  have k0: "forged_after ?sys0 (example_question ?ps) = (\<lambda>_. 0)"
    by (auto simp: forged_after_def forged_before_def example_question_def)
  have "events_ok (asks example_ask) (\<lambda>fs. True) whole_registration (example_question ?ps)"
    using asks by (simp add: events_ok_def example_question_def del: serialize.simps)
  moreover have "minority 3 (\<lambda>_. 0)" by (simp add: minority_def)
  ultimately have step1: "system_step example_ask ?sys0 ?sys1"
    using system_step.broker_iterates [of standing_env "example_question ?ps" ?sys0 b1 example_ask] b1(1) sized_standing_env
    by (simp add: k0 del: serialize.simps)
  have step2: "system_step example_ask ?sys1 ?sys2"
  proof -
    have "(Dealer 0, [client_frame 9, [], enc_service ?sm]) \<in> ?net1"
      using messages_copies [of "[]" "[client_frame 9, [], enc_service ?sm]" 3 "Dealer 0"]
      by (simp add: b1(2) del: send_frames.simps serialize.simps)
    then show ?thesis
      using system_step.server_receives [of 0 ?sys1 0 "client_frame 9" "[]" "enc_service ?sm"
          "\<lparr>ev_request = Some (enc_service ?sm), ev_ping = False, ev_reg_reply = None\<rparr>" example_senv s1 example_ask] srv(3) s1(1,2)
      by (simp add: node_moves_def del: serialize.simps)
  qed
  have step3: "system_step example_ask ?sys2 ?sys3"
    using system_step.thread_finishes [of 0 ?sys2 example_senv 0 0 s2 example_ask] s2(1,6) by (simp add: node_moves_def)
  have k: "?k = (\<lambda>c. if c = 9 then 1 else 0)"
    using \<open>enc_reply (forged_reply rep) \<noteq> enc_reply rep\<close>
    by (auto simp: forged_after_def forged_before_def example_answers_def forged_now_def addressed_def)
  then have "minority 3 ?k" by (simp add: minority_def)
  then have step4: "system_step example_ask ?sys3 ?sys4"
    using system_step.broker_iterates [of standing_env "example_answers rep" ?sys3 b2 example_ask] b1(9) b2(1) sized_standing_env
    by (simp add: events_ok_def example_answers_def)
  from step1 step2 step3 step4 have steps: "(system_step example_ask)\<^sup>*\<^sup>* ?sys0 ?sys4"
    by (meson converse_rtranclp_into_rtranclp rtranclp.rtrancl_refl)
  have "initial_system ?sys0"
    using srv(6-8) inv by (auto simp: initial_system_def get_service_body_def service_kind_of_def split: if_splits)
  moreover have "whole (sent b1)" unfolding b1(2)
    using whole_copies [of "[]" "[client_frame 9, [], enc_service ?sm]" 3 "Dealer 0"] by (simp del: send_frames.simps serialize.simps)
  then have "(Router, response_message (client_frame 9) [] SERVICE_AVAILABLE 3) \<in> sys_net ?sys4"
    by (simp add: b2(2) del: send_frames.simps)
  moreover have "sys_forged ?sys4 9 = 1" by (simp add: k)
  ultimately show ?thesis using steps by (intro that [of ?sys0 ?sys4])
qed

end
