(* ===== verification/RSF_Recovery.thy ===== *)
theory RSF_Recovery
  imports RSF_Routing RSF_Server_Facts RSF_Deploy
begin

text \<open>
  Crash and recovery of a server copy. The first part gives any series of heartbeat intervals in
  closed form: the loss count of every copy depends on its own pongs only, and each of its outages
  lowers the counters of the service for good. The second part is the
  registration of a restarted copy at a broker that already offers its service, from the message
  the server sends to the port it connects to; the properties put both together with the health
  checker that starts the new server.
\<close>

section \<open>Heartbeat intervals in closed form\<close>

text \<open>The pongs of copy \<open>j\<close>, interval by interval, and how often it is given up in them.\<close>

definition pongs_of :: "nat \<Rightarrow> uint8 list list \<Rightarrow> bool list" where
  "pongs_of j idss = map (\<lambda>ids. j \<in> unat ` set ids) idss"

fun deaths :: "bool list \<Rightarrow> int \<Rightarrow> nat" where
  "deaths [] lp = 0"
| "deaths (np # nps) lp = (if dying np lp then 1 else 0) + deaths nps (age_pong np lp)"

lemma pongs_of_simps [simp]: "pongs_of j [] = []" "pongs_of j (ids # idss) = (j \<in> unat ` set ids) # pongs_of j idss"
  by (simp_all add: pongs_of_def)

lemma put_record_same: "services_db db s = Some r \<Longrightarrow> put_record db s r = db"
  by (simp add: map_upd_triv)

lemma put_record_twice: "put_record (put_record db s r) s r' = put_record db s r'"
  by (simp add: fun_upd_upd)

lemma register_pongs_eq:
  assumes "services_db db s = Some r" "\<forall>i \<in> set ids. unat i < length (new_pong r)"
  shows "register_pongs db ids s =
    Inr (put_record db s (r\<lparr>new_pong := fold (\<lambda>i nps. nps[unat i := True]) ids (new_pong r)\<rparr>))"
  using assms
proof (induction ids arbitrary: db r)
  case Nil
  have "r\<lparr>new_pong := new_pong r\<rparr> = r" by simp
  with put_record_same [OF Nil.prems(1)] show ?case by (simp only: register_pongs.simps fold.simps id_apply)
next
  case (Cons i ids)
  let ?r = "r\<lparr>new_pong := (new_pong r)[unat i := True]\<rparr>"
  from Cons.prems have "register_pong db i s = Inr (put_record db s ?r)" by (simp add: register_pong_def)
  moreover have "register_pongs (put_record db s ?r) ids s =
      Inr (put_record db s (?r\<lparr>new_pong := fold (\<lambda>i nps. nps[unat i := True]) ids (new_pong ?r)\<rparr>))"
    using Cons.IH [of "put_record db s ?r" ?r] Cons.prems(2) unfolding put_record_twice by simp
  moreover have "?r\<lparr>new_pong := nps\<rparr> = r\<lparr>new_pong := nps\<rparr>" "new_pong ?r = (new_pong r)[unat i := True]" for nps by simp_all
  ultimately show ?case by (simp only: register_pongs.simps rbind_simps fold.simps o_apply)
qed

lemma marked_pongs:
  assumes "length nps = n"
  shows "fold (\<lambda>i nps. nps[unat i := True]) ids nps = map (\<lambda>j. nps ! j \<or> j \<in> unat ` set ids) [0..<n]"
  using assms
proof (induction ids arbitrary: nps)
  case Nil
  then show ?case by (auto intro: nth_equalityI)
next
  case (Cons i ids)
  have "nps[unat i := True] ! j = (nps ! j \<or> j = unat i)" if "j < n" for j
    using that Cons.prems by (cases "j = unat i") simp_all
  with Cons.IH [of "nps[unat i := True]"] Cons.prems show ?case by auto
qed

lemma count_zip:
  assumes "length xs = n" "length ys = n"
  shows "length (filter (\<lambda>(x, y). P x y) (zip xs ys)) = (\<Sum>j<n. if P (xs ! j) (ys ! j) then 1 else 0)"
proof -
  have "length (filter (\<lambda>(x, y). P x y) (zip xs ys)) = card {j. j < n \<and> P (xs ! j) (ys ! j)}"
    using assms by (simp add: length_filter_conv_card cong: conj_cong)
  also have "\<dots> = (\<Sum>j<n. if P (xs ! j) (ys ! j) then 1 else 0)"
    by (simp add: sum.If_cases Int_def lessThan_def)
  finally show ?thesis .
qed

lemma heartbeat_interval:
  assumes "services_db db s = Some r" "record_inv n r" "n = unat (db_nmr db)" "new_pong r = replicate n False"
    and "\<forall>i \<in> set ids. unat i < n"
  obtains r1 where "heartbeats db [ids] s = Inr (put_record db s r1)" "record_inv n r1" "new_pong r1 = replicate n False"
    "lost_pong r1 = map (\<lambda>j. age_pong (j \<in> unat ` set ids) (lost_pong r ! j)) [0..<n]"
    "num_copies_registered r1 = num_copies_registered r -
       of_nat (\<Sum>j<n. if dying (j \<in> unat ` set ids) (lost_pong r ! j) then 1 else 0)"
    "seq_id_ping r1 = seq_id_ping r + 1" "request_records r1 = request_records r" "dealer_socket r1 = dealer_socket r"
    "dealer_skt_index r1 = dealer_skt_index r"
proof -
  let ?nps = "map (\<lambda>j. j \<in> unat ` set ids) [0..<n]"
  let ?r0 = "r\<lparr>new_pong := ?nps\<rparr>"
  have "map (\<lambda>j. replicate n False ! j \<or> j \<in> unat ` set ids) [0..<n] = ?nps" by simp
  then have "fold (\<lambda>i nps. nps[unat i := True]) ids (new_pong r) = ?nps"
    using marked_pongs [of "new_pong r" n ids] unfolding assms(4) by simp
  then have pongs: "register_pongs db ids s = Inr (put_record db s ?r0)"
    using register_pongs_eq [OF assms(1), of ids] assms(4,5) by simp
  have len: "length (lost_pong r) = n" using assms(2) by (simp add: record_inv_def)
  have inv: "record_inv n ?r0" using assms(2) by (simp add: record_inv_def)
  from record_inv_checked [of "db_nmr db" ?r0] inv assms(3) obtain r1
    where r1: "checked_record (db_nmr db) ?r0 = Inr r1" "record_inv n r1" by auto
  have eq: "r1 = ?r0\<lparr>new_pong := replicate n False, lost_pong := map2 age_pong ?nps (lost_pong r),
      num_copies_reliable := num_copies_reliable r - of_nat (num_dying ?r0),
      num_copies_registered := num_copies_registered r - of_nat (num_dying ?r0), seq_id_ping := seq_id_ping r + 1\<rparr>"
    using r1(1) checked_record_eq [of ?r0 "db_nmr db"] len assms(3) by simp
  have check: "check_pong (put_record db s ?r0) s = Inr (put_record db s r1)"
    using check_pong_op.oper_found [of "put_record db s ?r0" s ?r0 r1] r1(1) by simp
  have "map2 age_pong ?nps (lost_pong r) = map (\<lambda>j. age_pong (j \<in> unat ` set ids) (lost_pong r ! j)) [0..<n]"
    using len by (intro nth_equalityI) simp_all
  moreover have "num_dying ?r0 = (\<Sum>j<n. if dying (j \<in> unat ` set ids) (lost_pong r ! j) then 1 else 0)"
    using count_zip [of ?nps n "lost_pong r" dying] len by (simp add: num_dying_def)
  ultimately show ?thesis using r1(2) by (intro that [of r1]) (simp_all add: pongs check eq)
qed

lemma heartbeats_split: "heartbeats db (ids # idss) s = rbind (heartbeats db [ids] s) (\<lambda>db'. heartbeats db' idss s)"
  by (simp add: rbind_assoc)

lemma heartbeats_closed_form:
  assumes "services_db db s = Some r" "record_inv n r" "n = unat (db_nmr db)" "new_pong r = replicate n False"
    and "\<forall>ids \<in> set idss. \<forall>i \<in> set ids. unat i < n"
  shows "\<exists>r'. heartbeats db idss s = Inr (put_record db s r') \<and> record_inv n r' \<and> new_pong r' = replicate n False \<and>
     lost_pong r' = map (\<lambda>j. fold age_pong (pongs_of j idss) (lost_pong r ! j)) [0..<n] \<and>
     num_copies_registered r' = num_copies_registered r - of_nat (\<Sum>j<n. deaths (pongs_of j idss) (lost_pong r ! j)) \<and>
     seq_id_ping r' = seq_id_ping r + of_nat (length idss) \<and> request_records r' = request_records r \<and>
     dealer_socket r' = dealer_socket r \<and> dealer_skt_index r' = dealer_skt_index r"
  using assms
proof (induction idss arbitrary: db r)
  case Nil
  then have "map (\<lambda>j. lost_pong r ! j) [0..<n] = lost_pong r" by (metis map_nth record_inv_def)
  with Nil have "record_inv n r \<and> new_pong r = replicate n False \<and>
     lost_pong r = map (\<lambda>j. fold age_pong (pongs_of j []) (lost_pong r ! j)) [0..<n] \<and>
     num_copies_registered r = num_copies_registered r - of_nat (\<Sum>j<n. deaths (pongs_of j []) (lost_pong r ! j)) \<and>
     seq_id_ping r = seq_id_ping r + of_nat (length ([] :: uint8 list list))" by simp
  then show ?case unfolding heartbeats.simps
    by (intro exI [of _ r] conjI arg_cong [of _ _ Inr] put_record_same [OF Nil.prems(1), symmetric] refl) blast+
next
  case (Cons ids idss)
  from Cons.prems(5) have ids: "\<forall>i \<in> set ids. unat i < n" by simp
  obtain r1 where r1: "heartbeats db [ids] s = Inr (put_record db s r1)" "record_inv n r1" "new_pong r1 = replicate n False"
    "lost_pong r1 = map (\<lambda>j. age_pong (j \<in> unat ` set ids) (lost_pong r ! j)) [0..<n]"
    "num_copies_registered r1 = num_copies_registered r -
       of_nat (\<Sum>j<n. if dying (j \<in> unat ` set ids) (lost_pong r ! j) then 1 else 0)"
    "seq_id_ping r1 = seq_id_ping r + 1" "request_records r1 = request_records r" "dealer_socket r1 = dealer_socket r"
    "dealer_skt_index r1 = dealer_skt_index r"
    by (rule heartbeat_interval [OF Cons.prems(1-4) ids])
  have "services_db (put_record db s r1) s = Some r1" "n = unat (db_nmr (put_record db s r1))"
    "\<forall>ids \<in> set idss. \<forall>i \<in> set ids. unat i < n" using Cons.prems(3,5) by simp_all
  from Cons.IH [OF this(1) r1(2) this(2) r1(3) this(3), unfolded put_record_twice] obtain r'
    where r': "heartbeats (put_record db s r1) idss s = Inr (put_record db s r')" "record_inv n r'"
      "new_pong r' = replicate n False"
      "lost_pong r' = map (\<lambda>j. fold age_pong (pongs_of j idss) (lost_pong r1 ! j)) [0..<n]"
      "num_copies_registered r' = num_copies_registered r1 - of_nat (\<Sum>j<n. deaths (pongs_of j idss) (lost_pong r1 ! j))"
      "seq_id_ping r' = seq_id_ping r1 + of_nat (length idss)" "request_records r' = request_records r1"
      "dealer_socket r' = dealer_socket r1" "dealer_skt_index r' = dealer_skt_index r1" by blast
  have "heartbeats db (ids # idss) s = Inr (put_record db s r')"
    using r'(1) by (subst heartbeats_split) (simp only: r1(1) rbind_simps)
  moreover have "lost_pong r' = map (\<lambda>j. fold age_pong (pongs_of j (ids # idss)) (lost_pong r ! j)) [0..<n]"
    by (simp add: r'(4) r1(4))
  moreover have "(\<Sum>j<n. deaths (pongs_of j (ids # idss)) (lost_pong r ! j)) =
      (\<Sum>j<n. if dying (j \<in> unat ` set ids) (lost_pong r ! j) then 1 else 0) + (\<Sum>j<n. deaths (pongs_of j idss) (lost_pong r1 ! j))"
    by (simp add: r1(4) sum.distrib)
  moreover from this have "num_copies_registered r' = num_copies_registered r -
      of_nat (\<Sum>j<n. deaths (pongs_of j (ids # idss)) (lost_pong r ! j))"
    by (simp only: r'(5) r1(5) of_nat_add diff_diff_add)
  moreover have "seq_id_ping r' = seq_id_ping r + of_nat (length (ids # idss))" by (simp add: r'(6) r1(6))
  moreover note r'(2,3) r'(7-9) [unfolded r1(7-9)]
  ultimately show ?case by (intro exI [of _ r'] conjI)
qed

section \<open>A silent copy among regular ones\<close>

lemma pongs_of_regular:
  assumes "\<forall>ids \<in> set idss. unat ` set ids = {..<n} - {j}" "i < n"
  shows "pongs_of i idss = replicate (length idss) (i \<noteq> j)"
  using assms by (induction idss) auto

lemma deaths_regular [simp]: "deaths (replicate k True) lp = 0"
  by (induction k arbitrary: lp) (simp_all add: dying_def)

lemma age_silent_copy: "lp \<le> LIVENESS \<Longrightarrow> fold age_pong (replicate k False) lp = min LIVENESS (lp + int k)"
  by (induction k arbitrary: lp) (auto simp: age_pong_def)

lemma deaths_silent: "deaths (replicate k False) lp = of_bool (lp < LIVENESS \<and> LIVENESS \<le> lp + int k)"
proof (induction k arbitrary: lp)
  case (Suc k)
  show ?case by (cases "lp < LIVENESS") (auto simp: Suc dying_def age_pong_def)
qed simp

lemma deaths_one_silent:
  assumes "\<forall>ids \<in> set idss. unat ` set ids = {..<n} - {j}" "j < n"
  shows "(\<Sum>i<n. deaths (pongs_of i idss) (lps ! i)) = of_bool (lps ! j < LIVENESS \<and> LIVENESS \<le> lps ! j + int (length idss))"
proof -
  have "(\<Sum>i<n. deaths (pongs_of i idss) (lps ! i)) = (\<Sum>i<n. if i = j then deaths (replicate (length idss) False) (lps ! j) else 0)"
    using pongs_of_regular [OF assms(1)] by (intro sum.cong) auto
  also have "\<dots> = deaths (replicate (length idss) False) (lps ! j)" using assms(2) by (simp add: sum.delta)
  finally show ?thesis by (simp add: deaths_silent)
qed

lemma uint8_pred_less: "(a :: uint8) + 1 = n \<Longrightarrow> n \<noteq> 0 \<Longrightarrow> a < n"
  using unat_minus_one [of n] unat_gt_0 [of n] by (auto simp: word_less_nat_alt)

lemma silent_copy_given_up:
  assumes "db_inv db" "services_db db s = Some r" "\<forall>np \<in> set (new_pong r). \<not> np" "\<forall>lp \<in> set (lost_pong r). lp < LIVENESS"
    and "j < unat (db_nmr db)" "\<forall>ids \<in> set idss. unat ` set ids = {..<unat (db_nmr db)} - {j}"
    and "LIVENESS \<le> lost_pong r ! j + int (length idss)"
  obtains r' where "heartbeats db idss s = Inr (put_record db s r')" "record_inv (unat (db_nmr db)) r'"
    "new_pong r' = replicate (unat (db_nmr db)) False" "lost_pong r' ! j = LIVENESS"
    "num_copies_registered r' + 1 = num_copies_registered r" "request_records r' = request_records r"
    "dealer_socket r' = dealer_socket r"
proof -
  define n where "n = unat (db_nmr db)"
  have inv: "record_inv n r" unfolding n_def by (rule db_invD [OF assms(1,2)])
  then have new: "new_pong r = replicate n False" and alive: "lost_pong r ! j < LIVENESS"
    using assms(3-5) by (auto simp: record_inv_def n_def intro: replicate_eqI)
  have ids: "\<forall>ids \<in> set idss. \<forall>i \<in> set ids. unat i < n" using assms(6) unfolding n_def by blast
  from heartbeats_closed_form [OF assms(2) inv n_def new ids] obtain r'
    where r': "heartbeats db idss s = Inr (put_record db s r')" "record_inv n r'" "new_pong r' = replicate n False"
      "lost_pong r' = map (\<lambda>j. fold age_pong (pongs_of j idss) (lost_pong r ! j)) [0..<n]"
      "num_copies_registered r' = num_copies_registered r - of_nat (\<Sum>j<n. deaths (pongs_of j idss) (lost_pong r ! j))"
      "request_records r' = request_records r" "dealer_socket r' = dealer_socket r" by blast
  have "lost_pong r' ! j = LIVENESS"
    using r'(4) assms(5-7) alive age_silent_copy [of "lost_pong r ! j" "length idss"] pongs_of_regular [of idss n j j]
    by (simp add: n_def)
  moreover have "(\<Sum>i<n. deaths (pongs_of i idss) (lost_pong r ! i)) = 1"
    using deaths_one_silent [of idss n j "lost_pong r"] alive assms(5-7) by (simp add: n_def)
  ultimately show thesis using r' by (intro that [of r']) (simp_all add: n_def)
qed

lemma all_answer:
  assumes "services_db db s = Some r" "record_inv (unat (db_nmr db)) r" "new_pong r = replicate (unat (db_nmr db)) False"
    and "unat ` set all_ids = {..<unat (db_nmr db)}"
  obtains r' where "heartbeats db [all_ids] s = Inr (put_record db s r')" "lost_pong r' = replicate (unat (db_nmr db)) 0"
    "num_copies_registered r' = num_copies_registered r" "request_records r' = request_records r"
proof -
  have "\<forall>i \<in> set all_ids. unat i < unat (db_nmr db)" using assms(4) by blast
  then obtain r' where r': "heartbeats db [all_ids] s = Inr (put_record db s r')"
    "lost_pong r' = map (\<lambda>j. age_pong (j \<in> unat ` set all_ids) (lost_pong r ! j)) [0..<unat (db_nmr db)]"
    "num_copies_registered r' = num_copies_registered r -
       of_nat (\<Sum>j < unat (db_nmr db). if dying (j \<in> unat ` set all_ids) (lost_pong r ! j) then 1 else 0)"
    "request_records r' = request_records r"
    by (rule heartbeat_interval [OF assms(1,2) refl assms(3)])
  have "lost_pong r' = replicate (unat (db_nmr db)) 0"
    unfolding r'(2) assms(4) by (intro nth_equalityI) (simp_all add: age_pong_def)
  moreover have "num_copies_registered r' = num_copies_registered r" unfolding r'(3) assms(4) by (simp add: dying_def)
  ultimately show thesis using r'(1,4) by (intro that)
qed

section \<open>A copy that comes and goes\<close>

lemma deaths_append: "deaths (xs @ ys) lp = deaths xs lp + deaths ys (fold age_pong xs lp)"
  by (induction xs arbitrary: lp) simp_all

lemma outage:
  assumes "3 \<le> k"
  shows "deaths (True # replicate k False) lp = 1" "fold age_pong (True # replicate k False) lp = LIVENESS"
proof -
  have "age_pong True lp = 0" by (simp add: age_pong_def)
  then show "deaths (True # replicate k False) lp = 1" "fold age_pong (True # replicate k False) lp = LIVENESS"
    using assms age_silent_copy [of 0 k] by (simp_all only: deaths.simps deaths_silent fold.simps o_apply) (simp_all add: dying_def)
qed

lemma outages:
  assumes "3 \<le> k"
  shows "deaths (concat (replicate m (True # replicate k False))) lp = m"
    and "fold age_pong (concat (replicate (Suc m) (True # replicate k False))) lp = LIVENESS"
proof -
  show "deaths (concat (replicate m (True # replicate k False))) lp = m"
    by (induction m arbitrary: lp) (simp_all only: replicate_Suc replicate_0 concat.simps deaths.simps(1) deaths_append
        outage [OF assms] plus_1_eq_Suc)
  show "fold age_pong (concat (replicate (Suc m) (True # replicate k False))) lp = LIVENESS"
    unfolding replicate_snoc concat_append fold_append o_apply by (simp only: concat.simps append_Nil2 outage [OF assms])
qed

lemma never_given_up:
  "deaths nps lp = 0 \<Longrightarrow> - 1 \<le> lp \<Longrightarrow> lp < LIVENESS \<Longrightarrow> - 1 \<le> fold age_pong nps lp \<and> fold age_pong nps lp < LIVENESS"
  by (induction nps arbitrary: lp) (auto simp: dying_def age_pong_def split: if_splits)

lemma sum_but_one: "j < n \<Longrightarrow> (\<Sum>i<n. if i = j then 0 else 1) = n - (1 :: nat)"
  by (simp add: sum.If_cases Collect_conv_if flip: Diff_eq)

section \<open>Registration of a restarted copy\<close>

text \<open>
  One registration of a server at a broker: an iteration in which the server sends its message,
  the handler of the broker with the message as the broker's socket delivers it, and an
  iteration in which the server reads the answer. The identity \<open>f\<close> is the one the socket
  gave the server.
\<close>

definition quiet_poll :: "frame option \<Rightarrow> server_poll" where
  "quiet_poll reply = \<lparr>ev_request = None, ev_ping = False, ev_reg_reply = reply\<rparr>"

definition register_at :: "broker_env \<Rightarrow> server_env \<Rightarrow> frame \<Rightarrow> server \<Rightarrow> broker \<Rightarrow> (broker \<times> server res) res" where
  "register_at env senv f sv b =
     rbind (server_iter senv (quiet_poll None) sv) (\<lambda>sv1.
     rbind (get_registration env [(f, True), ([], True), (last (reg_sent (srv_reg_io sv1)), False)] b) (\<lambda>b1.
       Inr (b1, server_iter senv (quiet_poll (Some (fst (snd (last (sent b1)))))) sv1)))"

text \<open>A server that is not registered, has no registration under way and may replace its reply socket.\<close>

definition may_register :: "server_env \<Rightarrow> service_type_t \<Rightarrow> server \<Rightarrow> bool" where
  "may_register senv s sv \<longleftrightarrow> \<not> reg_ok sv \<and> \<not> send_reg (srv_reg_io sv) \<and> rgt_service (srv_registrator sv) = s \<and>
     (reply_ptr sv = Indeterminate \<longrightarrow> junk_ptr_null senv)"

lemma new_server_may_register:
  "new_server copy svc address port v t i = Inr sv \<Longrightarrow> junk_ptr_null senv \<Longrightarrow> may_register senv (ucast svc) sv"
  by (auto simp: may_register_def new_server_def new_registrator_def rbind_Inr_iff)

lemma server_sends_registration:
  assumes "may_register senv s sv"
  shows "\<exists>sv1. server_iter senv (quiet_poll None) sv = Inr sv1 \<and> \<not> reg_ok sv1 \<and>
     srv_reg_io sv1 = \<lparr>send_reg = True, reg_sent = reg_sent (srv_reg_io sv) @ [enc_registration (registration_for s)]\<rparr> \<and>
     (reply_ptr sv1 = Indeterminate \<longrightarrow> junk_ptr_null senv)"
  using assms
  by (simp add: may_register_def server_iter_def srv_clock_def quiet_poll_def try_register_def registration_eq
      register_service_def check_broker_def registration_for_def Let_def)

lemma registration_answer:
  assumes "srv_reg_io sv1 = \<lparr>send_reg = True, reg_sent = ms\<rparr>"
  shows "registration (srv_registrator sv1) (Some (le_bytes 2 (htons port))) (srv_reg_io sv1) =
     Inr (uint port, \<lparr>send_reg = False, reg_sent = ms\<rparr>)"
  by (simp add: assms registration_eq register_service_def load_def Let_def)

lemma server_refused:
  assumes "srv_reg_io sv1 = \<lparr>send_reg = True, reg_sent = ms\<rparr>" "\<not> reg_ok sv1"
  shows "server_iter senv (quiet_poll (Some (le_bytes 2 (htons 0)))) sv1 = Inl Exit_Failure"
  using assms registration_answer [of "sv1\<lparr>srv_ticks := Suc (srv_ticks sv1)\<rparr>" ms 0]
  by (simp add: server_iter_def srv_clock_def quiet_poll_def try_register_def)

lemma server_accepted:
  assumes "srv_reg_io sv1 = \<lparr>send_reg = True, reg_sent = ms\<rparr>" "\<not> reg_ok sv1" "port \<noteq> 0"
    and "reply_ptr sv1 = Indeterminate \<longrightarrow> junk_ptr_null senv"
  shows "\<exists>sv2. server_iter senv (quiet_poll (Some (le_bytes 2 (htons port)))) sv1 = Inr sv2 \<and>
     reg_ok sv2 \<and> broker_port sv2 = uint port"
proof -
  have "0 < uint port" "uint port \<le> 65535" using assms(3) uint_lt2p [of port] by (simp_all add: order_less_le uint_0_iff)
  with assms registration_answer [of "sv1\<lparr>srv_ticks := Suc (srv_ticks sv1)\<rparr>" ms port] show ?thesis
    by (simp add: server_iter_def srv_clock_def quiet_poll_def try_register_def delete_reply_def check_broker_def
        postpone_eq add_socket_def Let_def)
qed

text \<open>What becomes of the server depends on the port the handler of the broker answers with.\<close>

lemma register_at_answer:
  assumes "may_register senv s sv" "get_registration env (registration_frames f s) b = Inr b1"
    and "sent b1 = sent b @ registration_reply f port"
  shows "port = 0 \<Longrightarrow> register_at env senv f sv b = Inr (b1, Inl Exit_Failure)"
    and "port \<noteq> 0 \<Longrightarrow> \<exists>sv2. register_at env senv f sv b = Inr (b1, Inr sv2) \<and> reg_ok sv2 \<and> broker_port sv2 = uint port"
proof -
  from server_sends_registration [OF assms(1)] obtain sv1 where sv1: "server_iter senv (quiet_poll None) sv = Inr sv1" "\<not> reg_ok sv1"
    "srv_reg_io sv1 = \<lparr>send_reg = True, reg_sent = reg_sent (srv_reg_io sv) @ [enc_registration (registration_for s)]\<rparr>"
    "reply_ptr sv1 = Indeterminate \<longrightarrow> junk_ptr_null senv" by blast
  have "fst (snd (last (sent b1))) = le_bytes 2 (htons port)" by (simp add: assms(3) registration_reply_def)
  then have eq: "register_at env senv f sv b = Inr (b1, server_iter senv (quiet_poll (Some (le_bytes 2 (htons port)))) sv1)"
    using assms(2) sv1(1,3) by (simp add: register_at_def registration_frames_def)
  show "port = 0 \<Longrightarrow> register_at env senv f sv b = Inr (b1, Inl Exit_Failure)"
    unfolding eq using server_refused [OF sv1(3,2)] by simp
  show "port \<noteq> 0 \<Longrightarrow> \<exists>sv2. register_at env senv f sv b = Inr (b1, Inr sv2) \<and> reg_ok sv2 \<and> broker_port sv2 = uint port"
    unfolding eq using server_accepted [OF sv1(3,2) _ sv1(4)] by auto
qed

lemma register_at_full:
  assumes "may_register senv s sv" "services_db (b_db b) s = Some r" "num_copies_registered r = db_nmr (b_db b)"
  shows "\<exists>b1. register_at env senv f sv b = Inr (b1, Inl Exit_Failure) \<and> b_db b1 = b_db b"
proof -
  have "\<not> num_copies_registered r < db_nmr (b_db b)" using assms(3) by simp
  from register_at_answer(1) [OF assms(1) get_registration_full [OF assms(2) this]] show ?thesis by simp
qed

lemma register_at_again:
  assumes "may_register senv s sv" "services_db (b_db b) s = Some r" "num_copies_registered r < db_nmr (b_db b)"
    and "s \<in> set (available_services b)" "dealer_socket r \<noteq> 0"
  shows "\<exists>b1 sv2. register_at env senv f sv b = Inr (b1, Inr sv2) \<and>
     b_db b1 = put_record (b_db b) s (one_more r) \<and> dealer b1 = dealer b \<and>
     available_services b1 = available_services b \<and> reg_ok sv2 \<and> broker_port sv2 = uint (dealer_socket r)"
  using register_at_answer(2) [OF assms(1) get_registration_again [OF assms(2-4)] _ assms(5), of f] by force

lemma restarted_copy_rejoins:
  assumes "db_inv (b_db b)" and "services_db (b_db b) (ucast svc) = Some r" and "\<forall>np \<in> set (new_pong r). \<not> np"
    and "num_copies_registered r = db_nmr (b_db b)" and "\<forall>lp \<in> set (lost_pong r). lp < LIVENESS"
    and "ucast svc \<in> set (available_services b)" and "dealer_socket r \<noteq> 0"
    and "j < unat (db_nmr (b_db b))"
    and "\<forall>ids \<in> set idss. unat ` set ids = {..<unat (db_nmr (b_db b))} - {j}"
    and "LIVENESS \<le> lost_pong r ! j + int (length idss)"
    and "unat ` set all_ids = {..<unat (db_nmr (b_db b))}"
    and "new_server copy svc address port v t i = Inr sv" and "junk_ptr_null senv"
  shows "(\<exists>b1. register_at env senv f sv b = Inr (b1, Inl Exit_Failure) \<and> b_db b1 = b_db b) \<and>
    (\<exists>db' r' b2 sv2 db3 r3. heartbeats (b_db b) idss (ucast svc) = Inr db' \<and> services_db db' (ucast svc) = Some r' \<and>
       num_copies_registered r' + 1 = db_nmr (b_db b) \<and> lost_pong r' ! j = LIVENESS \<and>
       register_at env senv f sv (b\<lparr>b_db := db'\<rparr>) = Inr (b2, Inr sv2) \<and>
       reg_ok sv2 \<and> broker_port sv2 = uint (dealer_socket r) \<and>
       dealer b2 = dealer b \<and> available_services b2 = available_services b \<and>
       heartbeats (b_db b2) [all_ids] (ucast svc) = Inr db3 \<and> services_db db3 (ucast svc) = Some r3 \<and>
       num_copies_registered r3 = db_nmr (b_db b) \<and> lost_pong r3 = replicate (unat (db_nmr (b_db b))) 0 \<and>
       request_records r3 = request_records r)"
proof
  show "\<exists>b1. register_at env senv f sv b = Inr (b1, Inl Exit_Failure) \<and> b_db b1 = b_db b"
    by (rule register_at_full [OF new_server_may_register [OF assms(12,13)] assms(2,4)])
  obtain r' where r': "heartbeats (b_db b) idss (ucast svc) = Inr (put_record (b_db b) (ucast svc) r')"
      "record_inv (unat (db_nmr (b_db b))) r'" "new_pong r' = replicate (unat (db_nmr (b_db b))) False"
      "lost_pong r' ! j = LIVENESS" "num_copies_registered r' + 1 = db_nmr (b_db b)"
      "request_records r' = request_records r" "dealer_socket r' = dealer_socket r"
    by (rule silent_copy_given_up [OF assms(1-3,5,8-10)]) (simp add: assms(4))
  let ?db = "put_record (b_db b) (ucast svc) r'"
  have less: "num_copies_registered r' < db_nmr (b_db b)" using r'(5) assms(8) by (intro uint8_pred_less) auto
  have again: "services_db (b_db (b\<lparr>b_db := ?db\<rparr>)) (ucast svc) = Some r'"
    "num_copies_registered r' < db_nmr (b_db (b\<lparr>b_db := ?db\<rparr>))"
    "ucast svc \<in> set (available_services (b\<lparr>b_db := ?db\<rparr>))" "dealer_socket r' \<noteq> 0"
    using less assms(6,7) r'(7) by simp_all
  from register_at_again [OF new_server_may_register [OF assms(12,13)] again, of env f] obtain b2 sv2
    where b2: "register_at env senv f sv (b\<lparr>b_db := ?db\<rparr>) = Inr (b2, Inr sv2)"
      "b_db b2 = put_record ?db (ucast svc) (one_more r')" "dealer b2 = dealer b"
      "available_services b2 = available_services b" "reg_ok sv2" "broker_port sv2 = uint (dealer_socket r)"
    using r'(7) by auto
  have more: "services_db (b_db b2) (ucast svc) = Some (one_more r')" "record_inv (unat (db_nmr (b_db b2))) (one_more r')"
    "new_pong (one_more r') = replicate (unat (db_nmr (b_db b2))) False"
    "unat ` set all_ids = {..<unat (db_nmr (b_db b2))}"
    using r'(2,3) assms(11) by (simp_all add: b2(2) one_more_def record_inv_def)
  obtain r3 where r3: "heartbeats (b_db b2) [all_ids] (ucast svc) = Inr (put_record (b_db b2) (ucast svc) r3)"
    "lost_pong r3 = replicate (unat (db_nmr (b_db b2))) 0" "num_copies_registered r3 = num_copies_registered (one_more r')"
    "request_records r3 = request_records (one_more r')"
    by (rule all_answer [OF more])
  show "\<exists>db' r' b2 sv2 db3 r3. heartbeats (b_db b) idss (ucast svc) = Inr db' \<and> services_db db' (ucast svc) = Some r' \<and>
       num_copies_registered r' + 1 = db_nmr (b_db b) \<and> lost_pong r' ! j = LIVENESS \<and>
       register_at env senv f sv (b\<lparr>b_db := db'\<rparr>) = Inr (b2, Inr sv2) \<and>
       reg_ok sv2 \<and> broker_port sv2 = uint (dealer_socket r) \<and>
       dealer b2 = dealer b \<and> available_services b2 = available_services b \<and>
       heartbeats (b_db b2) [all_ids] (ucast svc) = Inr db3 \<and> services_db db3 (ucast svc) = Some r3 \<and>
       num_copies_registered r3 = db_nmr (b_db b) \<and> lost_pong r3 = replicate (unat (db_nmr (b_db b))) 0 \<and>
       request_records r3 = request_records r"
    by (intro exI conjI, rule r'(1), simp, rule r'(5), rule r'(4), rule b2(1), rule b2(5), rule b2(6), rule b2(3),
        rule b2(4), rule r3(1), simp) (simp_all add: r3 b2(2) one_more_def r'(5,6))
qed

lemma server_main_eq:
  assumes "get_service_body (ucast svc) = Inr body"
  obtains sv where "server_main [[svc], [copy]] jv jt ji = Inr sv" "new_server copy svc ''localhost'' REG_PORT_BROKER jv jt ji = Inr sv"
    "srv_id sv = copy" "service_type sv = ucast svc"
  using that assms by (simp add: server_main_def new_server_def new_registrator_def)

section \<open>Properties\<close>

text \<open>
  C22: Copies are judged independently: after any series of heartbeat intervals, each with the
  pongs that arrive in it, in any order and with repetitions, the loss count of every copy is that of its
  own pongs alone, both copy counters have dropped by the number of times a copy was given up,
  and neither the pending requests nor the dealer of the service nor another service is touched.
\<close>

theorem copies_age_independently:
  assumes "db_inv db" and "services_db db s = Some r" and "\<forall>np \<in> set (new_pong r). \<not> np"
    and "\<forall>ids \<in> set idss. \<forall>i \<in> set ids. unat i < unat (db_nmr db)"
  shows "\<exists>db' r'. heartbeats db idss s = Inr db' \<and> services_db db' s = Some r' \<and>
     length (lost_pong r') = unat (db_nmr db) \<and>
     (\<forall>j < unat (db_nmr db). lost_pong r' ! j = fold age_pong (pongs_of j idss) (lost_pong r ! j)) \<and>
     num_copies_registered r' =
       num_copies_registered r - of_nat (\<Sum>j < unat (db_nmr db). deaths (pongs_of j idss) (lost_pong r ! j)) \<and>
     num_copies_reliable r' = num_copies_registered r' \<and> seq_id_ping r' = seq_id_ping r + of_nat (length idss) \<and>
     request_records r' = request_records r \<and> same_port r r' \<and> (\<forall>t. t \<noteq> s \<longrightarrow> services_db db' t = services_db db t)"
proof -
  have inv: "record_inv (unat (db_nmr db)) r" by (rule db_invD [OF assms(1,2)])
  then have "new_pong r = replicate (unat (db_nmr db)) False"
    using assms(3) by (intro replicate_eqI) (auto simp: record_inv_def)
  from heartbeats_closed_form [OF assms(2) inv refl this assms(4)] obtain r'
    where "heartbeats db idss s = Inr (put_record db s r')" "record_inv (unat (db_nmr db)) r'"
      "lost_pong r' = map (\<lambda>j. fold age_pong (pongs_of j idss) (lost_pong r ! j)) [0..<unat (db_nmr db)]"
      "num_copies_registered r' = num_copies_registered r - of_nat (\<Sum>j < unat (db_nmr db). deaths (pongs_of j idss) (lost_pong r ! j))"
      "seq_id_ping r' = seq_id_ping r + of_nat (length idss)" "request_records r' = request_records r"
      "dealer_socket r' = dealer_socket r" "dealer_skt_index r' = dealer_skt_index r" by blast
  then show ?thesis
    by (intro exI [of _ "put_record db s r'"] exI [of _ r'] conjI) (simp_all add: record_inv_def same_port_def)
qed

theorem copies_age_independently_witness:
  "\<exists>db' r'. heartbeats example_db [[0, 1, 2], [2, 1, 1], [1, 2], [2, 1], [0, 1]] 0 = Inr db' \<and> services_db db' 0 = Some r' \<and>
     lost_pong r' ! 0 = 0 \<and> lost_pong r' ! 2 = 1 \<and> num_copies_registered r' = 2"
proof -
  let ?idss = "[[0, 1, 2], [2, 1, 1], [1, 2], [2, 1], [0, 1]] :: uint8 list list"
  have r: "services_db example_db 0 = Some example_record" "\<forall>np \<in> set (new_pong example_record). \<not> np"
    and ids: "\<forall>ids \<in> set ?idss. \<forall>i \<in> set ids. unat i < unat (db_nmr example_db)" and n: "unat (db_nmr example_db) = 3"
    by (simp_all add: example_db_def example_record_def)
  have "fold age_pong (pongs_of 0 ?idss) (lost_pong example_record ! 0) = 0"
    "fold age_pong (pongs_of 2 ?idss) (lost_pong example_record ! 2) = 1"
    "num_copies_registered example_record - of_nat (\<Sum>j < 3. deaths (pongs_of j ?idss) (lost_pong example_record ! j)) = 2"
    by code_simp+
  with copies_age_independently [OF example_db_inv r ids] show ?thesis unfolding n by auto
qed

lemma heartbeats_counters:
  assumes "db_inv db" "services_db db s = Some r" "\<forall>np \<in> set (new_pong r). \<not> np" "n = unat (db_nmr db)"
    and "\<forall>ids \<in> set idss. \<forall>i \<in> set ids. unat i < n"
  obtains r' where "heartbeats db idss s = Inr (put_record db s r')" "record_inv n r'" "new_pong r' = replicate n False"
    "lost_pong r' = map (\<lambda>j. fold age_pong (pongs_of j idss) (lost_pong r ! j)) [0..<n]"
    "num_copies_reliable r' = num_copies_reliable r - of_nat (\<Sum>j<n. deaths (pongs_of j idss) (lost_pong r ! j))"
    "dealer_skt_index r' = dealer_skt_index r" "db_inv (put_record db s r')"
proof -
  have inv: "record_inv n r" using db_invD [OF assms(1,2)] assms(4) by simp
  then have "new_pong r = replicate n False" using assms(3) by (intro replicate_eqI) (auto simp: record_inv_def)
  from heartbeats_closed_form [OF assms(2) inv assms(4) this assms(5)] obtain r'
    where r': "heartbeats db idss s = Inr (put_record db s r')" "record_inv n r'" "new_pong r' = replicate n False"
      "lost_pong r' = map (\<lambda>j. fold age_pong (pongs_of j idss) (lost_pong r ! j)) [0..<n]"
      "num_copies_registered r' = num_copies_registered r - of_nat (\<Sum>j<n. deaths (pongs_of j idss) (lost_pong r ! j))"
      "dealer_skt_index r' = dealer_skt_index r" by blast
  have "db_inv (put_record db s r')" using assms(1,4) r'(2) by (simp add: db_inv_def)
  with r' inv show thesis by (intro that [of r']) (simp_all add: record_inv_def)
qed

text \<open>
  C39: A copy that comes and goes puts a working service out of action. The counters lose one for
  every outage of a copy, also when the copy had come back without a new registration. After as
  many outages of one copy as copies were counted, the counter is 0 although no other copy was
  ever given up: then pings and requests for the service are sent to nobody, the request is
  accepted all the same, and when the unpinged copies have stayed silent for four intervals
  the counter has wrapped around to \<open>257 - nmr\<close>.
\<close>

theorem reliable_counter_wraps:
  fixes c :: uint32
  assumes "broker_inv b" and "services_db (b_db b) s = Some r" and "\<forall>np \<in> set (new_pong r). \<not> np"
    and "\<forall>lp \<in> set (lost_pong r). lp < LIVENESS" and "n = unat (db_nmr (b_db b))" and "2 \<le> n" and "j < n"
    and "\<forall>ids \<in> set idss. \<forall>i \<in> set ids. unat i < n" and "num_copies_reliable r \<noteq> 0" and "3 \<le> k"
    and "pongs_of j idss = concat (replicate (unat (num_copies_reliable r)) (True # replicate k False))"
    and "\<forall>i < n. i \<noteq> j \<longrightarrow> deaths (pongs_of i idss) (lost_pong r ! i) = 0"
    and "load 4 1 f = Inr c" and "length params = PARAM_SIZE"
    and "unat x < length (available_services b)" and "available_services b ! unat x = s"
    and "unat (dealer_skt_index r) < length (dealer b)"
  shows "\<exists>db1 r1 b1 b2 db2 r2. heartbeats (b_db b) idss s = Inr db1 \<and> services_db db1 s = Some r1 \<and>
     num_copies_reliable r1 = 0 \<and> (\<forall>i < n. i \<noteq> j \<longrightarrow> lost_pong r1 ! i < LIVENESS) \<and>
     ping_server env x s (b\<lparr>b_db := db1\<rparr>) = Inr b1 \<and> sent b1 = sent b \<and>
     get_request env (f, e, enc_request (request_for s params)) (b\<lparr>b_db := db1\<rparr>) = Inr b2 \<and> sent b2 = sent b \<and>
     heartbeats db1 (replicate 4 []) s = Inr db2 \<and> services_db db2 s = Some r2 \<and>
     unat (num_copies_reliable r2) = 257 - n"
proof -
  have inv: "db_inv (b_db b)" using assms(1) by (simp add: broker_inv_def)
  obtain r1 where r1: "heartbeats (b_db b) idss s = Inr (put_record (b_db b) s r1)" "record_inv n r1"
    "new_pong r1 = replicate n False"
    "lost_pong r1 = map (\<lambda>j. fold age_pong (pongs_of j idss) (lost_pong r ! j)) [0..<n]"
    "num_copies_reliable r1 = num_copies_reliable r - of_nat (\<Sum>j<n. deaths (pongs_of j idss) (lost_pong r ! j))"
    "dealer_skt_index r1 = dealer_skt_index r" "db_inv (put_record (b_db b) s r1)"
    by (rule heartbeats_counters [OF inv assms(2,3,5,8)])
  let ?b = "b\<lparr>b_db := put_record (b_db b) s r1\<rparr>"
  have "(\<Sum>i<n. deaths (pongs_of i idss) (lost_pong r ! i)) = (\<Sum>i<n. if i = j then unat (num_copies_reliable r) else 0)"
    using assms(12) outages(1) [OF assms(10)] by (intro sum.cong) (auto simp: assms(11))
  also have "\<dots> = unat (num_copies_reliable r)" using assms(7) by (simp add: sum.delta)
  finally have zero: "num_copies_reliable r1 = 0" by (simp add: r1(5))
  have range: "- 1 \<le> lost_pong r ! i \<and> lost_pong r ! i < LIVENESS" if "i < n" for i
    using db_invD [OF inv assms(2)] that assms(4,5) by (auto simp: record_inv_def)
  have others: "- 1 \<le> lost_pong r1 ! i \<and> lost_pong r1 ! i < LIVENESS" if "i < n" "i \<noteq> j" for i
    using never_given_up [of "pongs_of i idss" "lost_pong r ! i"] range [of i] assms(12) that by (simp add: r1(4))
  obtain m where "unat (num_copies_reliable r) = Suc m" using assms(9) by (metis not0_implies_Suc unat_eq_0)
  then have gone: "lost_pong r1 ! j = LIVENESS"
    using assms(7) outages(2) [OF assms(10), of m "lost_pong r ! j"] by (simp only: r1(4) assms(11) nth_map_upt diff_zero add_0)
  have rec: "services_db (b_db ?b) s = Some r1" by simp
  obtain r2 where r2: "heartbeats (put_record (b_db b) s r1) (replicate 4 []) s = Inr (put_record (put_record (b_db b) s r1) s r2)"
    "num_copies_reliable r2 = num_copies_reliable r1 - of_nat (\<Sum>i<n. deaths (pongs_of i (replicate 4 [])) (lost_pong r1 ! i))"
    by (rule heartbeats_counters [OF r1(7), of s r1 n "replicate 4 []"]) (use r1(3) assms(5) in auto)
  have "deaths (pongs_of i (replicate 4 [])) (lost_pong r1 ! i) = (if i = j then 0 else 1)" if "i < n" for i
    using others [OF that] gone by (cases "i = j") (simp_all add: pongs_of_def map_replicate deaths_silent)
  then have "(\<Sum>i<n. deaths (pongs_of i (replicate 4 [])) (lost_pong r1 ! i)) = n - 1"
    using sum_but_one [OF assms(7)] by simp
  then have "num_copies_reliable r2 = - of_nat (n - 1)" using r2(2) zero by simp
  moreover have "unat (- of_nat (n - 1) :: uint8) = 257 - n"
  proof -
    have n: "n \<le> 255" using assms(5) uint8_le [of "db_nmr (b_db b)"] by simp
    with assms(6) have "of_nat (257 - n) + of_nat (n - 1) = (of_nat 256 :: uint8)" by (simp flip: of_nat_add)
    moreover have "(of_nat 256 :: uint8) = 0" by simp
    ultimately have "- of_nat (n - 1) = (of_nat (257 - n) :: uint8)" by (metis eq_neg_iff_add_eq_0)
    then have "unat (- of_nat (n - 1) :: uint8) = unat (of_nat (257 - n) :: uint8)" by (rule arg_cong)
    also have "\<dots> = 257 - n" using assms(6) n by (simp only: unat_of_nat) simp
    finally show ?thesis .
  qed
  moreover have "ping_server env x s ?b = Inr ?b"
    using assms(15,16) zero by (simp add: ping_server_def get_ping_id_def get_reliable_copies_def Let_def)
  moreover have ready: "s \<in> set (available_services ?b)" "length (timeouts ?b) = length (available_services ?b)"
    "unat (dealer_skt_index r1) < length (dealer ?b)"
    using assms(1,15-17) r1(6) by (auto simp: broker_inv_def)
  obtain b2 where "get_request env (f, e, enc_request (request_for s params)) ?b = Inr b2" "sent b2 = sent b"
    using get_request_eq [OF assms(13,14) rec ready(3,1,2), of env e] zero by simp
  ultimately show ?thesis using r1(1) rec r2(1) zero others
    by (intro exI [of _ "put_record (b_db b) s r1"] exI [of _ r1] exI [of _ ?b] exI [of _ b2]
        exI [of _ "put_record (put_record (b_db b) s r1) s r2"] exI [of _ r2] conjI) simp_all
qed

theorem reliable_counter_wraps_witness:
  "\<exists>db1 r1 b2 db2 r2. heartbeats (b_db (example_broker [])) (concat (replicate 3 [[0, 1, 2], [1, 2], [2, 1], [1, 2]])) 0 = Inr db1 \<and>
     services_db db1 0 = Some r1 \<and> num_copies_reliable r1 = 0 \<and>
     get_request example_env (client_frame 9, [], enc_request (request_for 0 (replicate 100 53))) ((example_broker [])\<lparr>b_db := db1\<rparr>) = Inr b2 \<and>
     sent b2 = sent (example_broker []) \<and>
     heartbeats db1 (replicate 4 []) 0 = Inr db2 \<and> services_db db2 0 = Some r2 \<and> unat (num_copies_reliable r2) = 254 \<and>
     lost_pong r1 ! 2 < LIVENESS"
proof -
  let ?idss = "concat (replicate 3 [[0, 1, 2], [1, 2], [2, 1], [1, 2]]) :: uint8 list list" and ?b = "example_broker []"
  have r: "services_db (b_db ?b) 0 = Some example_record" by (simp add: example_record_def)
  have rec: "\<forall>np \<in> set (new_pong example_record). \<not> np" "\<forall>lp \<in> set (lost_pong example_record). lp < LIVENESS"
    "3 = unat (db_nmr (b_db ?b))" "2 \<le> (3 :: nat)" "0 < (3 :: nat)" by (simp_all add: example_record_def)
  have ids: "\<forall>ids \<in> set ?idss. \<forall>i \<in> set ids. unat i < 3" by (simp add: numeral_3_eq_3)
  have cnt: "num_copies_reliable example_record \<noteq> 0" "3 \<le> (3 :: nat)" by (simp_all add: example_record_def)
  have pongs: "pongs_of 0 ?idss = concat (replicate (unat (num_copies_reliable example_record)) (True # replicate 3 False))"
    "\<forall>i < 3. i \<noteq> 0 \<longrightarrow> deaths (pongs_of i ?idss) (lost_pong example_record ! i) = 0" by code_simp+
  have req: "load 4 1 (client_frame 9) = Inr (9 :: uint32)" "length (replicate 100 (53 :: byte)) = 100"
    "unat (0 :: uint8) < length (available_services ?b)" "available_services ?b ! unat (0 :: uint8) = 0"
    "unat (dealer_skt_index example_record) < length (dealer ?b)"
    by (simp_all add: example_record_def)
  from reliable_counter_wraps [OF example_broker_inv r rec ids cnt pongs req, of example_env "[]"]
  show ?thesis by (elim exE conjE) (intro exI conjI, assumption+, simp_all)
qed

text \<open>
  C6: A crashed copy comes back. All copies of an offered service are registered and none is
  given up; then one copy falls silent for its health checker and for the broker, while the others
  answer every ping. The checker starts a new server with arguments that make it the same copy of the
  same service. If that server registers at once, the broker refuses it and it exits. After the
  intervals in which the silent copy uses up its lost pings the counter has dropped by exactly one;
  then the restarted copy is accepted on the port of the dealer the service already has, no dealer
  and no service is added, and when every copy answers the next ping, all are counted again and none has a loss left.
\<close>

theorem crashed_copy_rejoins:
  assumes "db_inv (b_db b)" and "services_db (b_db b) (ucast svc) = Some r" and "\<forall>np \<in> set (new_pong r). \<not> np"
    and "num_copies_registered r = db_nmr (b_db b)" and "\<forall>lp \<in> set (lost_pong r). lp < LIVENESS"
    and "ucast svc \<in> set (available_services b)" and "dealer_socket r \<noteq> 0"
    and "unat copy < unat (db_nmr (b_db b))"
    and "\<forall>ids \<in> set idss. unat ` set ids = {..<unat (db_nmr (b_db b))} - {unat copy}"
    and "LIVENESS \<le> lost_pong r ! unat copy + int (length idss)"
    and "unat ` set all_ids = {..<unat (db_nmr (b_db b))}"
    and "hc_service hc = svc" and "server_id hc = copy"
    and "1 \<le> unat (hb_liveness hc)" and "unat (hb_liveness hc) \<le> 3" and "pong_arrived hc \<longrightarrow> hb_liveness hc = 3"
    and "\<forall>(fork, p) \<in> set evs. 0 \<le> fork"
    and "\<not> tolerates (if pong_arrived hc then 3 else unat (hb_liveness hc) - 1) (map snd evs)"
    and "get_service_body (ucast svc) = Inr body" and "junk_ptr_null senv"
  shows "\<exists>argv sv. hc_pid hc \<in> set (kills (hc_log (hc_run hcs_iter evs hc))) \<and>
    (''./RSF_server'', argv) \<in> set (programs (hc_log (hc_run hcs_iter evs hc))) \<and>
    server_main argv jv jt ji = Inr sv \<and> srv_id sv = copy \<and> service_type sv = ucast svc \<and>
    (\<exists>b1. register_at env senv f sv b = Inr (b1, Inl Exit_Failure) \<and> b_db b1 = b_db b) \<and>
      (\<exists>db' r' b2 sv2 db3 r3. heartbeats (b_db b) idss (ucast svc) = Inr db' \<and> services_db db' (ucast svc) = Some r' \<and>
         num_copies_registered r' + 1 = db_nmr (b_db b) \<and> lost_pong r' ! unat copy = LIVENESS \<and>
         register_at env senv f sv (b\<lparr>b_db := db'\<rparr>) = Inr (b2, Inr sv2) \<and>
         reg_ok sv2 \<and> broker_port sv2 = uint (dealer_socket r) \<and>
         dealer b2 = dealer b \<and> available_services b2 = available_services b \<and>
         heartbeats (b_db b2) [all_ids] (ucast svc) = Inr db3 \<and> services_db db3 (ucast svc) = Some r3 \<and>
         num_copies_registered r3 = db_nmr (b_db b) \<and> lost_pong r3 = replicate (unat (db_nmr (b_db b))) 0 \<and>
         request_records r3 = request_records r)"
proof -
  have "server_checker.healthy hc" using assms(14-16) by (auto simp: server_checker.healthy_def)
  from server_checker.killed_iff [OF this, of evs] assms(18)
  have "kills (hc_log (hc_run hcs_iter evs hc)) \<noteq> kills (hc_log hc)" by (simp add: server_checker.budget_def)
  with hcs_run_restarts [OF assms(17), of hc] assms(12,13)
  have started: "hc_pid hc \<in> set (kills (hc_log (hc_run hcs_iter evs hc)))"
    "(''./RSF_server'', [[svc], [copy]]) \<in> set (programs (hc_log (hc_run hcs_iter evs hc)))"
    by (auto simp: neq_Nil_conv)
  obtain sv where sv: "server_main [[svc], [copy]] jv jt ji = Inr sv" "srv_id sv = copy" "service_type sv = ucast svc"
    and new: "new_server copy svc ''localhost'' REG_PORT_BROKER jv jt ji = Inr sv"
    using server_main_eq [OF assms(19)] by blast
  from restarted_copy_rejoins [OF assms(1-11) new assms(20), of env f] show ?thesis
    by (intro exI [of _ "[[svc], [copy]]"] exI [of _ sv] conjI started sv) (elim conjE, assumption)+
qed

theorem crashed_copy_rejoins_witness:
  "\<exists>argv sv b1 db' b2 sv2 db3 r3.
     (''./RSF_server'', argv) \<in> set (programs (hc_log (hc_run hcs_iter [(60, False), (70, False), (80, False)] example_hc_server))) \<and>
     server_main argv [] \<lparr>tv_sec = 0, tv_nsec = 0\<rparr> 0 = Inr sv \<and> srv_id sv = 1 \<and>
     register_at example_env example_senv [1] sv (example_broker []) = Inr (b1, Inl Exit_Failure) \<and>
     heartbeats (b_db (example_broker [])) (replicate 4 [2, 0]) 0 = Inr db' \<and>
     register_at example_env example_senv [1] sv ((example_broker [])\<lparr>b_db := db'\<rparr>) = Inr (b2, Inr sv2) \<and> broker_port sv2 = 6000 \<and>
     heartbeats (b_db b2) [[1, 0, 2]] 0 = Inr db3 \<and> services_db db3 0 = Some r3 \<and> num_copies_registered r3 = 3"
proof -
  have inv: "db_inv (b_db (example_broker []))" using example_broker_inv by (simp add: broker_inv_def)
  have r: "services_db (b_db (example_broker [])) (ucast (0 :: uint8)) = Some example_record" by (simp add: example_record_def)
  have rec: "\<forall>np \<in> set (new_pong example_record). \<not> np" "num_copies_registered example_record = db_nmr (b_db (example_broker []))"
    "\<forall>lp \<in> set (lost_pong example_record). lp < 3"
    "ucast (0 :: uint8) \<in> set (available_services (example_broker []))" "dealer_socket example_record \<noteq> 0"
    "unat (1 :: uint8) < unat (db_nmr (b_db (example_broker [])))"
    by (simp_all add: example_record_def)
  have ids: "\<forall>ids \<in> set (replicate 4 [2, 0 :: uint8]). unat ` set ids = {..<unat (db_nmr (b_db (example_broker [])))} - {unat (1 :: uint8)}"
    "3 \<le> lost_pong example_record ! unat (1 :: uint8) + int (length (replicate 4 [2, 0 :: uint8]))"
    "unat ` set [1, 0, 2 :: uint8] = {..<unat (db_nmr (b_db (example_broker [])))}"
    by (auto simp: example_record_def)
  have hc: "hc_service example_hc_server = 0" "server_id example_hc_server = 1"
    "1 \<le> unat (hb_liveness example_hc_server)" "unat (hb_liveness example_hc_server) \<le> 3"
    "pong_arrived example_hc_server \<longrightarrow> hb_liveness example_hc_server = 3"
    "\<forall>(fork, p) \<in> set [(60, False), (70, False), (80, False)]. (0 :: int) \<le> fork"
    "\<not> tolerates (if pong_arrived example_hc_server then 3 else unat (hb_liveness example_hc_server) - 1)
       (map snd [(60 :: int, False), (70, False), (80, False)])"
    by (simp_all add: example_hc_server_def hc_server.defs hc.defs example_hc_broker_def)
  have body: "get_service_body (ucast (0 :: uint8)) = Inr increment" "junk_ptr_null example_senv"
    by (simp_all add: get_service_body_def service_kind_of_def example_senv_def)
  from crashed_copy_rejoins [OF inv r rec ids hc body, of "[]" "\<lparr>tv_sec = 0, tv_nsec = 0\<rparr>" 0 example_env "[1]"]
  show ?thesis by (elim exE conjE) (intro exI conjI, assumption+, simp_all add: example_record_def)
qed

end
