(* ===== verification/RSF_Restart.thy ===== *)
theory RSF_Restart
  imports RSF_Recovery
begin

text \<open>
  Crash and recovery of the broker, as its servers see it. A server that hears nothing gives the
  broker up once its clock has passed enough deadlines; then it registers again, and a fresh
  broker offers the service as soon as all copies have done so.
\<close>

section \<open>A silent broker is given up\<close>

fun idle_iters :: "server_env \<Rightarrow> nat \<Rightarrow> server \<Rightarrow> server res" where
  "idle_iters senv 0 sv = Inr sv"
| "idle_iters senv (Suc n) sv = rbind (server_iter senv (quiet_poll None) sv) (idle_iters senv n)"

text \<open>The clock passes every point in time and stays beyond it.\<close>

definition clock_advances :: "(nat \<Rightarrow> timespec) \<Rightarrow> bool" where
  "clock_advances clock \<longleftrightarrow> (\<forall>t. \<exists>k. \<forall>m \<ge> k. t < clock m)"

definition same_registration :: "server \<Rightarrow> server \<Rightarrow> bool" where
  "same_registration sv sv' \<longleftrightarrow> srv_registrator sv' = srv_registrator sv \<and> srv_reg_io sv' = srv_reg_io sv \<and>
     reply_ptr sv' = reply_ptr sv"

lemma idle_iters_append: "idle_iters senv (m + n) sv = rbind (idle_iters senv m sv) (idle_iters senv n)"
proof (induction m arbitrary: sv)
  case (Suc m)
  then have "idle_iters senv (m + n) = (\<lambda>sv. rbind (idle_iters senv m sv) (idle_iters senv n))" by (simp add: fun_eq_iff)
  then show ?case by (simp add: rbind_assoc)
qed simp

lemma idle_iter_registered:
  "reg_ok sv \<Longrightarrow> server_iter senv (quiet_poll None) sv =
     Inr (check_broker senv (s_clk senv (srv_ticks sv)) (sv\<lparr>srv_ticks := Suc (srv_ticks sv)\<rparr>))"
  by (simp add: server_iter_def srv_clock_def quiet_poll_def)

lemma idle_iters_inv: "idle_iters senv n sv = Inr sv' \<Longrightarrow> server_inv sv \<Longrightarrow> server_inv sv'"
  by (induction n arbitrary: sv) (auto simp: rbind_Inr_iff intro: server_iter_inv)

lemma idle_until_deadline:
  assumes "reg_ok sv" "clock_advances (s_clk senv)"
  shows "\<exists>n. idle_iters senv n sv = Inr (sv\<lparr>srv_ticks := srv_ticks sv + n\<rparr>) \<and>
     time_cmp (s_clk senv (srv_ticks sv + n)) (time_t sv) = 1"
proof -
  obtain k where "\<forall>m \<ge> k. time_cmp (s_clk senv m) (time_t sv) = 1"
    using assms(2) by (auto simp: clock_advances_def time_cmp_iff)
  then have "time_cmp (s_clk senv (srv_ticks sv + k)) (time_t sv) = 1" by simp
  then show ?thesis using assms(1)
  proof (induction k arbitrary: sv)
    case 0
    then show ?case by (intro exI [of _ 0]) simp
  next
    case (Suc k)
    let ?sv = "sv\<lparr>srv_ticks := Suc (srv_ticks sv)\<rparr>"
    show ?case
    proof (cases "time_cmp (s_clk senv (srv_ticks sv)) (time_t sv) = 1")
      case True
      then show ?thesis by (intro exI [of _ 0]) simp
    next
      case False
      then have "server_iter senv (quiet_poll None) sv = Inr ?sv"
        using Suc.prems(2) by (simp add: idle_iter_registered check_broker_def)
      moreover from Suc.IH [of ?sv] Suc.prems obtain n
        where "idle_iters senv n ?sv = Inr (?sv\<lparr>srv_ticks := srv_ticks ?sv + n\<rparr>)"
          "time_cmp (s_clk senv (srv_ticks ?sv + n)) (time_t ?sv) = 1" by auto
      ultimately show ?thesis by (intro exI [of _ "Suc n"]) simp
    qed
  qed
qed

lemma idle_until_loss:
  assumes "server_inv sv" "reg_ok sv" "clock_advances (s_clk senv)"
  shows "\<exists>n sv'. idle_iters senv n sv = Inr sv' \<and> same_registration sv sv' \<and> ping_loss sv' = ping_loss sv + 1 \<and>
     (reg_ok sv' \<longleftrightarrow> ping_loss sv' < LIVENESS)"
proof -
  from idle_until_deadline [OF assms(2,3)] obtain n where n: "idle_iters senv n sv = Inr (sv\<lparr>srv_ticks := srv_ticks sv + n\<rparr>)"
    "time_cmp (s_clk senv (srv_ticks sv + n)) (time_t sv) = 1" by blast
  from assms(1,2) have "ping_loss sv < LIVENESS" by (simp add: server_inv_def)
  then have "\<exists>sv'. server_iter senv (quiet_poll None) (sv\<lparr>srv_ticks := srv_ticks sv + n\<rparr>) = Inr sv' \<and>
      same_registration sv sv' \<and> ping_loss sv' = ping_loss sv + 1 \<and> (reg_ok sv' \<longleftrightarrow> ping_loss sv' < LIVENESS)"
    using n(2) assms(2) by (simp add: idle_iter_registered check_broker_def postpone_eq same_registration_def Let_def)
  then obtain sv' where "idle_iters senv (n + 1) sv = Inr sv'" "same_registration sv sv'" "ping_loss sv' = ping_loss sv + 1"
    "reg_ok sv' \<longleftrightarrow> ping_loss sv' < LIVENESS"
    unfolding idle_iters_append n(1) by auto
  then show ?thesis by blast
qed

lemma silent_broker_lost:
  assumes "server_inv sv" "reg_ok sv" "clock_advances (s_clk senv)"
  shows "\<exists>n sv'. idle_iters senv n sv = Inr sv' \<and> same_registration sv sv' \<and> \<not> reg_ok sv'"
  using assms
proof (induction "nat (LIVENESS - ping_loss sv)" arbitrary: sv rule: less_induct)
  case less
  from idle_until_loss [OF less.prems] obtain n sv1 where sv1: "idle_iters senv n sv = Inr sv1" "same_registration sv sv1"
    "ping_loss sv1 = ping_loss sv + 1" "reg_ok sv1 \<longleftrightarrow> ping_loss sv1 < LIVENESS" by blast
  show ?case
  proof (cases "reg_ok sv1")
    case False
    with sv1 show ?thesis by blast
  next
    case True
    have "server_inv sv1" by (rule idle_iters_inv [OF sv1(1) less.prems(1)])
    moreover have "nat (LIVENESS - ping_loss sv1) < nat (LIVENESS - ping_loss sv)" using sv1(3,4) True by simp
    ultimately obtain m sv' where "idle_iters senv m sv1 = Inr sv'" "same_registration sv1 sv'" "\<not> reg_ok sv'"
      using less.hyps True less.prems(3) by blast
    with sv1 show ?thesis by (intro exI [of _ "n + m"]) (auto simp: idle_iters_append same_registration_def)
  qed
qed

section \<open>All copies register at a fresh broker\<close>

fun rejoin_all :: "broker_env \<Rightarrow> frame \<Rightarrow> (server_env \<times> server) list \<Rightarrow> broker \<Rightarrow> (broker \<times> server list) res" where
  "rejoin_all env f [] b = Inr (b, [])"
| "rejoin_all env f ((senv, sv) # svs) b =
     rbind (register_at env senv f sv b) (\<lambda>(b1, r). rbind r (\<lambda>sv'.
     rbind (rejoin_all env f svs b1) (\<lambda>(b2, svs'). Inr (b2, sv' # svs'))))"

definition connected_to :: "uint16 \<Rightarrow> server \<Rightarrow> bool" where
  "connected_to port sv \<longleftrightarrow> reg_ok sv \<and> broker_port sv = uint port"

lemma rejoin_one:
  assumes "may_register senv s sv" "get_registration env (registration_frames f s) b = Inr b1"
    and "sent b1 = sent b @ registration_reply f port" "port \<noteq> 0"
    and "rejoin_all env f svs b1 = Inr (b2, svs2)" "\<forall>sv \<in> set svs2. connected_to port sv"
  shows "\<exists>svs'. rejoin_all env f ((senv, sv) # svs) b = Inr (b2, svs') \<and> length svs' = Suc (length svs2) \<and>
     (\<forall>sv \<in> set svs'. connected_to port sv)"
  using register_at_answer(2) [OF assms(1-4)] assms(5,6) by (force simp: connected_to_def)

lemma rejoin_rest:
  assumes "services_db (b_db b) s = Some r" "s \<notin> set (available_services b)" "svs \<noteq> []"
    and "unat (num_copies_registered r) + length svs = unat (db_nmr (b_db b))" "dealer_socket r \<noteq> 0"
    and "\<forall>(senv, sv) \<in> set svs. may_register senv s sv"
  shows "\<exists>b' svs' r'. rejoin_all env f svs b = Inr (b', svs') \<and> length svs' = length svs \<and>
     (\<forall>sv \<in> set svs'. connected_to (dealer_socket r) sv) \<and> available_services b' = available_services b @ [s] \<and>
     dealer b' = dealer b @ [dealer_conf (dealer_socket r)] \<and> services_db (b_db b') s = Some r' \<and>
     num_copies_registered r' = db_nmr (b_db b) \<and> same_port r r'"
  using assms
proof (induction svs arbitrary: b r)
  case (Cons p svs)
  obtain senv sv where p: "p = (senv, sv)" by (cases p)
  let ?n = "db_nmr (b_db b)"
  have less: "num_copies_registered r < ?n" using Cons.prems(4) by (simp add: word_less_nat_alt)
  have sv: "may_register senv s sv" using Cons.prems(6) p by simp
  have u: "unat (num_copies_registered r + 1) = Suc (unat (num_copies_registered r))"
    using less by (intro uint8_Suc [of _ ?n]) (simp add: word_less_nat_alt)
  show ?case
  proof (cases svs)
    case Nil
    then have "num_copies_registered r + 1 = ?n" using Cons.prems(4) u by (simp add: word_unat_eq_iff)
    note reg = get_registration_last [OF Cons.prems(1) less this Cons.prems(2), of env f]
    from rejoin_one [OF sv reg _ Cons.prems(5), where svs = "[]"] show ?thesis
      using Nil p \<open>num_copies_registered r + 1 = ?n\<close>
      by (fastforce simp: one_more_def same_port_def)
  next
    case (Cons _ _)
    then have ne: "num_copies_registered r + 1 \<noteq> ?n" using Cons.prems(4) u by (auto simp: word_unat_eq_iff)
    let ?b = "b\<lparr>sent := sent b @ registration_reply f (dealer_socket r), b_db := put_record (b_db b) s (one_more r)\<rparr>"
    note reg = get_registration_more [OF Cons.prems(1) less ne, of env f]
    have "services_db (b_db ?b) s = Some (one_more r)" "s \<notin> set (available_services ?b)" "svs \<noteq> []"
      "unat (num_copies_registered (one_more r)) + length svs = unat (db_nmr (b_db ?b))" "dealer_socket (one_more r) \<noteq> 0"
      "\<forall>(senv, sv) \<in> set svs. may_register senv s sv"
      using Cons.prems Cons u by (simp_all add: one_more_def)
    from Cons.IH [OF this] obtain b' svs' r' where b': "rejoin_all env f svs ?b = Inr (b', svs')" "length svs' = length svs"
      "\<forall>sv \<in> set svs'. connected_to (dealer_socket r) sv" "available_services b' = available_services b @ [s]"
      "dealer b' = dealer b @ [dealer_conf (dealer_socket r)]" "services_db (b_db b') s = Some r'"
      "num_copies_registered r' = ?n" "same_port r r'"
      by (auto simp: one_more_def same_port_def)
    from rejoin_one [OF sv reg _ Cons.prems(5) b'(1,3)] b' p show ?thesis by fastforce
  qed
qed simp

lemma fresh_broker_rejoined:
  assumes "new_broker nmr p_router p_reg now = Inr b0" "2 \<le> unat nmr" "length svs = unat nmr"
    and "\<forall>(senv, sv) \<in> set svs. may_register senv s sv"
  shows "\<exists>b svs' r. rejoin_all env f svs b0 = Inr (b, svs') \<and> length svs' = unat nmr \<and>
     (\<forall>sv \<in> set svs'. connected_to DEALER_START_PORT sv) \<and> available_services b = [s] \<and>
     dealer b = [dealer_conf DEALER_START_PORT] \<and> services_db (b_db b) s = Some r \<and> num_copies_registered r = nmr \<and>
     find_registration (b_db b) s = 0"
proof -
  from assms(1) have b0: "b_db b0 = init_db nmr" "available_services b0 = []" "dealer b0 = []"
    "available_dealer_port b0 = DEALER_START_PORT" by (auto simp: new_broker_eq)
  from assms(2,3) obtain senv sv rest where svs: "svs = (senv, sv) # rest" "rest \<noteq> []"
    by (cases svs rule: remdups_adj.cases) auto
  let ?r = "first_record nmr DEALER_START_PORT 0"
  have "services_db (b_db b0) s = None" by (simp add: b0 init_db_def)
  from get_registration_first [OF this, of env f] obtain b1
    where b1: "get_registration env (registration_frames f s) b0 = Inr b1" "sent b1 = sent b0 @ registration_reply f DEALER_START_PORT"
      "services_db (b_db b1) s = Some ?r" "available_services b1 = []" "dealer b1 = []" "db_nmr (b_db b1) = nmr"
    by (auto simp: b0 init_db_def)
  have "unat (num_copies_registered ?r) + length rest = unat (db_nmr (b_db b1))" "dealer_socket ?r \<noteq> 0"
    "\<forall>(senv, sv) \<in> set rest. may_register senv s sv" "s \<notin> set (available_services b1)"
    using assms(3,4) svs b1(4,6) by (auto simp: first_record_def)
  from rejoin_rest [OF b1(3) this(4) svs(2) this(1,2,3), of env f] obtain b svs2 r
    where b: "rejoin_all env f rest b1 = Inr (b, svs2)" "length svs2 = length rest"
      "\<forall>sv \<in> set svs2. connected_to DEALER_START_PORT sv" "available_services b = [s]"
      "dealer b = [dealer_conf DEALER_START_PORT]" "services_db (b_db b) s = Some r" "num_copies_registered r = nmr" "same_port ?r r"
    using b1(4-6) by (auto simp: first_record_def)
  have "find_registration (b_db b) s = 0" using b(6,8) by (simp add: find_registration_def same_port_def first_record_def)
  moreover have "may_register senv s sv" using assms(4) svs by simp
  from rejoin_one [OF this b1(1,2) _ b(1,3)] obtain svs'
    where "rejoin_all env f svs b0 = Inr (b, svs')" "length svs' = Suc (length svs2)" "\<forall>sv \<in> set svs'. connected_to DEALER_START_PORT sv"
    unfolding svs(1) by auto
  moreover have "Suc (length svs2) = unat nmr" using assms(3) svs b(2) by simp
  ultimately show ?thesis using b(4-7) by metis
qed

section \<open>The registration of a registered server is over\<close>

text \<open>A registered server has no registration message unanswered, and it always registers the same service.\<close>

definition registration_inv :: "service_type_t \<Rightarrow> server \<Rightarrow> bool" where
  "registration_inv s sv \<longleftrightarrow> rgt_service (srv_registrator sv) = s \<and> (reg_ok sv \<longrightarrow> \<not> send_reg (srv_reg_io sv))"

lemma registration_inv_frame [simp]:
  "registration_inv s (sv\<lparr>srv_ticks := n\<rparr>) = registration_inv s sv" "registration_inv s (sv\<lparr>time_t := t\<rparr>) = registration_inv s sv"
  "registration_inv s (sv\<lparr>srv_sent := es\<rparr>) = registration_inv s sv" "registration_inv s (sv\<lparr>request_id := r\<rparr>) = registration_inv s sv"
  "registration_inv s (sv\<lparr>ping_id := r\<rparr>) = registration_inv s sv" "registration_inv s (sv\<lparr>received_id := r\<rparr>) = registration_inv s sv"
  "registration_inv s (sv\<lparr>srv_val := v\<rparr>) = registration_inv s sv" "registration_inv s (sv\<lparr>threads := ts\<rparr>) = registration_inv s sv"
  "registration_inv s (sv\<lparr>ping_loss := l\<rparr>) = registration_inv s sv" "registration_inv s (sv\<lparr>srv_items := is\<rparr>) = registration_inv s sv"
  by (simp_all add: registration_inv_def)

lemma reply_send_registration: "reply_send f sv = Inr sv' \<Longrightarrow> registration_inv s sv \<Longrightarrow> registration_inv s sv'"
  by (auto simp: reply_send_def split: socket_ptr.splits)

lemma create_thread_registration: "create_thread sv = Inr sv' \<Longrightarrow> registration_inv s sv \<Longrightarrow> registration_inv s sv'"
  by (cases "reply_ptr sv") (auto simp: create_thread_def rbind_Inr_iff)

lemma receive_request_registration:
  assumes "receive_request msg sv = Inr (hb, sv')" "registration_inv s sv"
  shows "registration_inv s sv'"
proof -
  from assms(1) obtain sm where sm: "dec_service msg = Inr sm" by (auto simp: receive_request_def rbind_Inr_iff)
  with assms show ?thesis
    by (cases "sm_heartbeat sm"; cases "cstring (sm_parameters sm)") (auto simp: receive_request_def)
qed

lemma serve_request_registration:
  assumes "serve_request env msg sv = Inr sv'" "registration_inv s sv"
  shows "registration_inv s sv'"
proof -
  from assms(1) obtain hb sv1 where sv1: "receive_request msg sv = Inr (hb, sv1)"
    by (auto simp: serve_request_def rbind_Inr_iff)
  with assms receive_request_registration [OF sv1 assms(2)] show ?thesis
    by (auto simp: serve_request_def pong_broker_def Let_def postpone_eq split: if_splits
        elim!: reply_send_registration create_thread_registration)
qed

lemma try_register_registration:
  assumes "try_register env reply sv = Inr sv'" "registration_inv s sv" "\<not> reg_ok sv"
  shows "registration_inv s sv'"
proof -
  from assms(1) obtain port io where reg: "registration (srv_registrator sv) reply (srv_reg_io sv) = Inr (port, io)"
    by (auto simp: try_register_def rbind_Inr_iff)
  then have io: "0 < port \<longrightarrow> \<not> send_reg io"
    by (auto simp: registration_eq register_service_def Let_def rbind_Inr_iff split: option.splits)
  show ?thesis
  proof (cases "0 < port \<and> port \<le> 65535")
    case False
    with assms reg show ?thesis by (auto simp: try_register_def registration_inv_def split: if_splits)
  next
    case True
    with assms(1) reg have "sv' = postpone env (sv\<lparr>broker_port := port, srv_reg_io := io, reply_ptr := Socket (next_socket sv),
        next_socket := Suc (next_socket sv), srv_items := srv_items sv @ [Reply (next_socket sv)], reg_ok := True, ping_loss := 0\<rparr>)"
      by (auto simp: try_register_def delete_reply_def split: if_splits)
    with assms(2) io True show ?thesis by (simp add: postpone_eq registration_inv_def)
  qed
qed

lemma check_broker_registration: "registration_inv s sv \<Longrightarrow> registration_inv s (check_broker env now sv)"
  by (auto simp: check_broker_def Let_def postpone_eq registration_inv_def)

lemma server_iter_registration:
  assumes "server_iter env ev sv = Inr sv'" "registration_inv s sv"
  shows "registration_inv s sv'"
proof -
  let ?s0 = "sv\<lparr>srv_ticks := Suc (srv_ticks sv)\<rparr>"
  from assms(1) obtain s1 s3
    where s1: "(if reg_ok sv then (case ev_request ev of None \<Rightarrow> Inr ?s0 | Some msg \<Rightarrow> serve_request env msg ?s0)
        else Inr ?s0) = Inr s1"
      and s3: "(let s2 = (if ev_ping ev then srv_pong_health_checker s1 else s1)
        in if \<not> reg_ok s2 then try_register env (ev_reg_reply ev) s2 else Inr s2) = Inr s3"
      and sv': "sv' = check_broker env (s_clk env (srv_ticks sv)) s3"
    by (auto simp: server_iter_def srv_clock_def rbind_Inr_iff Let_def)
  from s1 assms(2) have "registration_inv s s1" by (auto split: if_splits option.splits elim!: serve_request_registration)
  then have "registration_inv s (if ev_ping ev then srv_pong_health_checker s1 else s1)"
    by (simp add: srv_pong_health_checker_def)
  with s3 have "registration_inv s s3" by (auto simp: Let_def split: if_splits elim!: try_register_registration)
  then show ?thesis unfolding sv' by (rule check_broker_registration)
qed

interpretation registration_loop: step_system "server_step env" "registration_inv s" for env s
  by unfold_locales
    (auto elim!: server_step.cases simp: task_def rbind_Inr_iff split: if_splits intro: server_iter_registration)

lemma new_server_registration: "new_server copy svc address port v t i = Inr sv \<Longrightarrow> registration_inv (ucast svc) sv"
  by (auto simp: new_server_def new_registrator_def rbind_Inr_iff registration_inv_def)

section \<open>Properties\<close>

text \<open>
  C5: The framework survives a crash of the broker. Take as many servers of one service as the
  broker votes over, each in any state it can reach in which it is registered. If nothing arrives
  any more and their clocks go on, every one of them gives the broker up after some number of
  iterations; when they then register at a freshly started broker, in any order, all of them are
  accepted on the same port and the broker offers the service on the dealer it has bound to that port.
\<close>

theorem broker_restart_recovers:
  assumes "new_broker nmr p_router p_reg now = Inr b0" and "2 \<le> unat nmr" and "length svs = unat nmr"
    and "\<forall>(senv, sv) \<in> set svs. clock_advances (s_clk senv) \<and> reg_ok sv \<and>
       (\<exists>copy address port v t i sv0. new_server copy svc address port v t i = Inr sv0 \<and> (server_step senv)\<^sup>*\<^sup>* sv0 sv)"
  shows "\<exists>lost b svs' r. map fst lost = map fst svs \<and>
     (\<forall>j < length svs. \<exists>n. idle_iters (fst (svs ! j)) n (snd (svs ! j)) = Inr (snd (lost ! j)) \<and> \<not> reg_ok (snd (lost ! j))) \<and>
     rejoin_all env f lost b0 = Inr (b, svs') \<and> length svs' = unat nmr \<and> (\<forall>sv \<in> set svs'. connected_to DEALER_START_PORT sv) \<and>
     available_services b = [ucast svc] \<and> dealer b = [dealer_conf DEALER_START_PORT] \<and>
     services_db (b_db b) (ucast svc) = Some r \<and> num_copies_registered r = nmr \<and> find_registration (b_db b) (ucast svc) = 0"
proof -
  have "\<exists>n sv'. idle_iters senv n sv = Inr sv' \<and> may_register senv (ucast svc) sv'" if "(senv, sv) \<in> set svs" for senv sv
  proof -
    from assms(4) that obtain copy address port v t i sv0
      where sv: "clock_advances (s_clk senv)" "reg_ok sv" "new_server copy svc address port v t i = Inr sv0" "(server_step senv)\<^sup>*\<^sup>* sv0 sv"
      by blast
    have inv: "server_inv sv" "registration_inv (ucast svc) sv"
      by (rule server_loop.steps_inv [OF sv(4) new_server_inv [OF sv(3)]])
        (rule registration_loop.steps_inv [OF sv(4) new_server_registration [OF sv(3)]])
    from silent_broker_lost [OF inv(1) sv(2,1)] inv sv(2) show ?thesis
      by (fastforce simp: may_register_def same_registration_def registration_inv_def server_inv_def)
  qed
  then have "\<forall>p \<in> set svs. \<exists>sv'. (\<exists>n. idle_iters (fst p) n (snd p) = Inr sv') \<and> may_register (fst p) (ucast svc) sv'"
    by (metis prod.collapse)
  then obtain give_up where lost: "\<forall>p \<in> set svs. (\<exists>n. idle_iters (fst p) n (snd p) = Inr (give_up p)) \<and>
      may_register (fst p) (ucast svc) (give_up p)" by metis
  define ls where "ls = map (\<lambda>p. (fst p, give_up p)) svs"
  have regs: "\<forall>(senv, sv) \<in> set ls. may_register senv (ucast svc) sv" using lost by (auto simp: ls_def)
  have len: "length ls = unat nmr" using assms(3) by (simp add: ls_def)
  from fresh_broker_rejoined [OF assms(1,2) len regs] obtain b svs' r
    where "rejoin_all env f ls b0 = Inr (b, svs')" "length svs' = unat nmr" "\<forall>sv \<in> set svs'. connected_to DEALER_START_PORT sv"
      "available_services b = [ucast svc]" "dealer b = [dealer_conf DEALER_START_PORT]"
      "services_db (b_db b) (ucast svc) = Some r" "num_copies_registered r = nmr" "find_registration (b_db b) (ucast svc) = 0"
    by blast
  moreover have "map fst ls = map fst svs" by (simp add: ls_def)
  moreover have "\<forall>j < length svs. \<exists>n. idle_iters (fst (svs ! j)) n (snd (svs ! j)) = Inr (snd (ls ! j)) \<and> \<not> reg_ok (snd (ls ! j))"
    using lost by (auto simp: ls_def may_register_def)
  ultimately show ?thesis by blast
qed

lemma example_clock_advances: "clock_advances (s_clk example_senv)"
proof -
  have "t < s_clk example_senv m" if "m \<ge> nat (tv_sec t + 1)" for m t
    using that by (auto simp: example_senv_def less_timespec_ext_def)
  then show ?thesis unfolding clock_advances_def by blast
qed

theorem broker_restart_recovers_witness:
  "\<exists>sv lost b0 b svs'. example_server = Inr sv \<and> new_broker 2 5559 5555 \<lparr>tv_sec = 0, tv_nsec = 0\<rparr> = Inr b0 \<and>
     map fst lost = [example_senv, example_senv] \<and> rejoin_all example_env [1] lost b0 = Inr (b, svs') \<and>
     length svs' = 2 \<and> available_services b = [0] \<and> find_registration (b_db b) 0 = 0"
proof -
  obtain b0 where b0: "new_broker 2 5559 5555 \<lparr>tv_sec = 0, tv_nsec = 0\<rparr> = Inr b0" by (simp add: new_broker_eq)
  obtain sv0 sv where sv: "new_server 1 0 ''localhost'' 5555 [] \<lparr>tv_sec = 0, tv_nsec = 0\<rparr> 0 = Inr sv0"
    "example_server = Inr sv" "server_step example_senv sv0 sv" "reg_ok sv" by (rule example_server_eq)
  let ?svs = "[(example_senv, sv), (example_senv, sv)]"
  have "\<exists>copy address port v t i sv0. new_server copy 0 address port v t i = Inr sv0 \<and> (server_step example_senv)\<^sup>*\<^sup>* sv0 sv"
    using sv(1,3) by blast
  with sv(4) example_clock_advances have all: "\<forall>(senv, sv) \<in> set ?svs. clock_advances (s_clk senv) \<and> reg_ok sv \<and>
      (\<exists>copy address port v t i sv0. new_server copy 0 address port v t i = Inr sv0 \<and> (server_step senv)\<^sup>*\<^sup>* sv0 sv)"
    by (simp only: set_simps prod.case ball_simps)
  have len: "2 \<le> unat (2 :: uint8)" "length ?svs = unat (2 :: uint8)" by simp_all
  from broker_restart_recovers [OF b0 len all, where env = example_env and f = "[1]"] obtain lost b svs'
    where "map fst lost = map fst ?svs" "rejoin_all example_env [1] lost b0 = Inr (b, svs')"
      "length svs' = unat (2 :: uint8)" "available_services b = [ucast (0 :: uint8)]" "find_registration (b_db b) (ucast (0 :: uint8)) = 0"
    by (elim exE conjE)
  then show ?thesis using b0 sv(2)
    by (intro exI [of _ sv] exI [of _ lost] exI [of _ b0] exI [of _ b] exI [of _ svs'] conjI) simp_all
qed

end
