(* ===== verification/RSF_Lifetime.thy ===== *)
theory RSF_Lifetime
  imports RSF_Mains RSF_Routing RSF_Server_Facts
begin

text \<open>
  What the destructors do. An object owns a context and sockets of that context; a \<open>delete\<close> of
  a socket closes it and a \<open>delete\<close> of the context terminates it. Termination belongs to the
  transport library: \<open>returns n\<close> says whether it returns while \<open>n\<close> sockets of the context are
  still open. Documented is that it does not while there is one; without open sockets it may
  still wait for messages that have not been delivered. The other members of the objects
  release only memory.
\<close>

section \<open>Deleting sockets and contexts\<close>

datatype 'k deletion = Close 'k | Terminate

fun release :: "(nat \<Rightarrow> bool) \<Rightarrow> 'k deletion list \<Rightarrow> 'k list \<Rightarrow> 'k list res" where
  "release returns [] open_skts = Inr open_skts"
| "release returns (Close k # rs) open_skts =
     (if k \<in> set open_skts then release returns rs (remove1 k open_skts) else Inl Undefined_Behaviour)"
| "release returns (Terminate # rs) open_skts =
     (if returns (length open_skts) then release returns rs open_skts else Inl Diverges)"

definition waits_for_sockets :: "(nat \<Rightarrow> bool) \<Rightarrow> bool" where
  "waits_for_sockets returns \<longleftrightarrow> (\<forall>n. returns n \<longrightarrow> n = 0)"

section \<open>The destructors\<close>

definition client_destructor :: "(nat \<Rightarrow> bool) \<Rightarrow> rsf_client \<Rightarrow> socket_conf list res" where
  "client_destructor returns c = release returns [Close (cl_socket c), Terminate] [cl_socket c]"

definition hc_destructor :: "(nat \<Rightarrow> bool) \<Rightarrow> 'a hc_scheme \<Rightarrow> socket_conf list res" where
  "hc_destructor returns s = release returns [Close (hb_skt s), Terminate] [hb_skt s]"

text \<open>The sockets of a broker are those it polls.\<close>

definition broker_destructor :: "(nat \<Rightarrow> bool) \<Rightarrow> broker \<Rightarrow> broker_socket list res" where
  "broker_destructor returns b = release returns [Close Router, Close Reg, Terminate] (poll_items b)"

text \<open>
  A server owns the socket of its health checker, that of its registrator and the reply socket,
  which stays open when the broker is given up.
\<close>

datatype server_owned = Served server_socket | Registration

definition server_sockets :: "server \<Rightarrow> server_owned list" where
  "server_sockets s = [Served HcPong, Registration] @
     (case reply_ptr s of Indeterminate \<Rightarrow> [] | Socket k \<Rightarrow> [Served (Reply k)])"

definition registrator_destructor :: "(nat \<Rightarrow> bool) \<Rightarrow> server_owned list \<Rightarrow> server_owned list res" where
  "registrator_destructor returns open_skts = release returns [Close Registration] open_skts"

definition server_destructor :: "(nat \<Rightarrow> bool) \<Rightarrow> server_env \<Rightarrow> server \<Rightarrow> server_owned list res" where
  "server_destructor returns env s =
     rbind (release returns [Terminate] (server_sockets s)) (\<lambda>skts.
     rbind (case reply_ptr s of
              Indeterminate \<Rightarrow> if junk_ptr_null env then Inr skts else Inl Undefined_Behaviour
            | Socket k \<Rightarrow> release returns [Close (Served (Reply k))] skts)
       (registrator_destructor returns))"

section \<open>Lemmas\<close>

lemma release_closes:
  assumes "distinct ks" "set ks \<subseteq> set open_skts" "distinct open_skts"
  shows "release returns (map Close ks @ rs) open_skts = release returns rs (filter (\<lambda>k. k \<notin> set ks) open_skts)"
  using assms
proof (induction ks arbitrary: open_skts)
  case (Cons k ks)
  have "filter (\<lambda>j. j \<notin> set ks) (remove1 k open_skts) = filter (\<lambda>j. j \<notin> set (k # ks)) open_skts"
    using Cons.prems(3) by (auto simp: distinct_remove1_removeAll removeAll_filter_not_eq intro: filter_cong)
  with Cons.IH [of "remove1 k open_skts"] Cons.prems show ?case by auto
qed simp

text \<open>Closing every socket before the context is terminated is what can let the termination return.\<close>

lemma terminate_after_closing:
  assumes "waits_for_sockets returns" "distinct ks" "set ks \<subseteq> set open_skts" "distinct open_skts"
  shows "release returns (map Close ks @ [Terminate]) open_skts =
    (if set open_skts \<subseteq> set ks \<and> returns 0 then Inr [] else Inl Diverges)"
proof -
  have "filter (\<lambda>k. k \<notin> set ks) open_skts = [] \<longleftrightarrow> set open_skts \<subseteq> set ks" by (auto simp: filter_empty_conv)
  with assms show ?thesis by (auto simp: release_closes waits_for_sockets_def)
qed

lemma broker_owns:
  assumes "broker_inv b"
  shows "distinct (poll_items b)" "set (poll_items b) = {Router, Reg, Hc} \<union> Dealer ` {..<length (dealer b)}"
  using assms by (auto simp: broker_inv_def distinct_map inj_on_def)

text \<open>
  The destructor of a broker, in every state it reaches, never returns, because the health
  checker's socket and the dealers are not closed, and neither does that of a server, which
  terminates the context first. Those of a client and of a health checker close their socket
  first and return if the termination does; so would that of the broker, had it closed all the
  sockets it polls.
\<close>

lemma broker_destructor_blocks:
  assumes "waits_for_sockets returns" "broker_inv b"
  shows "broker_destructor returns b = Inl Diverges"
proof -
  note owns = broker_owns [OF assms(2)]
  have "broker_destructor returns b = release returns (map Close [Router, Reg] @ [Terminate]) (poll_items b)"
    by (simp add: broker_destructor_def)
  also have "\<dots> = Inl Diverges" using terminate_after_closing [OF assms(1) _ _ owns(1), of "[Router, Reg]"] owns(2) by auto
  finally show ?thesis .
qed

lemma broker_could_return:
  assumes "waits_for_sockets returns" "broker_inv b" "returns 0"
  shows "release returns (map Close (poll_items b) @ [Terminate]) (poll_items b) = Inr []"
  using terminate_after_closing [OF assms(1) broker_owns(1) subset_refl broker_owns(1)] assms(2,3) by simp

lemma reachable_broker_destructor_blocks:
  assumes "waits_for_sockets returns" "new_broker nmr p_router p_reg now = Inr b0" "broker_iter\<^sup>*\<^sup>* b0 b"
  shows "broker_destructor returns b = Inl Diverges"
  by (rule broker_destructor_blocks [OF assms(1) broker_loop.steps_inv [OF assms(3) new_broker_inv [OF assms(2)]]])

lemma server_destructor_blocks: "waits_for_sockets returns \<Longrightarrow> server_destructor returns env s = Inl Diverges"
  by (auto simp: server_destructor_def server_sockets_def waits_for_sockets_def)

lemma client_destructor_eq: "client_destructor returns c = (if returns 0 then Inr [] else Inl Diverges)"
  by (simp add: client_destructor_def)

lemma hc_destructor_eq: "hc_destructor returns s = (if returns 0 then Inr [] else Inl Diverges)"
  by (simp add: hc_destructor_def)

end
