(* ===== verification/Spec2Isabelle.thy ===== *)
theory Spec2Isabelle
  imports RSF_Log RSF_Example RSF_Restart RSF_Lifetime
begin

text \<open>
  \<^bold>\<open>Verification of the Reliable Service Framework.\<close>

  The framework runs \<open>nmr\<close> copies of every service, sends each client request to all of them and
  answers with the value a majority returns. Its parts are processes that exchange ZeroMQ messages:

  \<^item> the \<^emph>\<open>broker\<close> (\<^verbatim>\<open>src/broker\<close>) has a ROUTER socket for clients, one for registrations, a
    DEALER socket per service and a socket for its health checker. It keeps a service database
    with the copies, their heartbeat counters and the pending requests, and votes on the replies;
  \<^item> a \<^emph>\<open>server copy\<close> (\<^verbatim>\<open>src/server\<close>) registers with the broker, is told the port of the dealer
    of its service, answers pings, and computes each accepted request in a detached thread;
  \<^item> a \<^emph>\<open>client\<close> (\<^verbatim>\<open>include/rsf_api.hpp\<close>, \<^verbatim>\<open>src/framework\<close>, \<^verbatim>\<open>src/client\<close>) sends a service
    code with its arguments as text and waits for one response;
  \<^item> \<^emph>\<open>health checkers\<close> (\<^verbatim>\<open>src/utilities\<close>, \<^verbatim>\<open>src/health_checker_broker\<close>,
    \<^verbatim>\<open>src/health_checker_server\<close>) ping the broker or a copy and restart it when it is silent;
  \<^item> the \<^emph>\<open>deployment unit\<close> (\<^verbatim>\<open>src/deployment_unit\<close>) starts the copies of a service.

  \<^bold>\<open>How the code is modelled.\<close> A class is a record, an enumeration a datatype, an integer a word of
  its width; every member function is a definition of the same name with the state passed in and
  returned. A routine that may not return has type \<open>'a res\<close>: \<open>Inl\<close> is a \<open>fault\<close> (an
  \<open>exit(EXIT_FAILURE)\<close>, an exception of the transport, undefined behaviour, a loop without end). Sends are
  appended to a log as frames with their more-flag. One iteration of an endless loop is one
  definition that takes what \<open>zmq::poll\<close> found. What the sources do not determine is an argument: clock
  readings, uninitialised memory, reachable peers, process identifiers, options found by \<open>getopt\<close>.

  \<^bold>\<open>Theories.\<close>

  \<^item> \<open>RSF_Prelude\<close>: word types of \<^verbatim>\<open>include/types.hpp\<close>, faults, checked vector access, little-endian
    loads, byte order (locale \<open>byte_order\<close>), the scheme \<open>step_system\<close> of invariants of step relations.
  \<^item> \<open>RSF_Comm\<close>: constants and structures of \<^verbatim>\<open>include/communication.hpp\<close> with their byte layout; the
    locale of a structure on the wire is interpreted on all five of them.
  \<^item> \<open>RSF_Time\<close>, \<open>RSF_Socket\<close>, \<open>RSF_Log\<close>: the functions of \<^verbatim>\<open>src/utilities/util.cpp\<close> (time arithmetic,
    \<open>busy_wait\<close>, \<open>add_socket\<close>, \<open>send_multi_msg\<close>, \<open>write_log\<close>), and the two routines that print tables. Adding
    milliseconds is modelled with the 64-bit and \<open>double\<close> arithmetic of the source and in integers; the components
    use the latter, and it is shown when the two agree.
  \<^item> \<open>RSF_Params\<close>, \<open>RSF_Service\<close>: \<open>serialize\<close>, \<open>deserialize\<close> and the services of
    \<^verbatim>\<open>src/server/service.cpp\<close>. They show the round trip of arguments and that a service computes its
    specification, with overflow of signed arithmetic as a fault.
  \<^item> \<open>RSF_Voter\<close>: \<open>RSF_Broker::vote\<close> with its byte-wide counters, and the locale of a majority voter: the
    value returned is the strict majority if there is one.
  \<^item> \<open>RSF_Database\<close>, \<open>RSF_Database_Facts\<close>: all operations of \<open>ServiceDatabase\<close>; the locales
    \<open>record_operation\<close> and of the table of pending requests; the invariant of the records, the
    heartbeat pass, registration of a group of copies, and what deleting a request leaves behind.
  \<^item> \<open>RSF_Broker\<close>: all member functions of \<open>RSF_Broker\<close> and the body of its main loop \<open>broker_step\<close>.
  \<^item> \<open>RSF_Broker_Inv\<close>, \<open>RSF_Sessions\<close>, \<open>RSF_Broker_Facts\<close>: the structural invariant; the abstract voting
    session \<open>vote_step\<close>, which \<open>get_response\<close> refines; forwarding and answering.
  \<^item> \<open>RSF_Timeouts\<close>, \<open>RSF_Routing\<close>: expired requests and heartbeats; which dealer belongs to which service.
  \<^item> \<open>RSF_Broker_Run\<close>: the locale \<open>broker_actions\<close>. It lists what an assertion must satisfy for each
    elementary action of the broker, the storing of a result apart, and proves what the main loop then keeps;
    \<open>broker_invariant\<close> extends it by the law for results. The latter is interpreted three times: for the types of
    the messages sent (\<open>RSF_Typing\<close>), for sent answers and for waiting requests (\<open>RSF_Liveness\<close>); the former
    once, for the correctness of results when some replies are wrong (\<open>RSF_System\<close>).
  \<^item> \<open>RSF_Progress\<close>: conditions under which no iteration of the broker runs into a fault.
  \<^item> \<open>RSF_Api\<close>, \<open>RSF_Server\<close>, \<open>RSF_Server_Facts\<close>: client requests, registration, the server copy with its
    threads; its invariant, which requests it executes, and when it gives the broker up.
  \<^item> \<open>RSF_Recovery\<close>, \<open>RSF_Restart\<close>: series of heartbeat intervals in closed form, and what repeated outages of one
    copy do to the counters; a crashed copy from its health
    checker over the server it starts to the registration at a broker that already offers the service; and the
    registration of all copies at a restarted broker.
  \<^item> \<open>RSF_Lifetime\<close>: the destructors, as sequences of deletions of sockets and contexts.
  \<^item> \<open>RSF_Health\<close>: both health checkers and the locale of what they share, itself a step system. An iteration
    \<open>hcb_iter\<close>, \<open>hcs_iter\<close> takes the result of its poll; \<open>hcb_step\<close>, \<open>hcs_step\<close> take the times of the pongs and
    poll with the interval of their source.
  \<^item> \<open>RSF_Deploy\<close>, \<open>RSF_Mains\<close>: command lines, the deployment unit and all main programs.
  \<^item> \<open>RSF_System\<close>, \<open>RSF_Example\<close>: the composition of broker, copies, threads and network as a step
    relation with its invariant, and a concrete run of it.
  \<^item> This theory: the properties that span client, broker and server.

  \<^bold>\<open>What is shown.\<close> End to end, a client gets the mathematical result of the service in spite of a minority
  of wrong replies; in the composed system, whatever is lost, repeated, reordered, crashed or
  restarted, and with up to \<open>nmr div 2\<close> forged replies to each pending request, no client is told a wrong result
  as long as it keeps asking the same; every waiting client is answered once the clock advances; a broker
  whose services are all offered in the order of their codes runs into no fault on well-formed messages of reachable
  clients; every message has the type its receiver casts it to; and after a crash of a copy or of the
  broker the copies are registered again and counted again, a crashed copy with the help of its health checker. Each component has the behaviour of its operations on every branch, its invariants and, where
  code is written twice or updates in place, an equivalence. Properties of kind \<^emph>\<open>error\<close> and the bounds
  show what goes wrong: late replies answer the next request, interleaved registrations misroute requests,
  a request for an incomplete service or a timeout can stop the broker, and a copy that comes and goes takes the
  counter of its service to 0, so that requests are sent to nobody, and below.

  \<^bold>\<open>Bounds.\<close> No fuel is used. \<open>busy_wait\<close> is a partial function that is shown to return when the clock reaches
  the deadline; \<open>vote\<close> is one that returns exactly on at most 255 values, because its loop variables are bytes;
  all other loops are total functions with their measures. A group has at most 255 copies (\<open>uint8_t\<close>).
  Times are integers; \<open>time_add_ms_c_eq\<close> shows that nothing is lost while seconds fit 64 bits and nanoseconds are normalised.

  \<^bold>\<open>The network of the composed system\<close> is more permissive than ZeroMQ: it may deliver any message ever sent on a dealer to
  any registered copy and any reply ever sent to the broker, any number of times. A reply socket follows
  ZeroMQ's documented REP behaviour: it accepts the next request only after it has replied, and a reply goes back
  along the envelope of the request received last. Every copy of the composed system runs the code; faults of a
  copy or of the network that change values are replies of any content that the broker receives in
  between, and the system counts them for each pending request.

  \<^bold>\<open>Not modelled.\<close> The transport library itself, \<open>fork\<close>, \<open>exec\<close>, \<open>getopt\<close> and \<open>localtime\<close> are parameters, and so is
  whether the termination of a context returns; sockets are assumed to bind, that is, no port is taken by another
  process. Two threads that use one reply socket at the same time are not modelled: a send is one step. The
  text of messages on the standard streams and the calls of \<open>write_log\<close> inside the handlers are left out,
  since no state depends on them; the routine itself is modelled.
  The branch under \<^verbatim>\<open>CONSOLE_LOG\<close>, which the sources never define, is left out.
\<close>

section \<open>From the client to the server copies and back\<close>

text \<open>
  \<open>correct_copy s sm rep\<close>: some registered server of the service \<open>s\<close> that is in step with the
  broker accepts the forwarded request \<open>sm\<close>, and the thread it starts replies \<open>rep\<close>.
\<close>

definition correct_copy :: "service_type_t \<Rightarrow> service_module \<Rightarrow> server_reply_t \<Rightarrow> bool" where
  "correct_copy s sm rep \<longleftrightarrow> (\<exists>senv srv srv' st k. service_type srv = s \<and> get_service_body s = Inr (srv_service srv) \<and>
     reply_ptr srv = Socket k \<and> request_id srv \<in> {0, seq_of sm} \<and>
     serve_request senv (enc_service sm) srv = Inr srv' \<and> threads srv' = threads srv @ [st] \<and>
     task_reply senv st = Inr rep)"

lemma correct_copy_reply:
  assumes "correct_copy (service_code k) sm rep" "service_spec k = Some g" "sint (y :: int32) = g (sint x)"
    and "well_formed_request sm" "parameters_of sm = serialize [] [x]"
  shows "ntohl (sr_result rep) = y"
proof -
  from assms(1) obtain senv srv srv' st m where srv: "service_type srv = service_code k"
    "get_service_body (service_code k) = Inr (srv_service srv)" "reply_ptr srv = Socket m"
    "request_id srv \<in> {0, seq_of sm}" "serve_request senv (enc_service sm) srv = Inr srv'"
    "threads srv' = threads srv @ [st]" "task_reply senv st = Inr rep"
    unfolding correct_copy_def by blast
  from assms(4) srv(3) show ?thesis
  proof (cases rule: serve_request_cases [where env = senv])
    case (executed s1)
    with srv(5,6) have "st_parameters st = serialize [] [x]" "st_service st = srv_service srv"
      by (simp_all add: assms(5))
    with srv(2) task_reply_service [OF assms(2) _ _ assms(3), of st senv] srv(7) show ?thesis by auto
  next
    case (rejected s1 r)
    with srv(5,6) show ?thesis by simp
  qed
qed

lemma vote_run_keys: "fst ` set (snd (vote_run n tab evs)) \<subseteq> fst ` set evs"
proof (induction n tab evs rule: vote_run.induct)
  case (2 n tab c v evs)
  obtain tab1 out where step: "vote_step n tab c v = (tab1, out)" by fastforce
  obtain tab2 outs where run: "vote_run n tab1 evs = (tab2, outs)" by fastforce
  from 2 [OF step [symmetric]] have "fst ` set outs \<subseteq> fst ` set evs" by (simp add: run)
  then show ?case by (cases out) (auto simp: step run)
qed simp

lemma single_client_outs:
  assumes "fst ` set outs \<subseteq> {c}" "replies_to c outs = [w]"
  shows "outs = [(c, w)]"
proof -
  from assms(1) have "filter (\<lambda>(d, _). d = c) outs = outs" by (auto simp: filter_id_conv)
  with assms(2) have "map snd outs = [w]" by (simp add: replies_to_def)
  with assms(1) show ?thesis by auto
qed

lemma majority_of_correct:
  assumes "\<forall>rep \<in> set rs. ok rep \<longrightarrow> h rep = (y :: int32)" "n div 2 < length (filter ok rs)"
  shows "majority n (map h rs) y"
proof -
  have "length (filter ok rs) \<le> count_list (map h rs) y" using assms(1) by (induction rs) auto
  with assms(2) show ?thesis by (simp add: majority_def)
qed

lemma client_request_forwarded:
  fixes c :: uint32
  assumes "broker_inv b" "in_session b s" "s \<in> set (available_services b)" "services_db (b_db b) s = Some r"
    and "unat (dealer_skt_index r) < length (dealer b)" "pending_of b s c = None" "0 < unat (b_nmr b)"
    and "length junk_params = PARAM_SIZE"
  obtains req b1 sm where "request_message junk_params s [x] = Inr req"
    "get_request env (client_frame c, [], req) b = Inr b1"
    "sent b1 = sent b @ concat (replicate (unat (num_copies_reliable r))
       (send_frames (Dealer (unat (dealer_skt_index r))) [client_frame c, [], enc_service sm]))"
    "well_formed_request sm" "parameters_of sm = serialize [] [x]"
    "in_session b1 s" "pending_of b1 s c = Some []" "b_nmr b1 = b_nmr b"
proof -
  let ?str = "serialize [] [x]"
  have "length ?str < length junk_params" using length_serialize [of "[x]"] assms(8) by simp
  then obtain bs where bs: "strcpy junk_params ?str = Inr (c_str ?str @ bs)" "length (c_str ?str @ bs) = length junk_params"
    by (rule strcpy_Inr)
  let ?ps = "c_str ?str @ bs"
  let ?req = "enc_request (request_for s ?ps)" and ?sm = "forwarded env r ?ps"
  have len: "length ?ps = PARAM_SIZE" using bs(2) assms(8) by simp
  have req: "request_message junk_params s [x] = Inr ?req"
    using bs(1) by (simp add: request_message_def request_for_def del: serialize.simps)
  have "cstring ?ps = Inr ?str" using serialize_no_NUL by (blast intro: cstring_c_str)
  with len have sm: "well_formed_request ?sm" "parameters_of ?sm = ?str"
    by (auto simp: forwarded_def well_formed_request_def parameters_of_def c_str_def)
  have "length (timeouts b) = length (available_services b)" using assms(1) by (simp add: broker_inv_def)
  from get_request_eq [OF _ len assms(4,5,3) this, of "client_frame c" c env "[]"] obtain b1
    where b1: "get_request env (client_frame c, [], ?req) b = Inr b1" "b_nmr b1 = b_nmr b"
      "sent b1 = sent b @ concat (replicate (unat (num_copies_reliable r))
         (send_frames (Dealer (unat (dealer_skt_index r))) [client_frame c, [], enc_service ?sm]))"
      "services_db (b_db b1) s = Some (r\<lparr>seq_id_request := seq_id_request r + 1, request_records := request_records r @
         [(junk_request env)\<lparr>client_id := c, results := [], rr_timeout := time_add_ms (clk env (ticks b)) REQUEST_TIMEOUT\<rparr>]\<rparr>)"
    by simp
  from get_request_opens_session [OF assms(2,6,7,4) b1(4,2)] have "in_session b1 s" "pending_of b1 s c = Some []" by simp_all
  with that [OF req b1(1,3) sm _ _ b1(2)] show ?thesis by blast
qed

lemma copies_answer_client:
  assumes "in_session b s" "pending_of b s c = Some []" "routable env (client_frame c)" "length rs = unat (b_nmr b)"
    and "\<forall>rep \<in> set rs. \<not> sr_heartbeat rep \<and> \<not> sr_duplicated rep \<and> sr_service rep = htonl s"
    and "majority (unat (b_nmr b)) (map (\<lambda>rep. ntohl (sr_result rep)) rs) y"
  obtains b' where "dealer_loop env (map (\<lambda>rep. reply_event (c, rep)) rs) b = Inr b'"
    "sent b' = sent b @ response_frames (client_frame c) [] SERVICE_AVAILABLE y" "pending_of b' s c = None"
proof -
  let ?n = "unat (b_nmr b)" and ?rs = "map (Pair c) rs"
  define vs where "vs = map (\<lambda>rep. ntohl (sr_result rep)) rs"
  have vs: "length vs = ?n" "majority ?n vs y" using assms(4,6) by (simp_all add: vs_def)
  have counted: "counted ?rs = map (Pair c) vs"
    using assms(5) by (simp add: counted_def vs_def filter_map o_def case_prod_beta cong: filter_cong)
  have replies: "replies_to c (map (Pair c) vs) = vs" for vs :: "int32 list"
    by (induction vs) simp_all
  have hyps: "\<forall>(d, rep) \<in> set ?rs. \<not> sr_heartbeat rep \<and> sr_service rep = htonl s \<and> routable env (client_frame d)"
    using assms(3,5) by auto
  from dealer_loop_refines [OF assms(1) hyps] obtain b'
    where b': "dealer_loop env (map reply_event ?rs) b = Inr b'"
      "pending_of b' s = fst (vote_run ?n (pending_of b s) (map (Pair c) vs))"
      "sent b' = sent b @ verdict_messages env (snd (vote_run ?n (pending_of b s) (map (Pair c) vs)))"
    by (auto simp: counted)
  have "vs \<noteq> []" using vs(2) by (auto simp: majority_def)
  have "the_majority ?n vs = Some y" using vs by (simp add: the_majority_Some_iff)
  with nmr_session_complete [of "[]" vs ?n] vs(1) \<open>vs \<noteq> []\<close> have "nmr_session ?n [] vs = Answered y"
    by (simp add: majority_def)
  with vote_run_session [of "pending_of b s" c "[]" ?n "map (Pair c) vs", OF assms(2)]
  have session: "fst (vote_run ?n (pending_of b s) (map (Pair c) vs)) c = None"
    "replies_to c (snd (vote_run ?n (pending_of b s) (map (Pair c) vs))) = [Answered y]"
    by (simp_all add: replies)
  have "fst ` set (snd (vote_run ?n (pending_of b s) (map (Pair c) vs))) \<subseteq> {c}"
    using vote_run_keys [of ?n "pending_of b s" "map (Pair c) vs"] by auto
  from single_client_outs [OF this session(2)] b'(3)
  have "sent b' = sent b @ response_frames (client_frame c) [] SERVICE_AVAILABLE y"
    by (simp add: verdict_messages_def)
  moreover have "pending_of b' s c = None" unfolding b'(2) by (rule session(1))
  ultimately show ?thesis using b'(1) by (intro that [of b']) (simp_all add: o_def)
qed

section \<open>Properties\<close>

text \<open>
  C1: End to end: a client that asks for a service with one argument gets the mathematical
  result, in spite of a minority of wrong replies. The request message of the client makes the
  broker forward one service message per reliable copy; if \<open>nmr\<close> replies to it come back, more
  than half of them from server copies in step with the broker that run their thread on it, and
  the others with any result, the broker sends the client exactly one response, and
  \<open>request_service\<close> returns true with the result of the service.
\<close>

theorem client_gets_service_result:
  fixes c :: uint32
  assumes spec: "service_spec k = Some g" "sint (y :: int32) = g (sint x)" "s = service_code k"
    and broker: "broker_inv b" "in_session b s" "s \<in> set (available_services b)" "services_db (b_db b) s = Some r"
      "unat (dealer_skt_index r) < length (dealer b)" "pending_of b s c = None" "0 < unat (b_nmr b)"
    and client: "length junk_params = PARAM_SIZE" "routable env (client_frame c)"
  shows "\<exists>req b1 sm. request_message junk_params s [x] = Inr req \<and>
     get_request env (client_frame c, [], req) b = Inr b1 \<and>
     sent b1 = sent b @ concat (replicate (unat (num_copies_reliable r))
       (send_frames (Dealer (unat (dealer_skt_index r))) [client_frame c, [], enc_service sm])) \<and>
     well_formed_request sm \<and> parameters_of sm = serialize [] [x] \<and>
     (\<forall>rs old. length rs = unat (b_nmr b) \<and>
        (\<forall>rep \<in> set rs. \<not> sr_heartbeat rep \<and> \<not> sr_duplicated rep \<and> sr_service rep = htonl s) \<and>
        unat (b_nmr b) div 2 < length (filter (correct_copy s sm) rs) \<longrightarrow>
        (\<exists>b2 resp. dealer_loop env (map (\<lambda>rep. reply_event (c, rep)) rs) b1 = Inr b2 \<and>
           sent b2 = sent b1 @ send_frames Router [client_frame c, [], resp] \<and> pending_of b2 s c = None \<and>
           request_service junk_params (\<lambda>_. Some resp) s old [x] = Inr (True, y)))"
proof -
  from client_request_forwarded [OF broker client(1), where env = env and x = x] obtain req b1 sm
    where req: "request_message junk_params s [x] = Inr req" "get_request env (client_frame c, [], req) b = Inr b1"
      "sent b1 = sent b @ concat (replicate (unat (num_copies_reliable r))
         (send_frames (Dealer (unat (dealer_skt_index r))) [client_frame c, [], enc_service sm]))"
      and sm: "well_formed_request sm" "parameters_of sm = serialize [] [x]"
      and b1: "in_session b1 s" "pending_of b1 s c = Some []" "b_nmr b1 = b_nmr b" .
  have "\<exists>b2 resp. dealer_loop env (map (\<lambda>rep. reply_event (c, rep)) rs) b1 = Inr b2 \<and>
       sent b2 = sent b1 @ send_frames Router [client_frame c, [], resp] \<and> pending_of b2 s c = None \<and>
       request_service junk_params (\<lambda>_. Some resp) s old [x] = Inr (True, y)"
    if rs: "length rs = unat (b_nmr b)"
      "\<forall>rep \<in> set rs. \<not> sr_heartbeat rep \<and> \<not> sr_duplicated rep \<and> sr_service rep = htonl s"
      "unat (b_nmr b) div 2 < length (filter (correct_copy s sm) rs)" for rs old
  proof -
    have "\<forall>rep \<in> set rs. correct_copy s sm rep \<longrightarrow> ntohl (sr_result rep) = y"
      using correct_copy_reply [OF _ spec(1,2) sm] spec(3) by blast
    from majority_of_correct [OF this rs(3)] have "majority (unat (b_nmr b1)) (map (\<lambda>rep. ntohl (sr_result rep)) rs) y"
      by (simp add: b1(3))
    with b1 client(2) rs(1,2) obtain b2 where b2: "dealer_loop env (map (\<lambda>rep. reply_event (c, rep)) rs) b1 = Inr b2"
      "sent b2 = sent b1 @ response_frames (client_frame c) [] SERVICE_AVAILABLE y" "pending_of b2 s c = None"
      by (auto elim: copies_answer_client)
    let ?resp = "enc_response \<lparr>rs_status = htonl (status_code SERVICE_AVAILABLE), rs_result = htonl y\<rparr>"
    have "request_service junk_params (\<lambda>_. Some ?resp) s old [x] = Inr (True, y)"
      using req(1) by (simp add: request_service_def read_response_def)
    with b2 show ?thesis by (intro exI [of _ b2] exI [of _ ?resp]) (simp add: response_frames_def)
  qed
  with req sm show ?thesis by blast
qed

text \<open>The example server in step with the broker is a correct copy of the increment service.\<close>

lemma correct_copy_exists:
  assumes "well_formed_request sm" "parameters_of sm = serialize [] [2]"
  obtains rep where "correct_copy 0 sm rep" "\<not> sr_heartbeat rep" "\<not> sr_duplicated rep" "sr_service rep = htonl 0"
proof -
  obtain srv where srv: "example_server = Inr srv" "reply_ptr srv = Socket 0" "request_id srv = 0"
    "service_type srv = 0" "srv_service srv = increment" by (rule example_server_eq)
  from assms(1) srv(2) show ?thesis
  proof (cases rule: serve_request_cases [where env = example_senv])
    case (executed srv')
    let ?st = "\<lparr>st_parameters = parameters_of sm, st_service = srv_service srv, st_service_type = service_type srv,
      st_id = srv_id srv, st_skt = 0\<rparr>"
    have body: "get_service_body 0 = Inr increment" by (simp add: get_service_body_def service_kind_of_def)
    let ?rep = "(junk_reply example_senv)\<lparr>sr_id := srv_id srv, sr_heartbeat := False, sr_result := htonl 3,
      sr_service := htonl 0, sr_duplicated := False\<rparr>"
    have reply: "task_reply example_senv ?st = Inr ?rep"
      using task_reply_service [of INCREMENT "\<lambda>x. x + 1" ?st 2 3 example_senv] srv(4,5) assms(2) body
      by (simp del: serialize.simps)
    have "correct_copy 0 sm ?rep" unfolding correct_copy_def
      by (rule exI [of _ example_senv], rule exI [of _ srv], rule exI [of _ srv'], rule exI [of _ ?st], rule exI [of _ 0])
        (use body reply executed srv in simp)
    then show ?thesis by (rule that) simp_all
  next
    case (rejected srv' rep)
    with srv(3) show ?thesis by simp
  qed
qed

theorem client_gets_service_result_witness:
  "\<exists>b1 b2 sm rs resp. length rs = 3 \<and> 3 div 2 < length (filter (correct_copy 0 sm) rs) \<and>
     dealer_loop example_env (map (\<lambda>rep. reply_event (9, rep)) rs) b1 = Inr b2 \<and>
     sent b2 = sent b1 @ send_frames Router [client_frame 9, [], resp] \<and>
     request_service (replicate 100 255) (\<lambda>_. Some resp) 0 77 [2] = Inr (True, 3)"
proof -
  have session: "in_session (example_broker []) 0" "pending_of (example_broker []) 0 9 = None"
    by (simp_all add: in_session_def pending_of_def table_open_def lookup_request_def)
  have rest: "(0 :: service_type_t) = service_code INCREMENT" "0 \<in> set (available_services (example_broker []))"
    "services_db (b_db (example_broker [])) 0 = Some example_record"
    "unat (dealer_skt_index example_record) < length (dealer (example_broker []))"
    "0 < unat (b_nmr (example_broker []))" "length (replicate 100 (255 :: byte)) = 100"
    "routable example_env (client_frame 9)" "service_spec INCREMENT = Some (\<lambda>x. x + 1)"
    "sint (3 :: int32) = sint (2 :: int32) + 1"
    by (simp_all add: example_record_def)
  have nmr: "unat (b_nmr (example_broker [])) = 3" by simp
  obtain b1 sm where sm: "well_formed_request sm" "parameters_of sm = serialize [] [2]"
    and answer: "\<forall>rs old. length rs = 3 \<and>
        (\<forall>rep \<in> set rs. \<not> sr_heartbeat rep \<and> \<not> sr_duplicated rep \<and> sr_service rep = htonl 0) \<and>
        3 div 2 < length (filter (correct_copy 0 sm) rs) \<longrightarrow>
        (\<exists>b2 resp. dealer_loop example_env (map (\<lambda>rep. reply_event (9, rep)) rs) b1 = Inr b2 \<and>
           sent b2 = sent b1 @ send_frames Router [client_frame 9, [], resp] \<and> pending_of b2 0 9 = None \<and>
           request_service (replicate 100 255) (\<lambda>_. Some resp) 0 old [2] = Inr (True, 3))"
    using client_gets_service_result [OF rest(8,9,1) example_broker_inv session(1) rest(2-4) session(2) rest(5-7), unfolded nmr]
    by blast
  obtain rep where rep: "correct_copy 0 sm rep" "\<not> sr_heartbeat rep" "\<not> sr_duplicated rep" "sr_service rep = htonl 0"
    using correct_copy_exists [OF sm] .
  let ?rs = "[rep, example_reply (htonl 0) 1, rep]"
  have "\<forall>rep \<in> set ?rs. \<not> sr_heartbeat rep \<and> \<not> sr_duplicated rep \<and> sr_service rep = htonl 0"
    using rep by (simp add: example_reply_def)
  moreover have "3 div 2 < length (filter (correct_copy 0 sm) ?rs)" using rep(1) by simp
  ultimately obtain b2 resp where "dealer_loop example_env (map (\<lambda>rep. reply_event (9, rep)) ?rs) b1 = Inr b2"
    "sent b2 = sent b1 @ send_frames Router [client_frame 9, [], resp]"
    "request_service (replicate 100 255) (\<lambda>_. Some resp) 0 77 [2] = Inr (True, 3)"
    using spec [OF spec [OF answer], of ?rs 77] by (auto simp only: list.size)
  moreover note \<open>3 div 2 < length (filter (correct_copy 0 sm) ?rs)\<close>
  moreover have "length ?rs = 3" by simp
  ultimately show ?thesis by blast
qed

text \<open>
  C30: Why a client must keep asking the same: a reply does not carry the number of the request it
  belongs to, so the broker takes late replies for the answer to the client's next request. A client
  that now asks for \<open>x\<close> is told, as an available result, the result \<open>y0\<close> of an earlier request for
  \<open>x0\<close> when the copies deliver their replies to that one only after the new request has come.
\<close>

theorem late_replies_answer_next_request:
  fixes c :: uint32
  assumes spec: "service_spec k = Some g" "sint (y0 :: int32) = g (sint x0)" "s = service_code k"
    and broker: "broker_inv b" "in_session b s" "s \<in> set (available_services b)" "services_db (b_db b) s = Some r"
      "unat (dealer_skt_index r) < length (dealer b)" "pending_of b s c = None" "0 < unat (b_nmr b)"
    and client: "length junk_params = PARAM_SIZE" "routable env (client_frame c)"
    and earlier: "well_formed_request sm0" "parameters_of sm0 = serialize [] [x0]"
    and late: "length rs = unat (b_nmr b)" "\<forall>rep \<in> set rs. correct_copy s sm0 rep \<and>
      \<not> sr_heartbeat rep \<and> \<not> sr_duplicated rep \<and> sr_service rep = htonl s"
  shows "\<exists>req b1 b2 resp. request_message junk_params s [x] = Inr req \<and>
     get_request env (client_frame c, [], req) b = Inr b1 \<and>
     dealer_loop env (map (\<lambda>rep. reply_event (c, rep)) rs) b1 = Inr b2 \<and>
     sent b2 = sent b1 @ send_frames Router [client_frame c, [], resp] \<and>
     request_service junk_params (\<lambda>_. Some resp) s old [x] = Inr (True, y0)"
proof -
  from client_request_forwarded [OF broker client(1), where env = env and x = x] obtain req b1
    where req: "request_message junk_params s [x] = Inr req" "get_request env (client_frame c, [], req) b = Inr b1"
      and b1: "in_session b1 s" "pending_of b1 s c = Some []" "b_nmr b1 = b_nmr b" .
  have "\<forall>rep \<in> set rs. True \<longrightarrow> ntohl (sr_result rep) = y0"
    using correct_copy_reply [OF _ spec(1,2) earlier] spec(3) late(2) by blast
  then have "majority (unat (b_nmr b1)) (map (\<lambda>rep. ntohl (sr_result rep)) rs) y0"
    using broker(7) late(1) by (intro majority_of_correct [where ok = "\<lambda>_. True"]) (simp_all add: b1(3))
  with b1 client(2) late obtain b2 where b2: "dealer_loop env (map (\<lambda>rep. reply_event (c, rep)) rs) b1 = Inr b2"
    "sent b2 = sent b1 @ response_frames (client_frame c) [] SERVICE_AVAILABLE y0"
    by (auto elim: copies_answer_client)
  let ?resp = "enc_response \<lparr>rs_status = htonl (status_code SERVICE_AVAILABLE), rs_result = htonl y0\<rparr>"
  have "request_service junk_params (\<lambda>_. Some ?resp) s old [x] = Inr (True, y0)"
    using req(1) by (simp add: request_service_def read_response_def)
  with req b2 show ?thesis by (auto simp: response_frames_def)
qed

theorem late_replies_answer_next_request_witness:
  "\<exists>req b1 b2 rs resp. request_message (replicate 100 255) 0 [40] = Inr req \<and>
     get_request example_env (client_frame 9, [], req) (example_broker []) = Inr b1 \<and>
     dealer_loop example_env (map (\<lambda>rep. reply_event (9, rep)) rs) b1 = Inr b2 \<and>
     sent b2 = sent b1 @ send_frames Router [client_frame 9, [], resp] \<and>
     request_service (replicate 100 255) (\<lambda>_. Some resp) 0 77 [40] = Inr (True, 3)"
proof -
  let ?str = "serialize [] [2]"
  have "length ?str < length (replicate 100 (0 :: byte))" using length_serialize [of "[2]"] by simp
  then obtain bs where bs: "length (c_str ?str @ bs) = length (replicate 100 (0 :: byte))" by (rule strcpy_Inr)
  let ?sm = "forwarded example_env example_record (c_str ?str @ bs)"
  have "cstring (c_str ?str @ bs) = Inr ?str" using serialize_no_NUL by (blast intro: cstring_c_str)
  with bs have sm: "well_formed_request ?sm" "parameters_of ?sm = ?str"
    by (auto simp: forwarded_def well_formed_request_def parameters_of_def c_str_def)
  obtain rep where rep: "correct_copy 0 ?sm rep" "\<not> sr_heartbeat rep" "\<not> sr_duplicated rep" "sr_service rep = htonl 0"
    using correct_copy_exists [OF sm] .
  have rest: "(0 :: service_type_t) = service_code INCREMENT" "in_session (example_broker []) 0"
    "0 \<in> set (available_services (example_broker []))" "services_db (b_db (example_broker [])) 0 = Some example_record"
    "unat (dealer_skt_index example_record) < length (dealer (example_broker []))"
    "pending_of (example_broker []) 0 9 = None" "0 < unat (b_nmr (example_broker []))"
    "length (replicate 100 (255 :: byte)) = 100" "routable example_env (client_frame 9)"
    "service_spec INCREMENT = Some (\<lambda>x. x + 1)" "sint (3 :: int32) = sint (2 :: int32) + 1"
    "length (replicate 3 rep) = unat (b_nmr (example_broker []))"
    by (simp_all add: in_session_def pending_of_def table_open_def lookup_request_def)
  have "\<forall>r \<in> set (replicate 3 rep). correct_copy 0 ?sm r \<and> \<not> sr_heartbeat r \<and> \<not> sr_duplicated r \<and> sr_service r = htonl 0"
    using rep by simp
  from late_replies_answer_next_request [OF rest(10,11,1) example_broker_inv rest(2-9) sm rest(12) this, of 40 77]
  show ?thesis by blast
qed

text \<open>
  C2: No wrong result in the whole system: let a broker, any number of server copies and their
  threads run in any interleaving, with copies and broker crashing and restarting at any time, a
  network that loses, duplicates, delays and reorders messages, and a minority of faulty copies,
  which for each pending request may put up to \<open>nmr div 2\<close> replies with any contents on the wire. If
  every client keeps asking for one service with one argument, then in every reachable state each
  response the broker ever sent to client \<open>c\<close> makes \<open>request_service\<close> return either false or the
  mathematical result of the service; so everything the client program prints is \<open>g 2\<close>.
\<close>

theorem system_tells_no_wrong_result:
  fixes c :: uint32
  assumes "initial_system sys0" and "(system_step ask)\<^sup>*\<^sup>* sys0 sys"
    and "ask c = (service_code k, x)" and "service_spec k = Some g"
    and "\<forall>i f d. exchange i f = Some d \<longrightarrow> (\<exists>f' e. load 4 1 f' = Inr c \<and> (Router, [f', e, d]) \<in> sys_net sys)"
  shows "(\<forall>junk_params i old w. request_service junk_params (exchange i) (service_code k) old [x] = Inr (True, w) \<longrightarrow>
       sint w = g (sint x)) \<and>
     (x = 2 \<longrightarrow> (\<forall>w \<in> set (fst (client_main argv opts junk_svc junk_res junk exchange)). sint w = g 2))"
proof -
  have right: "\<forall>i f d old w. exchange i f = Some d \<longrightarrow> read_response d old = Inr (True, w) \<longrightarrow> sint w = g (sint x)"
    using reachable_response [OF assms(1,2)] expected_spec [of ask c _ k x g, OF _ assms(3,4)] assms(5) by blast
  then have "sint w = g (sint x)" if "request_service junk_params (exchange i) (service_code k) old [x] = Inr (True, w)"
    for junk_params i old w
    using that unfolding request_service_def by (auto simp: rbind_Inr_iff of_option_Inr_iff)
  moreover have "\<forall>w \<in> set (fst (client_main argv opts junk_svc junk_res junk exchange)). sint w = g (sint x)"
    using client_loop_prints [OF right] unfolding client_main_def by (auto split: sum.splits)
  ultimately show ?thesis by auto
qed

theorem system_tells_no_wrong_result_witness:
  "\<exists>sys0 sys exchange. initial_system sys0 \<and> (system_step example_ask)\<^sup>*\<^sup>* sys0 sys \<and> sys_forged sys 9 = 1 \<and>
     (\<forall>i f d. exchange i f = Some d \<longrightarrow> (Router, [client_frame 9, [], d]) \<in> sys_net sys) \<and>
     fst (client_main [(), (), ()] [(CHR ''s'', ''0'')] 7 7 (\<lambda>i. replicate 100 0) exchange) \<noteq> [] \<and>
     (\<forall>w \<in> set (fst (client_main [(), (), ()] [(CHR ''s'', ''0'')] 7 7 (\<lambda>i. replicate 100 0) exchange)). sint w = 2 + 1)"
proof -
  let ?rs = "\<lparr>rs_status = htonl (status_code SERVICE_AVAILABLE), rs_result = htonl 3\<rparr>"
  let ?exchange = "\<lambda>(i :: uint8) (f :: frame). Some (enc_response ?rs)"
  let ?out = "fst (client_main [(), (), ()] [(CHR ''s'', ''0'')] 7 7 (\<lambda>i. replicate 100 0) ?exchange)"
  obtain sys0 sys where sys: "initial_system sys0" "(system_step example_ask)\<^sup>*\<^sup>* sys0 sys"
    "(Router, response_message (client_frame 9) [] SERVICE_AVAILABLE 3) \<in> sys_net sys" "sys_forged sys 9 = 1" by (rule example_run)
  have ask: "example_ask 9 = (service_code INCREMENT, 2)" by (simp add: example_ask_def)
  have sent: "\<forall>i f d. ?exchange i f = Some d \<longrightarrow> (\<exists>f' e. load 4 1 f' = Inr (9 :: uint32) \<and> (Router, [f', e, d]) \<in> sys_net sys)"
    using sys(3) load_client_frame [of 9] by (metis One_nat_def option.inject)
  have spec: "service_spec INCREMENT = Some (\<lambda>x. x + 1)" by simp
  have "\<forall>w \<in> set ?out. sint w = 2 + 1"
    using system_tells_no_wrong_result [OF sys(1,2) ask spec sent] by blast
  moreover have "atoi ''0'' = Inr 0" by code_simp
  then have "?out \<noteq> []"
    using client_loop_responses [of "\<lambda>i. replicate 100 0" "replicate 5 ?rs" ?exchange 0 0 7]
    by (simp add: client_main_def new_client_def get_arg_service_def available_results_def word_less_nat_alt)
  moreover have "\<forall>i f d. ?exchange i f = Some d \<longrightarrow> (Router, [client_frame 9, [], d]) \<in> sys_net sys" using sys(3) by simp
  ultimately show ?thesis using sys(1,2,4)
    by (intro exI [of _ sys0] exI [of _ sys] exI [of _ ?exchange] conjI)
qed

end
